(* ===== verification/ZPrelude.thy ===== *)
theory ZPrelude
  imports Main "HOL-Library.Word"
begin

text \<open>
  The shared vocabulary of the development: the machine types of \<^verbatim>\<open>kernel/types.h\<close>,
  the outcome of a kernel call (a value, a panic, or a thread that has to sleep), little-endian
  encoding of integers, and a byte-addressed memory with the lemmas on reading back what was
  written.  Every component theory builds on these.
\<close>

unbundle bit_operations_syntax

section \<open>Machine types and outcomes\<close>

type_synonym byte = "8 word"
type_synonym u16 = "16 word"
type_synonym u32 = "32 word"
type_synonym u64 = "64 word"
type_synonym addr = "64 word"
type_synonym mem = "addr \<Rightarrow> byte"

text \<open>
  The channel a thread sleeps on, named by the kernel object whose address the source passes to
  \<^verbatim>\<open>sleep\<close>.
\<close>

datatype chan =
    ChLog
  | ChTicks
  | ChBuf nat
  | ChBufLock nat
  | ChInodeLock nat
  | ChProc nat
  | ChPipeRead addr
  | ChPipeWrite addr
  | ChConsole
  | ChUart
  | ChDisk

text \<open>
  A kernel call that does not return to its caller panics, with the message the source passes to
  \<^verbatim>\<open>panic\<close>, or puts its thread to sleep on a channel, or (where a loop or recursion of the source
  is not bounded by its text) has used up the depth the model gives it, or spins for ever; the
  theorems on such a routine show that the depth suffices.  \<open>Undefined\<close> is a step to which C gives no
  meaning, such as a store past the end of a local array.
\<close>

datatype stop = Panic string | Sleep chan | Diverge | Undefined

type_synonym 'a res = "stop + 'a"

definition bnd :: "'a res \<Rightarrow> ('a \<Rightarrow> 'b res) \<Rightarrow> 'b res" where
  "bnd r f = (case r of Inl e \<Rightarrow> Inl e | Inr x \<Rightarrow> f x)"

definition panic :: "string \<Rightarrow> 'a res" where
  "panic msg = Inl (Panic msg)"

lemma bnd_Inl [simp]: "bnd (Inl e) f = Inl e"
  by (simp add: bnd_def)

lemma bnd_Inr [simp]: "bnd (Inr x) f = f x"
  by (simp add: bnd_def)

lemma bnd_panic [simp]: "bnd (panic m) f = panic m"
  by (simp add: panic_def)

lemma panic_neq_Inr [simp]: "panic m \<noteq> Inr x" "Inr x \<noteq> panic m"
  by (simp_all add: panic_def)

lemma bnd_eq_Inr: "bnd r f = Inr y \<longleftrightarrow> (\<exists>x. r = Inr x \<and> f x = Inr y)"
  by (cases r) auto

lemma bnd_cong [fundef_cong]: "r = r' \<Longrightarrow> (\<And>x. r' = Inr x \<Longrightarrow> f x = g x) \<Longrightarrow> bnd r f = bnd r' g"
  by (cases r') auto

lemma bnd_assoc: "bnd (bnd r f) g = bnd r (\<lambda>x. bnd (f x) g)"
  by (cases r) auto

section \<open>Strings\<close>

text \<open>A C string is the list of its bytes without the terminating zero, read as zero past the end.\<close>

fun head0 :: "byte list \<Rightarrow> byte" where
  "head0 [] = 0"
| "head0 (c # cs) = c"

definition bytes_of :: "string \<Rightarrow> byte list" where
  "bytes_of cs = map of_char cs"

section \<open>Little-endian integers\<close>

text \<open>The bytes of a word, least significant first, and the word that a list of bytes spells.\<close>

fun le_bytes :: "nat \<Rightarrow> 'a::len word \<Rightarrow> byte list" where
  "le_bytes 0 w = []"
| "le_bytes (Suc n) w = ucast w # le_bytes n (drop_bit 8 w)"

fun le_word :: "byte list \<Rightarrow> 'a::len word" where
  "le_word [] = 0"
| "le_word (b # bs) = ucast b OR push_bit 8 (le_word bs)"

lemma length_le_bytes [simp]: "length (le_bytes n w) = n"
  by (induction n w rule: le_bytes.induct) auto

lemma bit_le_word_le_bytes:
  fixes w :: "'a::len word"
  shows "bit (le_word (le_bytes n w) :: 'a word) k \<longleftrightarrow> k < 8 * n \<and> bit w k"
proof (induction n arbitrary: w k)
  case 0
  then show ?case by simp
next
  case (Suc n)
  show ?case
    using bit_imp_le_length [of w k]
    by (auto simp: bit_or_iff bit_push_bit_iff bit_ucast_iff Suc.IH bit_drop_bit_eq)
qed

lemma le_word_le_bytes:
  fixes w :: "'a::len word"
  assumes "LENGTH('a) \<le> 8 * n"
  shows "le_word (le_bytes n w) = w"
proof (rule bit_word_eqI)
  fix k
  show "bit (le_word (le_bytes n w) :: 'a word) k \<longleftrightarrow> bit w k"
    using assms bit_imp_le_length [of w k] by (auto simp: bit_le_word_le_bytes)
qed

lemma le_bytes_le_word:
  assumes "8 * length bs \<le> LENGTH('a::len)"
  shows "le_bytes (length bs) (le_word bs :: 'a word) = bs"
  using assms
proof (induction bs)
  case Nil
  then show ?case by simp
next
  case (Cons b bs)
  have "ucast (ucast b OR push_bit 8 (le_word bs :: 'a word)) = b"
    using Cons.prems
    by (intro bit_word_eqI) (auto simp: bit_or_iff bit_push_bit_iff bit_ucast_iff dest: bit_imp_le_length)
  moreover have "drop_bit 8 (ucast b OR push_bit 8 (le_word bs :: 'a word)) = le_word bs"
  proof (rule bit_word_eqI)
    fix k assume k: "k < LENGTH('a)"
    have high: "8 + k < LENGTH('a)" if bk: "bit (le_word bs :: 'a word) k"
    proof -
      have "le_word (le_bytes (length bs) (le_word bs :: 'a word)) = (le_word bs :: 'a word)"
        using Cons by simp
      then have "k < 8 * length bs"
        using bk bit_le_word_le_bytes [of "length bs" "le_word bs :: 'a word" k] by metis
      then show ?thesis using Cons.prems by simp
    qed
    show "bit (drop_bit 8 (ucast b OR push_bit 8 (le_word bs :: 'a word))) k
        \<longleftrightarrow> bit (le_word bs :: 'a word) k"
      using high
      by (auto simp: bit_drop_bit_eq bit_or_iff bit_push_bit_iff bit_ucast_iff dest: bit_imp_le_length)
  qed
  ultimately show ?case using Cons by simp
qed

section \<open>Byte-addressed memory\<close>

definition read_bytes :: "mem \<Rightarrow> addr \<Rightarrow> nat \<Rightarrow> byte list" where
  "read_bytes m a n = map (\<lambda>i. m (a + of_nat i)) [0..<n]"

definition write_bytes :: "mem \<Rightarrow> addr \<Rightarrow> byte list \<Rightarrow> mem" where
  "write_bytes m a bs = (\<lambda>x. if unat (x - a) < length bs then bs ! unat (x - a) else m x)"

text \<open>The addresses of the \<open>n\<close> bytes from \<open>a\<close>; the subtraction wraps as pointers do.\<close>

definition in_range :: "addr \<Rightarrow> nat \<Rightarrow> addr \<Rightarrow> bool" where
  "in_range a n x \<longleftrightarrow> unat (x - a) < n"

definition disjoint_ranges :: "addr \<Rightarrow> nat \<Rightarrow> addr \<Rightarrow> nat \<Rightarrow> bool" where
  "disjoint_ranges a n b k \<longleftrightarrow> (\<forall>x. \<not> (in_range a n x \<and> in_range b k x))"

lemma addr_eq_offset:
  fixes x d :: addr
  assumes "i < 2 ^ 64"
  shows "x = d + of_nat i \<longleftrightarrow> unat (x - d) = i"
proof
  assume "x = d + of_nat i"
  with assms show "unat (x - d) = i" by (simp add: unat_of_nat)
next
  assume "unat (x - d) = i"
  then have "of_nat i = x - d" by auto
  then show "x = d + of_nat i" by simp
qed

lemma unat_u32_lt: "unat (n :: u32) < 2 ^ 32" "unat (n :: u32) < 2 ^ 64"
  using unsigned_less [of n, where 'a = nat] by simp_all

lemmas unat_u32_lt_numeral = unat_u32_lt [simplified]

lemma unat_addr_lt: "unat (a :: addr) < 2 ^ 64"
  using unsigned_less [of a, where 'a = nat] by simp

lemma eq_of_natI: "unat (x :: addr) = n \<Longrightarrow> x = of_nat n"
  by auto

lemma unat_add_of_nat:
  fixes a :: addr
  assumes "unat a + k < 2 ^ 64"
  shows "unat (a + of_nat k) = unat a + k"
  using assms by (simp add: unat_word_ariths unat_of_nat)

lemmas unat_addr_lt_numeral = unat_addr_lt [simplified]

lemma unat_ucast_byte [simp]: "unat (ucast (c :: byte) :: u32) = unat c"
  using unsigned_less [of c, where 'a = nat] by (simp add: unsigned_ucast_eq take_bit_nat_eq_self)

lemma ucast_ucast_byte [simp]: "ucast (ucast (c :: byte) :: u32) = c"
  by (rule bit_word_eqI) (auto simp: bit_ucast_iff)

lemma sint_scast_u32: "sint (scast (y :: u32) :: u64) = sint y"
  using sint_ge [of y] sint_less [of y] by (simp add: signed_scast_eq signed_take_bit_int_eq_self)

lemma byte_of_int:
  assumes "0 \<le> b" "b < 256"
  shows "(word_of_int b :: byte) = 10 \<longleftrightarrow> b = 10" "(word_of_int b :: byte) = 4 \<longleftrightarrow> b = 4" "(word_of_int b :: u32) \<noteq> 0x100"
proof -
  have "uint (word_of_int b :: byte) = b" "uint (word_of_int b :: u32) = b"
    using assms by (simp_all add: uint_word_of_int_eq take_bit_int_eq_self)
  then show "(word_of_int b :: byte) = 10 \<longleftrightarrow> b = 10" "(word_of_int b :: byte) = 4 \<longleftrightarrow> b = 4" "(word_of_int b :: u32) \<noteq> 0x100"
    using assms by (auto simp: word_uint_eq_iff)
qed

lemma unat_ucast_u32 [simp]: "unat (ucast (n :: u32) :: u64) = unat n"
  by (simp add: unsigned_ucast_eq take_bit_nat_eq_self unat_u32_lt_numeral)

lemma length_read_bytes [simp]: "length (read_bytes m a n) = n"
  by (simp add: read_bytes_def)

lemma nth_read_bytes [simp]: "i < n \<Longrightarrow> read_bytes m a n ! i = m (a + of_nat i)"
  by (simp add: read_bytes_def)

lemma read_bytes_0 [simp]: "read_bytes m a 0 = []"
  by (simp add: read_bytes_def)

lemma read_bytes_Suc: "read_bytes m a (Suc n) = m a # read_bytes m (a + 1) n"
  by (rule nth_equalityI) (auto simp: nth_Cons add.assoc split: nat.splits)

lemma write_bytes_Nil [simp]: "write_bytes m a [] = m"
  by (simp add: write_bytes_def)

lemma write_bytes_out [simp]: "\<not> in_range a (length bs) x \<Longrightarrow> write_bytes m a bs x = m x"
  by (simp add: write_bytes_def in_range_def)

lemma write_bytes_at:
  "i < length bs \<Longrightarrow> length bs \<le> 2 ^ 64 \<Longrightarrow> write_bytes m a bs (a + of_nat i) = bs ! i"
  by (simp add: write_bytes_def unat_of_nat)

lemma read_write_bytes:
  "length bs \<le> 2 ^ 64 \<Longrightarrow> read_bytes (write_bytes m a bs) a (length bs) = bs"
  by (rule nth_equalityI) (simp_all add: write_bytes_at)

lemma in_range_of_nat: "i < n \<Longrightarrow> n \<le> 2 ^ 64 \<Longrightarrow> in_range a n (a + of_nat i)"
  by (simp add: in_range_def unat_of_nat)

lemma unat_sub_Suc:
  fixes x a :: addr
  assumes "x \<noteq> a"
  shows "unat (x - a) = Suc (unat (x - (a + 1)))"
proof -
  have "0 < unat (x - a)" using assms by (simp add: unat_gt_0)
  moreover have "unat (x - (a + 1)) = unat (x - a) - 1"
    using assms by (simp add: diff_diff_eq [symmetric] unat_minus_one)
  ultimately show ?thesis by simp
qed

lemma in_range_Suc: "in_range a (Suc n) x \<longleftrightarrow> x = a \<or> in_range (a + 1) n x"
  by (cases "x = a") (auto simp: in_range_def unat_sub_Suc)

lemma unat_sub_add:
  fixes w a :: addr
  assumes "n \<le> unat (w - a)"
  shows "unat (w - (a + of_nat n)) = unat (w - a) - n"
proof -
  have n: "unat (of_nat n :: addr) = n"
    using assms unat_addr_lt [of "w - a"] by (simp add: unat_of_nat)
  have "w - (a + of_nat n) = (w - a) - of_nat n" by simp
  also have "unat \<dots> = unat (w - a) - n"
    using assms n by (simp add: unat_sub word_le_nat_alt)
  finally show ?thesis .
qed

lemma in_range_append:
  assumes "n + k < 2 ^ 64"
  shows "in_range a (n + k) w \<longleftrightarrow> in_range a n w \<or> in_range (a + of_nat n) k w"
    "in_range (a + of_nat n) k w \<Longrightarrow> unat (w - a) = n + unat (w - (a + of_nat n))"
proof -
  have far: "\<not> in_range (a + of_nat n) k w" if "unat (w - a) < n"
  proof -
    have "unat (of_nat n :: addr) = n" using assms by (simp add: unat_of_nat)
    then have "unat ((w - a) - of_nat n) = unat (w - a) + 2 ^ 64 - n"
      using that unat_sub_if_size [of "w - a" "of_nat n"] by (simp add: word_le_nat_alt word_size)
    then have "unat (w - (a + of_nat n)) = unat (w - a) + 2 ^ 64 - n" by (simp only: diff_diff_eq)
    then show ?thesis using assms by (simp add: in_range_def)
  qed
  show "in_range a (n + k) w \<longleftrightarrow> in_range a n w \<or> in_range (a + of_nat n) k w"
    using far unat_sub_add [of n w a] by (cases "unat (w - a) < n") (auto simp: in_range_def)
  show "in_range (a + of_nat n) k w \<Longrightarrow> unat (w - a) = n + unat (w - (a + of_nat n))"
    using far unat_sub_add [of n w a] by (cases "unat (w - a) < n") auto
qed

lemma write_bytes_Cons:
  assumes "length bs < 2 ^ 64"
  shows "write_bytes m a (b # bs) = write_bytes (m(a := b)) (a + 1) bs"
proof (rule ext)
  fix x
  show "write_bytes m a (b # bs) x = write_bytes (m(a := b)) (a + 1) bs x"
  proof (cases "x = a")
    case True
    have "\<not> unat (- 1 :: addr) < length bs"
      using assms by (simp add: unsigned_minus_1_eq_mask mask_eq_exp_minus_1)
    with True show ?thesis by (simp add: write_bytes_def)
  next
    case False
    then show ?thesis by (simp add: write_bytes_def unat_sub_Suc [OF False])
  qed
qed

lemma read_bytes_cong:
  "(\<And>i. i < n \<Longrightarrow> m (a + of_nat i) = m' (a + of_nat i)) \<Longrightarrow> read_bytes m a n = read_bytes m' a n"
  by (rule nth_equalityI) simp_all

lemma read_bytes_frame:
  assumes "\<And>x. in_range a n x \<Longrightarrow> m' x = m x" and "n \<le> 2 ^ 64"
  shows "read_bytes m' a n = read_bytes m a n"
  using assms by (intro read_bytes_cong) (simp add: in_range_of_nat)

lemma read_bytes_write_other:
  assumes "disjoint_ranges a n b (length bs)" and "n \<le> 2 ^ 64"
  shows "read_bytes (write_bytes m b bs) a n = read_bytes m a n"
  using assms by (intro read_bytes_frame) (auto simp: disjoint_ranges_def)

definition read64 :: "mem \<Rightarrow> addr \<Rightarrow> u64" where
  "read64 m a = le_word (read_bytes m a 8)"

definition write64 :: "mem \<Rightarrow> addr \<Rightarrow> u64 \<Rightarrow> mem" where
  "write64 m a v = write_bytes m a (le_bytes 8 v)"

definition read32 :: "mem \<Rightarrow> addr \<Rightarrow> u32" where
  "read32 m a = le_word (read_bytes m a 4)"

definition write32 :: "mem \<Rightarrow> addr \<Rightarrow> u32 \<Rightarrow> mem" where
  "write32 m a v = write_bytes m a (le_bytes 4 v)"

lemma read64_write64 [simp]: "read64 (write64 m a v) a = v"
proof -
  have "read_bytes (write_bytes m a (le_bytes 8 v)) a (length (le_bytes 8 v)) = le_bytes 8 v"
    by (rule read_write_bytes) simp
  then show ?thesis
    by (simp add: read64_def write64_def le_word_le_bytes)
qed

lemma write64_out [simp]: "\<not> in_range a 8 x \<Longrightarrow> write64 m a v x = m x"
  by (simp add: write64_def)

lemma read64_frame: "(\<And>x. in_range a 8 x \<Longrightarrow> m' x = m x) \<Longrightarrow> read64 m' a = read64 m a"
  unfolding read64_def by (subst read_bytes_frame [of a 8 m' m]) auto

end
