(* ===== verification/Spinlock.thy ===== *)
theory Spinlock
  imports ZPrelude
begin

text \<open>
  \<^verbatim>\<open>kernel/spinlock.c\<close>.  The routines as functions on one CPU and one lock, and the same code as a
  step relation in which any number of CPUs interleave at every access to the lock word: mutual
  exclusion holds in every reachable state, the checks that would panic never fire, and interrupts
  are back as they were when the outermost lock is released.
\<close>

section \<open>The routines\<close>

text \<open>
  The parts of \<^verbatim>\<open>struct cpu\<close> that the lock code uses, with the interrupt-enable bit of the CPU's
  \<^verbatim>\<open>sstatus\<close> register.
\<close>

record cpu =
  c_noff :: int
  c_intena :: bool
  c_ie :: bool

record spinlock =
  lk_locked :: u32
  lk_name :: string
  lk_cpu :: "nat option"

definition initlock :: "string \<Rightarrow> spinlock" where
  "initlock name = \<lparr>lk_locked = 0, lk_name = name, lk_cpu = None\<rparr>"

definition push_off :: "cpu \<Rightarrow> cpu" where
  "push_off c =
     (let old = c_ie c;
          c = c\<lparr>c_ie := False\<rparr>;
          c = (if c_noff c = 0 then c\<lparr>c_intena := old\<rparr> else c)
      in c\<lparr>c_noff := c_noff c + 1\<rparr>)"

definition pop_off :: "cpu \<Rightarrow> cpu res" where
  "pop_off c =
     (if c_ie c then panic ''pop_off - interruptible''
      else if c_noff c < 1 then panic ''pop_off''
      else let c = c\<lparr>c_noff := c_noff c - 1\<rparr>
           in Inr (if c_noff c = 0 \<and> c_intena c then c\<lparr>c_ie := True\<rparr> else c))"

definition holding :: "nat \<Rightarrow> spinlock \<Rightarrow> bool" where
  "holding me lk \<longleftrightarrow> lk_locked lk \<noteq> 0 \<and> lk_cpu lk = Some me"

text \<open>
  \<^verbatim>\<open>__sync_lock_test_and_set\<close> and \<^verbatim>\<open>__sync_lock_release\<close>: the atomic accesses to the lock word.
\<close>

definition test_and_set :: "spinlock \<Rightarrow> u32 \<times> spinlock" where
  "test_and_set lk = (lk_locked lk, lk\<lparr>lk_locked := 1\<rparr>)"

definition lock_release :: "spinlock \<Rightarrow> spinlock" where
  "lock_release lk = lk\<lparr>lk_locked := 0\<rparr>"

text \<open>
  \<open>acquire\<close> with at most \<open>n\<close> turns of the spin loop in which nobody else touches the lock.
\<close>

primrec spin :: "nat \<Rightarrow> spinlock \<Rightarrow> spinlock res" where
  "spin 0 lk = Inl Diverge"
| "spin (Suc n) lk = (case test_and_set lk of (old, lk) \<Rightarrow> if old \<noteq> 0 then spin n lk else Inr lk)"

definition acquire :: "nat \<Rightarrow> nat \<Rightarrow> cpu \<Rightarrow> spinlock \<Rightarrow> (cpu \<times> spinlock) res" where
  "acquire n me c lk =
     (let c = push_off c in
      if holding me lk then panic ''acquire''
      else bnd (spin n lk) (\<lambda>lk. Inr (c, lk\<lparr>lk_cpu := Some me\<rparr>)))"

definition release :: "nat \<Rightarrow> cpu \<Rightarrow> spinlock \<Rightarrow> (cpu \<times> spinlock) res" where
  "release me c lk =
     (if \<not> holding me lk then panic ''release''
      else let lk = lk\<lparr>lk_cpu := None\<rparr>;
               lk = lock_release lk
           in bnd (pop_off c) (\<lambda>c. Inr (c, lk)))"

section \<open>Interrupts\<close>

lemma push_off_fields [simp]:
  "c_noff (push_off c) = c_noff c + 1" "\<not> c_ie (push_off c)"
  "c_intena (push_off c) = (if c_noff c = 0 then c_ie c else c_intena c)"
  by (simp_all add: push_off_def Let_def)

text \<open>A CPU whose interrupts may only be on outside every \<open>push_off\<close>.\<close>

definition cpu_ok :: "cpu \<Rightarrow> bool" where
  "cpu_ok c \<longleftrightarrow> 0 \<le> c_noff c \<and> (0 < c_noff c \<longrightarrow> \<not> c_ie c)"

lemma push_off_ok: "cpu_ok c \<Longrightarrow> cpu_ok (push_off c)"
  by (simp add: cpu_ok_def)

lemma pop_push:
  assumes "cpu_ok c"
  shows "\<exists>c'. pop_off (push_off c) = Inr c' \<and> c_ie c' = c_ie c \<and> c_noff c' = c_noff c
    \<and> (0 < c_noff c \<longrightarrow> c_intena c' = c_intena c)"
  using assms by (auto simp: pop_off_def push_off_def Let_def cpu_ok_def)

lemma acquire_free:
  assumes "lk_locked lk = 0" "0 < n"
  shows "acquire n me c lk = Inr (push_off c, lk\<lparr>lk_locked := 1, lk_cpu := Some me\<rparr>)"
  using assms by (cases n) (auto simp: acquire_def holding_def test_and_set_def)

lemma acquire_held_spins:
  "lk_locked lk = 1 \<Longrightarrow> lk_cpu lk \<noteq> Some me \<Longrightarrow> acquire n me c lk = Inl Diverge"
proof -
  have "lk_locked l = 1 \<Longrightarrow> spin n l = Inl Diverge" for l
    by (induction n arbitrary: l) (auto simp: test_and_set_def)
  then show "lk_locked lk = 1 \<Longrightarrow> lk_cpu lk \<noteq> Some me \<Longrightarrow> acquire n me c lk = Inl Diverge"
    by (simp add: acquire_def holding_def Let_def)
qed

text \<open>C30: taking a free lock and releasing it again never panics and leaves the CPU's interrupts
  and nesting depth, and the lock, as they were.\<close>

theorem acquire_release:
  assumes "cpu_ok c" "lk_locked lk = 0" "lk_cpu lk = None" "0 < n"
  shows "\<exists>c' lk' c''. acquire n me c lk = Inr (c', lk') \<and> holding me lk' \<and> \<not> c_ie c'
    \<and> release me c' lk' = Inr (c'', lk) \<and> c_ie c'' = c_ie c \<and> c_noff c'' = c_noff c"
proof -
  obtain c'' where "pop_off (push_off c) = Inr c''" "c_ie c'' = c_ie c" "c_noff c'' = c_noff c"
    using pop_push [OF assms(1)] by blast
  moreover have "lk\<lparr>lk_locked := 0, lk_cpu := None\<rparr> = lk" using assms(2,3) by simp
  ultimately show ?thesis
    using acquire_free [OF assms(2,4), of me c] assms
    by (simp add: release_def holding_def lock_release_def Let_def)
qed

theorem acquire_release_witness:
  "\<exists>c' lk' c''. acquire 1 0 \<lparr>c_noff = 0, c_intena = False, c_ie = True\<rparr> (initlock ''kmem'') = Inr (c', lk')
    \<and> holding 0 lk' \<and> \<not> c_ie c' \<and> release 0 c' lk' = Inr (c'', initlock ''kmem'') \<and> c_ie c'' \<and> c_noff c'' = 0"
  using acquire_release [of "\<lparr>c_noff = 0, c_intena = False, c_ie = True\<rparr>" "initlock ''kmem''" 1 0]
  by (auto simp: cpu_ok_def initlock_def)

section \<open>Interleaving CPUs\<close>

text \<open>
  Where a CPU stands in \<open>acquire\<close> and \<open>release\<close>: outside; after \<open>push_off\<close> and the \<open>holding\<close> check,
  spinning; the swap has returned 0 but \<^verbatim>\<open>lk->cpu\<close> is not yet set; inside the critical section;
  \<^verbatim>\<open>lk->cpu\<close> is cleared but the lock word is not yet; the word is cleared and \<open>pop_off\<close> remains.
\<close>

datatype lpc = Outside | Spinning | Swapped | Critical | Clearing | Popping

record lsys =
  ls_lock :: spinlock
  ls_pc :: "nat \<Rightarrow> lpc"
  ls_cpu :: "nat \<Rightarrow> cpu"
  ls_panic :: bool

definition goto :: "nat \<Rightarrow> lpc \<Rightarrow> lsys \<Rightarrow> lsys" where
  "goto i pc s = s\<lparr>ls_pc := (ls_pc s)(i := pc)\<rparr>"

text \<open>One step of CPU \<open>i\<close>.\<close>

inductive lstep :: "nat \<Rightarrow> lsys \<Rightarrow> lsys \<Rightarrow> bool" for i :: nat where
  enter: "ls_pc s i = Outside \<Longrightarrow> c = push_off (ls_cpu s i) \<Longrightarrow>
    lstep i s (let s = s\<lparr>ls_cpu := (ls_cpu s)(i := c)\<rparr>
               in if holding i (ls_lock s) then s\<lparr>ls_panic := True\<rparr> else goto i Spinning s)"
| swap: "ls_pc s i = Spinning \<Longrightarrow> test_and_set (ls_lock s) = (old, lk) \<Longrightarrow>
    lstep i s (let s = s\<lparr>ls_lock := lk\<rparr> in if old \<noteq> 0 then s else goto i Swapped s)"
| own: "ls_pc s i = Swapped \<Longrightarrow>
    lstep i s (goto i Critical (s\<lparr>ls_lock := (ls_lock s)\<lparr>lk_cpu := Some i\<rparr>\<rparr>))"
| leave: "ls_pc s i = Critical \<Longrightarrow>
    lstep i s (if \<not> holding i (ls_lock s) then s\<lparr>ls_panic := True\<rparr>
               else goto i Clearing (s\<lparr>ls_lock := (ls_lock s)\<lparr>lk_cpu := None\<rparr>\<rparr>))"
| clear: "ls_pc s i = Clearing \<Longrightarrow> lstep i s (goto i Popping (s\<lparr>ls_lock := lock_release (ls_lock s)\<rparr>))"
| pop: "ls_pc s i = Popping \<Longrightarrow>
    lstep i s (case pop_off (ls_cpu s i) of Inl _ \<Rightarrow> s\<lparr>ls_panic := True\<rparr>
               | Inr c \<Rightarrow> goto i Outside (s\<lparr>ls_cpu := (ls_cpu s)(i := c)\<rparr>))"

inductive lreach :: "lsys \<Rightarrow> lsys \<Rightarrow> bool" for s0 :: lsys where
  lreach_init: "lreach s0 s0"
| lreach_step: "lreach s0 s \<Longrightarrow> lstep i s s' \<Longrightarrow> lreach s0 s'"

definition owns :: "lpc \<Rightarrow> bool" where
  "owns pc \<longleftrightarrow> pc \<in> {Swapped, Critical, Clearing}"

text \<open>
  The invariant: the word is set exactly while some CPU owns the lock, that CPU is unique,
  \<^verbatim>\<open>lk->cpu\<close> names a CPU only while that CPU is inside, and interrupts are off in between.
\<close>

definition owners :: "lsys \<Rightarrow> nat set" where
  "owners s = {i. owns (ls_pc s i)}"

definition linv :: "lsys \<Rightarrow> bool" where
  "linv s \<longleftrightarrow> \<not> ls_panic s \<and>
     (if lk_locked (ls_lock s) = 0 then owners s = {} else \<exists>i. owners s = {i}) \<and>
     (\<forall>i. lk_cpu (ls_lock s) = Some i \<longleftrightarrow> ls_pc s i = Critical) \<and>
     (\<forall>i. cpu_ok (ls_cpu s i)) \<and>
     (\<forall>i. ls_pc s i \<noteq> Outside \<longrightarrow> 0 < c_noff (ls_cpu s i))"

lemma goto_simps [simp]:
  "ls_lock (goto i pc s) = ls_lock s" "ls_cpu (goto i pc s) = ls_cpu s" "ls_panic (goto i pc s) = ls_panic s"
  "ls_pc (goto i pc s) = (ls_pc s)(i := pc)"
  by (simp_all add: goto_def)

lemma owns_simps [simp]:
  "\<not> owns Outside" "\<not> owns Spinning" "owns Swapped" "owns Critical" "owns Clearing" "\<not> owns Popping"
  by (simp_all add: owns_def)

lemma owners_goto:
  "owners (goto i pc s) = (if owns pc then insert i (owners s) else owners s - {i})"
  by (auto simp: owners_def)

lemma owners_upd [simp]:
  "owners (s\<lparr>ls_lock := lk\<rparr>) = owners s" "owners (s\<lparr>ls_cpu := c\<rparr>) = owners s"
  "owners (s\<lparr>ls_panic := b\<rparr>) = owners s"
  by (simp_all add: owners_def)

lemma owners_iff: "i \<in> owners s \<longleftrightarrow> owns (ls_pc s i)"
  by (simp add: owners_def)

lemma linv_owner:
  assumes "linv s" "owns (ls_pc s i)"
  shows "owners s = {i}" "lk_locked (ls_lock s) \<noteq> 0" "\<And>j. j \<noteq> i \<Longrightarrow> ls_pc s j \<noteq> Critical"
proof -
  have i: "i \<in> owners s" using assms(2) by (simp add: owners_iff)
  then show l: "lk_locked (ls_lock s) \<noteq> 0" and o: "owners s = {i}"
    using assms(1) by (auto simp: linv_def split: if_splits)
  show "ls_pc s j \<noteq> Critical" if "j \<noteq> i" for j
  proof
    assume "ls_pc s j = Critical"
    then have "j \<in> owners s" by (simp add: owners_iff)
    with o that show False by simp
  qed
qed

lemma linv_step: "lstep i s s' \<Longrightarrow> linv s \<Longrightarrow> linv s'"
proof (induction rule: lstep.induct)
  case (enter s c)
  have "\<not> holding i (ls_lock s)"
    using enter by (auto simp: linv_def holding_def)
  moreover have "cpu_ok c" "0 < c_noff c"
    using enter push_off_ok by (auto simp: linv_def cpu_ok_def)
  moreover have "owners s - {i} = owners s" using enter.hyps by (auto simp: owners_def)
  ultimately show ?case
    using enter by (auto simp: linv_def Let_def owners_goto)
next
  case (swap s old lk)
  show ?case
  proof (cases "old = 0")
    case True
    then have free: "owners s = {}"
      using swap by (auto simp: linv_def test_and_set_def)
    moreover have "lk_cpu (ls_lock s) \<noteq> Some i" using swap by (auto simp: linv_def)
    ultimately show ?thesis
      using swap True by (auto simp: linv_def Let_def test_and_set_def owners_goto)
  next
    case False
    with swap show ?thesis by (auto simp: linv_def Let_def test_and_set_def split: if_splits)
  qed
next
  case (own s)
  have o: "owns (ls_pc s i)" using own.hyps by simp
  show ?case
    using own linv_owner [OF own.prems o] by (auto simp: linv_def owners_goto)
next
  case (leave s)
  have o: "owns (ls_pc s i)" using leave.hyps by simp
  have "holding i (ls_lock s)"
    using leave linv_owner(2) [OF leave.prems o] by (simp add: linv_def holding_def)
  then show ?case
    using leave linv_owner [OF leave.prems o] by (auto simp: linv_def owners_goto)
next
  case (clear s)
  have o: "owns (ls_pc s i)" using clear.hyps by simp
  then show ?case
    using clear linv_owner [OF clear.prems o] by (auto simp: linv_def owners_goto lock_release_def)
next
  case (pop s)
  have c: "cpu_ok (ls_cpu s i)" "0 < c_noff (ls_cpu s i)" using pop by (auto simp: linv_def)
  then obtain c where p: "pop_off (ls_cpu s i) = Inr c" "cpu_ok c"
    by (auto simp: pop_off_def cpu_ok_def Let_def)
  moreover have "owners s - {i} = owners s" using pop.hyps by (auto simp: owners_def)
  moreover have "lk_cpu (ls_lock s) \<noteq> Some i" using pop by (auto simp: linv_def)
  ultimately show ?case using pop by (auto simp: linv_def owners_goto)
qed

lemma linv_reach: "lreach s0 s \<Longrightarrow> linv s0 \<Longrightarrow> linv s"
  by (induction rule: lreach.induct) (auto intro: linv_step)

text \<open>Every CPU outside with interrupts in any state, and the lock as \<open>initlock\<close> leaves it.\<close>

definition lsys_init :: "string \<Rightarrow> (nat \<Rightarrow> bool) \<Rightarrow> lsys" where
  "lsys_init name ie = \<lparr>ls_lock = initlock name, ls_pc = (\<lambda>_. Outside),
     ls_cpu = (\<lambda>i. \<lparr>c_noff = 0, c_intena = False, c_ie = ie i\<rparr>), ls_panic = False\<rparr>"

lemma linv_init: "linv (lsys_init name ie)"
  by (simp add: linv_def lsys_init_def initlock_def cpu_ok_def owners_def)

text \<open>C21: however the CPUs interleave, at most one is in the critical section, it has its interrupts
  off and passes the \<open>holding\<close> check of \<open>release\<close>, and no check of the lock code panics.\<close>

theorem mutual_exclusion:
  assumes "lreach (lsys_init name ie) s"
  shows "\<not> ls_panic s \<and>
    (\<forall>i j. ls_pc s i = Critical \<longrightarrow> ls_pc s j = Critical \<longrightarrow> i = j) \<and>
    (\<forall>i. ls_pc s i = Critical \<longrightarrow> holding i (ls_lock s) \<and> \<not> c_ie (ls_cpu s i))"
proof -
  have inv: "linv s" using linv_reach [OF assms linv_init] .
  have "holding i (ls_lock s) \<and> \<not> c_ie (ls_cpu s i) \<and> (\<forall>j. ls_pc s j = Critical \<longrightarrow> j = i)"
    if "ls_pc s i = Critical" for i
  proof -
    have o: "owns (ls_pc s i)" using that by simp
    have "cpu_ok (ls_cpu s i)" "0 < c_noff (ls_cpu s i)" using inv that by (auto simp: linv_def)
    then show ?thesis
      using linv_owner [OF inv o] inv that by (auto simp: linv_def holding_def cpu_ok_def)
  qed
  with inv show ?thesis by (auto simp: linv_def)
qed

lemma lstep_enter_free:
  "ls_pc s i = Outside \<Longrightarrow> lk_locked (ls_lock s) = 0 \<Longrightarrow>
    lstep i s (goto i Spinning (s\<lparr>ls_cpu := (ls_cpu s)(i := push_off (ls_cpu s i))\<rparr>))"
  using lstep.enter [of s i, OF _ refl] by (simp add: holding_def Let_def)

lemma lstep_swap_free:
  "ls_pc s i = Spinning \<Longrightarrow> lk_locked (ls_lock s) = 0 \<Longrightarrow>
    lstep i s (goto i Swapped (s\<lparr>ls_lock := (ls_lock s)\<lparr>lk_locked := 1\<rparr>\<rparr>))"
  using lstep.swap [of s i] by (simp add: test_and_set_def Let_def)

theorem mutual_exclusion_witness:
  "\<exists>s. lreach (lsys_init ''kmem'' (\<lambda>_. True)) s \<and> ls_pc s 3 = Critical \<and> ls_pc s 5 \<noteq> Critical
    \<and> holding 3 (ls_lock s) \<and> \<not> ls_panic s"
proof -
  let ?s0 = "lsys_init ''kmem'' (\<lambda>_. True)"
  let ?s1 = "goto 3 Spinning (?s0\<lparr>ls_cpu := (ls_cpu ?s0)(3 := push_off (ls_cpu ?s0 3))\<rparr>)"
  let ?s2 = "goto 3 Swapped (?s1\<lparr>ls_lock := (ls_lock ?s1)\<lparr>lk_locked := 1\<rparr>\<rparr>)"
  let ?s3 = "goto 3 Critical (?s2\<lparr>ls_lock := (ls_lock ?s2)\<lparr>lk_cpu := Some 3\<rparr>\<rparr>)"
  have "lstep 3 ?s0 ?s1" by (rule lstep_enter_free) (simp_all add: lsys_init_def initlock_def)
  moreover have "lstep 3 ?s1 ?s2" by (rule lstep_swap_free) (simp_all add: lsys_init_def initlock_def)
  moreover have "lstep 3 ?s2 ?s3" by (rule lstep.own) simp
  ultimately have r: "lreach ?s0 ?s3" by (blast intro: lreach.intros)
  from mutual_exclusion [OF r] have "holding 3 (ls_lock ?s3)" "\<not> ls_panic ?s3" "ls_pc ?s3 5 \<noteq> Critical"
    by (auto simp: lsys_init_def)
  with r show ?thesis by (intro exI [of _ ?s3]) simp
qed

text \<open>
  Progress: a CPU that is not waiting for somebody else can always step, and a spinning CPU gets the
  lock with its next step as soon as the word is free.
\<close>

lemma lstep_enabled: "\<exists>s'. lstep i s s'"
proof (cases "ls_pc s i")
  case Spinning
  then show ?thesis using lstep.swap [of s i] by (cases "test_and_set (ls_lock s)") blast
qed (blast intro: lstep.intros)+

lemma spinner_gets_free_lock:
  "lstep i s s' \<Longrightarrow> ls_pc s i = Spinning \<Longrightarrow> lk_locked (ls_lock s) = 0 \<Longrightarrow> ls_pc s' i = Swapped"
  by (erule lstep.cases) (auto simp: test_and_set_def Let_def)

end
