(* ===== verification/Riscv.thy ===== *)
theory Riscv
  imports ZPrelude
begin

text \<open>
  \<^verbatim>\<open>kernel/riscv.h\<close> and \<^verbatim>\<open>kernel/memlayout.h\<close>: the Sv39 page-table macros, page rounding and the
  layout of the virtual address space, with the arithmetic facts on pages and page-table entries
  that the allocator and the virtual-memory code rely on.
\<close>

unbundle bit_operations_syntax

section \<open>Macros\<close>

abbreviation PGSIZE :: u64 where "PGSIZE \<equiv> 4096"

definition PGROUNDUP :: "u64 \<Rightarrow> u64" where
  "PGROUNDUP sz = (sz + PGSIZE - 1) AND NOT (PGSIZE - 1)"

definition PGROUNDDOWN :: "u64 \<Rightarrow> u64" where
  "PGROUNDDOWN a = a AND NOT (PGSIZE - 1)"

definition PTE_V :: u64 where "PTE_V = push_bit 0 1"
definition PTE_R :: u64 where "PTE_R = push_bit 1 1"
definition PTE_W :: u64 where "PTE_W = push_bit 2 1"
definition PTE_X :: u64 where "PTE_X = push_bit 3 1"
definition PTE_U :: u64 where "PTE_U = push_bit 4 1"

definition PA2PTE :: "u64 \<Rightarrow> u64" where
  "PA2PTE pa = push_bit 10 (drop_bit 12 pa)"

definition PTE2PA :: "u64 \<Rightarrow> u64" where
  "PTE2PA pte = push_bit 12 (drop_bit 10 pte)"

definition PTE_FLAGS :: "u64 \<Rightarrow> u64" where
  "PTE_FLAGS pte = pte AND 0x3FF"

definition PXSHIFT :: "nat \<Rightarrow> nat" where
  "PXSHIFT level = 12 + 9 * level"

definition PX :: "nat \<Rightarrow> u64 \<Rightarrow> u64" where
  "PX level va = drop_bit (PXSHIFT level) va AND 0x1FF"

definition MAXVA :: u64 where
  "MAXVA = push_bit (9 + 9 + 9 + 12 - 1) 1"

definition SATP_SV39 :: u64 where "SATP_SV39 = push_bit 60 8"

definition MAKE_SATP :: "u64 \<Rightarrow> u64" where
  "MAKE_SATP pagetable = SATP_SV39 OR drop_bit 12 pagetable"

definition KERNBASE :: u64 where "KERNBASE = 0x80200000"
definition RAMBASE :: u64 where "RAMBASE = 0x80000000"
definition PHYSTOP :: u64 where "PHYSTOP = RAMBASE + 128 * 1024 * 1024"
definition TRAMPOLINE :: u64 where "TRAMPOLINE = MAXVA - PGSIZE"
definition KSTACK :: "u64 \<Rightarrow> u64" where "KSTACK p = TRAMPOLINE - (p + 1) * 2 * PGSIZE"
definition TRAPFRAME :: u64 where "TRAPFRAME = TRAMPOLINE - PGSIZE"
definition SHADOW_STACK :: u64 where "SHADOW_STACK = TRAPFRAME - PGSIZE"

lemma PTE_bits [simp]: "PTE_V = 1" "PTE_R = 2" "PTE_W = 4" "PTE_X = 8" "PTE_U = 16"
  by (simp_all add: PTE_V_def PTE_R_def PTE_W_def PTE_X_def PTE_U_def)

lemma MAXVA_eq: "MAXVA = 0x4000000000"
  by (simp add: MAXVA_def)

lemma layout_eq:
  "TRAMPOLINE = 0x3FFFFFF000" "TRAPFRAME = 0x3FFFFFE000" "SHADOW_STACK = 0x3FFFFFD000"
  by (simp_all add: TRAMPOLINE_def TRAPFRAME_def SHADOW_STACK_def MAXVA_def)

section \<open>Pages\<close>

definition page_aligned :: "addr \<Rightarrow> bool" where
  "page_aligned a \<longleftrightarrow> a mod PGSIZE = 0"

definition in_page :: "addr \<Rightarrow> addr \<Rightarrow> bool" where
  "in_page p x \<longleftrightarrow> in_range p 4096 x"

lemma page_aligned_unat: "page_aligned a \<longleftrightarrow> unat a mod 4096 = 0"
proof -
  have "a mod PGSIZE = 0 \<longleftrightarrow> unat (a mod PGSIZE) = 0" by (simp add: unat_eq_0)
  then show ?thesis by (simp add: page_aligned_def unat_mod)
qed

lemma page_aligned_bits: "page_aligned a \<longleftrightarrow> (\<forall>k < 12. \<not> bit a k)"
proof -
  have "a mod PGSIZE = take_bit 12 a" by (simp add: take_bit_eq_mod)
  then show ?thesis
    by (auto simp: page_aligned_def bit_eq_iff [of "take_bit 12 a" 0] bit_take_bit_iff)
qed

lemma page_aligned_0 [simp]: "page_aligned 0"
  by (simp add: page_aligned_def)

lemma unat_page_end:
  assumes "page_aligned p"
  shows "unat p + 4096 \<le> 2 ^ 64"
proof -
  obtain k where k: "unat p = 4096 * k"
    using assms by (auto simp: page_aligned_unat)
  have "4096 * k < 4096 * 2 ^ 52" using unat_addr_lt [of p] k by simp
  then have "k + 1 \<le> 2 ^ 52" by simp
  then have "4096 * (k + 1) \<le> 4096 * 2 ^ 52" by (rule mult_le_mono2)
  then show ?thesis using k by simp
qed

lemma in_page_div:
  assumes "page_aligned p"
  shows "in_page p x \<longleftrightarrow> unat x div 4096 = unat p div 4096"
proof
  assume "in_page p x"
  then have lt: "unat (x - p) < 4096" by (simp add: in_page_def in_range_def)
  have "unat (p + (x - p)) = unat p + unat (x - p)"
    using lt unat_page_end [OF assms] by (intro unat_add_lem [THEN iffD1]) simp
  then have "unat x = unat p + unat (x - p)" by simp
  then show "unat x div 4096 = unat p div 4096"
    using lt assms by (auto simp: page_aligned_unat)
next
  assume eq: "unat x div 4096 = unat p div 4096"
  have "unat p \<le> unat x" and "unat x - unat p < 4096"
    using assms eq div_mult_mod_eq [of "unat x" 4096] div_mult_mod_eq [of "unat p" 4096]
    by (auto simp: page_aligned_unat)
  then have "unat (x - p) < 4096"
    by (simp add: unat_sub word_le_nat_alt)
  then show "in_page p x" by (simp add: in_page_def in_range_def)
qed

lemma in_page_unique:
  "page_aligned p \<Longrightarrow> page_aligned q \<Longrightarrow> in_page p x \<Longrightarrow> in_page q x \<Longrightarrow> p = q"
proof -
  assume a: "page_aligned p" "page_aligned q" "in_page p x" "in_page q x"
  then have "unat p div 4096 = unat q div 4096" by (simp add: in_page_div)
  moreover have "unat p = unat p div 4096 * 4096" "unat q = unat q div 4096 * 4096"
    using a(1,2) by (auto simp: page_aligned_unat)
  ultimately have "unat p = unat q" by simp
  then show "p = q" by (rule unsigned_word_eqI)
qed

lemma page_aligned_diff:
  assumes "page_aligned v" "page_aligned b"
  shows "page_aligned (v - b)"
proof -
  obtain i k where ik: "unat v = 4096 * i" "unat b = 4096 * k"
    using assms by (auto simp: page_aligned_unat elim!: dvdE)
  have "k \<le> 2 ^ 52" using unat_addr_lt [of b] ik by simp
  then have "unat (v - b) = 4096 * (if b \<le> v then i - k else i + 2 ^ 52 - k)"
    using ik unat_sub_if_size [of v b] by (simp add: word_le_nat_alt word_size diff_mult_distrib2)
  then show ?thesis unfolding page_aligned_unat by simp
qed

lemma in_page_self [simp]: "in_page p p"
  by (simp add: in_page_def in_range_def)

lemma PGROUNDDOWN_bits: "bit (PGROUNDDOWN a) k \<longleftrightarrow> 12 \<le> k \<and> bit a k"
proof -
  have "PGROUNDDOWN a = a AND NOT (mask 12)"
    by (simp add: PGROUNDDOWN_def mask_eq_exp_minus_1)
  then show ?thesis
    by (auto simp: bit_and_iff bit_not_iff bit_mask_iff dest: bit_imp_le_length)
qed

lemma PGROUNDDOWN_aligned [simp]: "page_aligned (PGROUNDDOWN a)"
  by (simp add: page_aligned_bits PGROUNDDOWN_bits)

lemma PGROUNDDOWN_idem [simp]: "page_aligned a \<Longrightarrow> PGROUNDDOWN a = a"
  by (rule bit_word_eqI) (use not_le in \<open>auto simp: PGROUNDDOWN_bits page_aligned_bits\<close>)

lemma unat_PGROUNDDOWN: "unat (PGROUNDDOWN a) = unat a div 4096 * 4096"
proof -
  have "PGROUNDDOWN a = push_bit 12 (drop_bit 12 a)"
    by (rule bit_word_eqI) (auto simp: PGROUNDDOWN_bits bit_push_bit_iff bit_drop_bit_eq)
  also have "\<dots> = drop_bit 12 a * 4096"
    by (simp add: push_bit_eq_mult)
  finally have "unat (PGROUNDDOWN a) = (unat a div 4096 * 4096) mod 2 ^ 64"
    by (simp add: unat_word_ariths unat_drop_bit_eq drop_bit_eq_div mod_mult_left_eq)
  moreover have "unat a div 4096 * 4096 < 2 ^ 64"
    using unat_addr_lt [of a] div_times_less_eq_dividend [of "unat a" 4096] by linarith
  ultimately show ?thesis by simp
qed

lemma in_page_PGROUNDDOWN: "in_page (PGROUNDDOWN a) a"
  by (simp add: in_page_div unat_PGROUNDDOWN)

lemma PGROUNDUP_aligned [simp]: "page_aligned (PGROUNDUP a)"
  using PGROUNDDOWN_aligned [of "a + PGSIZE - 1"] by (simp add: PGROUNDUP_def PGROUNDDOWN_def)

lemma unat_PGROUNDUP:
  assumes "unat a + 4095 < 2 ^ 64"
  shows "unat (PGROUNDUP a) = (unat a + 4095) div 4096 * 4096"
proof -
  have "unat (a + 4095) = unat a + 4095"
    using assms by (simp add: unat_word_ariths)
  then show ?thesis
    using unat_PGROUNDDOWN [of "a + 4095"] by (simp add: PGROUNDUP_def PGROUNDDOWN_def add.commute)
qed

section \<open>Page-table entries\<close>

lemma bit_less_exp:
  fixes x :: u64
  assumes "x < 2 ^ n" and "bit x k"
  shows "k < n"
proof -
  have "x AND mask n = x" using assms(1) by (rule less_mask_eq)
  then have "bit (mask n :: u64) k" using assms(2) by (metis bit_and_iff)
  then show ?thesis by (simp add: bit_mask_iff)
qed

lemma or_small:
  fixes x y :: u64
  assumes "x < 2 ^ n" "y < 2 ^ n" "n < 64"
  shows "x OR y < 2 ^ n"
proof -
  have "x AND mask n = x" "y AND mask n = y" using assms by (auto intro: less_mask_eq)
  then have "(x OR y) AND mask n = x OR y" by (metis bit.conj_disj_distrib2)
  moreover have "(x OR y) AND mask n < 2 ^ n" using assms(3) by (intro and_mask_less') simp
  ultimately show ?thesis by simp
qed

lemma scast_ucast_small:
  fixes x :: u64
  assumes "x < 2 ^ 31"
  shows "scast (ucast x :: u32) = x"
proof (rule bit_word_eqI)
  fix k assume k: "k < LENGTH(64)"
  have no: "\<not> bit x j" if "31 \<le> j" for j using bit_less_exp [OF assms, of j] that by auto
  show "bit (scast (ucast x :: u32) :: u64) k \<longleftrightarrow> bit x k"
    using no k by (auto simp: bit_signed_iff bit_ucast_iff min_def)
qed

lemma bit_PA2PTE: "bit (PA2PTE pa) k \<longleftrightarrow> 10 \<le> k \<and> k < 64 \<and> bit pa (k + 2)"
  by (auto simp: PA2PTE_def bit_push_bit_iff bit_drop_bit_eq dest: bit_imp_le_length)

lemma bit_PTE2PA: "bit (PTE2PA pte) k \<longleftrightarrow> 12 \<le> k \<and> k < 64 \<and> bit pte (k - 2)"
  by (auto simp: PTE2PA_def bit_push_bit_iff bit_drop_bit_eq)

lemma PTE2PA_aligned [simp]: "page_aligned (PTE2PA pte)"
  by (simp add: page_aligned_bits bit_PTE2PA)

lemma PTE2PA_PA2PTE:
  assumes "page_aligned pa" and "pa < 2 ^ 56" and "f < 1024"
  shows "PTE2PA (PA2PTE pa OR f) = pa"
proof (rule bit_word_eqI)
  fix k assume "k < LENGTH(64)"
  have f: "\<not> bit f j" if "10 \<le> j" for j
    using bit_less_exp [of f 10 j] assms(3) that by auto
  have pa: "12 \<le> k \<and> k < 56" if "bit pa k"
    using that assms(1) bit_less_exp [OF assms(2) that] not_le by (auto simp: page_aligned_bits)
  show "bit (PTE2PA (PA2PTE pa OR f)) k \<longleftrightarrow> bit pa k"
  proof (cases "12 \<le> k")
    case True
    then obtain j where "k = 12 + j" using le_Suc_ex by blast
    with f pa show ?thesis by (auto simp: bit_PTE2PA bit_or_iff bit_PA2PTE)
  next
    case False
    with pa show ?thesis by (auto simp: bit_PTE2PA)
  qed
qed

lemma PA2PTE_and_low:
  assumes "g < 1024"
  shows "(PA2PTE pa OR f) AND g = f AND g"
proof (rule bit_word_eqI)
  fix k assume "k < LENGTH(64)"
  show "bit ((PA2PTE pa OR f) AND g) k \<longleftrightarrow> bit (f AND g) k"
    using bit_less_exp [of g 10 k] assms by (auto simp: bit_and_iff bit_or_iff bit_PA2PTE)
qed

lemma PTE_FLAGS_PA2PTE:
  assumes "f < 1024"
  shows "PTE_FLAGS (PA2PTE pa OR f) = f"
proof -
  have "f AND mask 10 = f" using assms by (intro less_mask_eq) simp
  then have "f AND 0x3FF = f" by (simp add: mask_eq_exp_minus_1)
  then show ?thesis by (simp add: PTE_FLAGS_def PA2PTE_and_low)
qed

section \<open>Page-table indices\<close>

lemma unat_PX: "unat (PX level va) = unat va div 2 ^ (12 + 9 * level) mod 512"
proof -
  have "PX level va = take_bit 9 (drop_bit (12 + 9 * level) va)"
    by (simp add: PX_def PXSHIFT_def take_bit_eq_mask mask_eq_exp_minus_1)
  then have "unat (PX level va) = take_bit 9 (drop_bit (12 + 9 * level) (unat va))"
    by (simp only: unsigned_take_bit_eq unat_drop_bit_eq)
  then show ?thesis
    by (simp add: take_bit_eq_mod drop_bit_eq_div)
qed

lemma PX_less: "unat (PX level va) < 512"
  by (simp add: unat_PX)

lemma PX_decompose:
  assumes "page_aligned va" and "va < MAXVA"
  shows "unat va = 4096 * (unat (PX 0 va) + 512 * unat (PX 1 va) + 512 * 512 * unat (PX 2 va))"
proof -
  define v where "v = unat va div 4096"
  have va: "unat va = 4096 * v"
    using assms(1) by (auto simp: v_def page_aligned_unat)
  have "unat va < 2 ^ 38"
    using assms(2) by (simp add: MAXVA_eq word_less_nat_alt)
  then have v: "v < 2 ^ 26" using va by simp
  have "unat (PX 0 va) = v mod 512" "unat (PX 1 va) = v div 512 mod 512"
    by (simp_all add: unat_PX v_def flip: div_mult2_eq)
  moreover have "unat (PX 2 va) = v div 512 div 512 mod 512"
    by (simp add: unat_PX v_def flip: div_mult2_eq)
  moreover have "v div 512 div 512 mod 512 = v div 512 div 512" using v by simp
  moreover have "4096 * v = 4096 * (v mod 512 + 512 * (v div 512 mod 512) + 512 * 512 * (v div 512 div 512))"
  proof -
    have digits: "w = 512 * q + r \<Longrightarrow> q = 512 * s + t \<Longrightarrow> 4096 * w = 4096 * (r + 512 * t + 512 * 512 * s)"
      for w q r s t :: nat by simp
    show ?thesis by (rule digits [of _ "v div 512"]) simp_all
  qed
  ultimately show ?thesis using va by metis
qed

lemma PX_inject:
  assumes "page_aligned va" "va < MAXVA" "page_aligned vb" "vb < MAXVA"
    and "\<And>l. l \<le> 2 \<Longrightarrow> PX l va = PX l vb"
  shows "va = vb"
proof -
  have "unat va = unat vb"
    using PX_decompose [OF assms(1,2)] PX_decompose [OF assms(3,4)] assms(5) [of 0] assms(5) [of 1]
      assms(5) [of 2] by simp
  then show ?thesis by (rule unsigned_word_eqI)
qed

section \<open>Entries of a page-table page\<close>

text \<open>\<open>&pagetable[i]\<close>: the address of entry \<open>i\<close> of the table at \<open>pt\<close>.\<close>

definition pte_addr :: "addr \<Rightarrow> u64 \<Rightarrow> addr" where
  "pte_addr pt i = pt + 8 * i"

lemma in_range_pte_addr:
  assumes "in_range (pte_addr pt i) 8 x" and "unat i < 512"
  shows "unat (x - pt) div 8 = unat i" and "in_page pt x"
proof -
  have off: "unat (8 * i) = 8 * unat i"
    using assms(2) by (simp add: unat_word_ariths)
  have split: "x - pt = 8 * i + (x - pte_addr pt i)" by (simp add: pte_addr_def)
  have "unat (8 * i + (x - pte_addr pt i)) = unat (8 * i) + unat (x - pte_addr pt i)"
    using assms off by (intro unat_add_lem [THEN iffD1]) (simp add: in_range_def)
  then have "unat (x - pt) = 8 * unat i + unat (x - pte_addr pt i)"
    by (simp only: split off)
  then show "unat (x - pt) div 8 = unat i" "in_page pt x"
    using assms by (simp_all add: in_range_def in_page_def)
qed

lemma pte_addr_read_other:
  assumes "page_aligned pt" "page_aligned pt'" "unat i < 512" "unat j < 512"
    and "pt \<noteq> pt' \<or> i \<noteq> j"
  shows "read64 (write64 m (pte_addr pt i) v) (pte_addr pt' j) = read64 m (pte_addr pt' j)"
proof (rule read64_frame)
  fix x assume x: "in_range (pte_addr pt' j) 8 x"
  have "\<not> in_range (pte_addr pt i) 8 x"
  proof
    assume x': "in_range (pte_addr pt i) 8 x"
    then have "pt = pt'"
      using x in_range_pte_addr(2) in_page_unique assms by blast
    moreover have "unat i = unat j"
      using in_range_pte_addr(1) [OF x' assms(3)] in_range_pte_addr(1) [OF x assms(4)] calculation
      by simp
    then have "i = j" by (rule unsigned_word_eqI)
    ultimately show False using assms(5) by simp
  qed
  then show "write64 m (pte_addr pt i) v x = m x" by simp
qed

lemma read64_pte_frame:
  assumes "unat i < 512" and "\<And>x. in_page pt x \<Longrightarrow> m' x = m x"
  shows "read64 m' (pte_addr pt i) = read64 m (pte_addr pt i)"
  using assms in_range_pte_addr(2) by (intro read64_frame) blast

lemma write64_pte_out:
  assumes "unat i < 512" and "\<not> in_page pt x"
  shows "write64 m (pte_addr pt i) v x = m x"
  using assms in_range_pte_addr(2) by (intro write64_out) blast

end
