(* ===== verification/KString.thy ===== *)
theory KString
  imports ZPrelude
begin

text \<open>
  \<^verbatim>\<open>kernel/string.c\<close>: the kernel's memory and string routines, on the byte-addressed memory.
  Each loop of the source is a recursive function over the bytes that are left; the lemmas relate
  the loops to bulk reads and writes (\<^const>\<open>read_bytes\<close>, \<^const>\<open>write_bytes\<close>) and to C strings
  (\<open>cstr_at\<close>).  \<^verbatim>\<open>char\<close> is unsigned on RISC-V.  The routines return their destination pointer;
  the model returns the memory they leave.
\<close>

unbundle bit_operations_syntax

section \<open>Definitions\<close>

function memset_loop :: "mem \<Rightarrow> addr \<Rightarrow> byte \<Rightarrow> nat \<Rightarrow> nat \<Rightarrow> mem" where
  "memset_loop m cdst c i n =
     (if i < n then memset_loop (m(cdst + of_nat i := c)) cdst c (Suc i) n else m)"
  by pat_completeness auto
termination
  by (relation "measure (\<lambda>(m, cdst, c, i, n). n - i)") auto

declare memset_loop.simps [simp del]

definition memset :: "mem \<Rightarrow> addr \<Rightarrow> 32 word \<Rightarrow> u32 \<Rightarrow> mem" where
  "memset m dst c n = memset_loop m dst (ucast c) 0 (unat n)"

fun memcmp_loop :: "mem \<Rightarrow> addr \<Rightarrow> addr \<Rightarrow> nat \<Rightarrow> int" where
  "memcmp_loop m s1 s2 0 = 0"
| "memcmp_loop m s1 s2 (Suc n) =
     (if m s1 \<noteq> m s2 then uint (m s1) - uint (m s2) else memcmp_loop m (s1 + 1) (s2 + 1) n)"

definition memcmp :: "mem \<Rightarrow> addr \<Rightarrow> addr \<Rightarrow> u32 \<Rightarrow> int" where
  "memcmp m v1 v2 n = memcmp_loop m v1 v2 (unat n)"

fun copy_up :: "mem \<Rightarrow> addr \<Rightarrow> addr \<Rightarrow> nat \<Rightarrow> mem" where
  "copy_up m d s 0 = m"
| "copy_up m d s (Suc n) = copy_up (m(d := m s)) (d + 1) (s + 1) n"

fun copy_down :: "mem \<Rightarrow> addr \<Rightarrow> addr \<Rightarrow> nat \<Rightarrow> mem" where
  "copy_down m d s 0 = m"
| "copy_down m d s (Suc n) = copy_down (m(d - 1 := m (s - 1))) (d - 1) (s - 1) n"

definition memmove :: "mem \<Rightarrow> addr \<Rightarrow> addr \<Rightarrow> u32 \<Rightarrow> mem" where
  "memmove m dst src n =
     (if n = 0 then m
      else if src < dst \<and> src + ucast n > dst
      then copy_down m (dst + ucast n) (src + ucast n) (unat n)
      else copy_up m dst src (unat n))"

definition memcpy :: "mem \<Rightarrow> addr \<Rightarrow> addr \<Rightarrow> u32 \<Rightarrow> mem" where
  "memcpy m dst src n = memmove m dst src n"

fun strncmp_loop :: "mem \<Rightarrow> addr \<Rightarrow> addr \<Rightarrow> nat \<Rightarrow> int" where
  "strncmp_loop m p q 0 = 0"
| "strncmp_loop m p q (Suc n) =
     (if m p \<noteq> 0 \<and> m p = m q then strncmp_loop m (p + 1) (q + 1) n
      else uint (m p) - uint (m q))"

definition strncmp :: "mem \<Rightarrow> addr \<Rightarrow> addr \<Rightarrow> u32 \<Rightarrow> int" where
  "strncmp m p q n = strncmp_loop m p q (unat n)"

fun zero_fill :: "mem \<Rightarrow> addr \<Rightarrow> nat \<Rightarrow> mem" where
  "zero_fill m s 0 = m"
| "zero_fill m s (Suc n) = zero_fill (m(s := 0)) (s + 1) n"

fun strncpy_loop :: "mem \<Rightarrow> addr \<Rightarrow> addr \<Rightarrow> nat \<Rightarrow> mem" where
  "strncpy_loop m s t 0 = m"
| "strncpy_loop m s t (Suc n) =
     (if m t \<noteq> 0 then strncpy_loop (m(s := m t)) (s + 1) (t + 1) n
      else zero_fill (m(s := m t)) (s + 1) n)"

definition strncpy :: "mem \<Rightarrow> addr \<Rightarrow> addr \<Rightarrow> 32 word \<Rightarrow> mem" where
  "strncpy m s t n = strncpy_loop m s t (nat (sint n))"

text \<open>\<open>safestrcpy_loop\<close> runs with \<open>n \<ge> 1\<close>; the decrement comes before the test.\<close>

fun safestrcpy_loop :: "mem \<Rightarrow> addr \<Rightarrow> addr \<Rightarrow> nat \<Rightarrow> mem" where
  "safestrcpy_loop m s t 0 = m(s := 0)"
| "safestrcpy_loop m s t (Suc n) =
     (if 0 < n then
        if m t \<noteq> 0 then safestrcpy_loop (m(s := m t)) (s + 1) (t + 1) n
        else m(s := m t, s + 1 := 0)
      else m(s := 0))"

definition safestrcpy :: "mem \<Rightarrow> addr \<Rightarrow> addr \<Rightarrow> 32 word \<Rightarrow> mem" where
  "safestrcpy m s t n = (if sint n \<le> 0 then m else safestrcpy_loop m s t (nat (sint n)))"

text \<open>A memory with no zero byte would keep \<^verbatim>\<open>strlen\<close> running, so its result is an option.\<close>

partial_function (option) strlen_loop :: "mem \<Rightarrow> addr \<Rightarrow> nat \<Rightarrow> nat option" where
  "strlen_loop m s n = (if m (s + of_nat n) \<noteq> 0 then strlen_loop m s (Suc n) else Some n)"

definition strlen :: "mem \<Rightarrow> addr \<Rightarrow> nat option" where
  "strlen m s = strlen_loop m s 0"

text \<open>A NUL-terminated string in memory: the bytes \<open>bs\<close>, none of them zero, then a zero.\<close>

definition cstr_at :: "mem \<Rightarrow> addr \<Rightarrow> byte list \<Rightarrow> bool" where
  "cstr_at m a bs \<longleftrightarrow>
     (\<forall>i < length bs. m (a + of_nat i) = bs ! i \<and> bs ! i \<noteq> 0) \<and> m (a + of_nat (length bs)) = 0"

section \<open>Bulk operations\<close>

lemma memset_loop_apply:
  "i \<le> n \<Longrightarrow> n < 2 ^ 64 \<Longrightarrow>
   memset_loop m d c i n x = (if i \<le> unat (x - d) \<and> unat (x - d) < n then c else m x)"
proof (induction m d c i n arbitrary: x rule: memset_loop.induct)
  case (1 m d c i n)
  show ?case
  proof (cases "i < n")
    case True
    have "x = d + of_nat i \<longleftrightarrow> unat (x - d) = i"
      using True "1.prems" by (intro addr_eq_offset) simp
    moreover have "memset_loop m d c i n x = memset_loop (m(d + of_nat i := c)) d c (Suc i) n x"
      using True by (subst memset_loop.simps) simp
    moreover have "memset_loop (m(d + of_nat i := c)) d c (Suc i) n x =
        (if Suc i \<le> unat (x - d) \<and> unat (x - d) < n then c else (m(d + of_nat i := c)) x)"
      using True "1.prems" by (intro "1.IH") auto
    ultimately show ?thesis using True by auto
  next
    case False
    with "1.prems" show ?thesis by (subst memset_loop.simps) auto
  qed
qed

lemma memset_write_bytes: "memset m d c n = write_bytes m d (replicate (unat n) (ucast c))"
  by (rule ext) (simp add: memset_def memset_loop_apply [OF _ unat_u32_lt(2)] write_bytes_def)

lemma copy_up_apply:
  assumes "n \<le> 2 ^ 64" and "\<And>k. 0 < k \<Longrightarrow> k < n \<Longrightarrow> d \<noteq> s + of_nat k"
  shows "copy_up m d s n x = (if unat (x - d) < n then m (s + (x - d)) else m x)"
  using assms
proof (induction n arbitrary: m d s)
  case 0
  then show ?case by simp
next
  case (Suc n)
  have no_clash: "d + 1 \<noteq> s + 1 + of_nat k" if "0 < k" "k < n" for k
    using Suc.prems(2) [of k] that by (simp add: add.commute)
  have IH: "copy_up (m(d := m s)) (d + 1) (s + 1) n x =
      (if unat (x - (d + 1)) < n then (m(d := m s)) (s + 1 + (x - (d + 1))) else (m(d := m s)) x)"
    using Suc.prems(1) no_clash by (intro Suc.IH) auto
  show ?case
  proof (cases "x = d")
    case True
    have "\<not> unat (- 1 :: addr) < n"
      using Suc.prems(1) by (simp add: unsigned_minus_1_eq_mask mask_eq_exp_minus_1)
    then show ?thesis unfolding copy_up.simps IH using True by simp
  next
    case False
    then have pos: "0 < unat (x - d)" by (simp add: unat_gt_0)
    have shift: "unat (x - (d + 1)) = unat (x - d) - 1"
      using False by (simp add: diff_diff_eq [symmetric] unat_minus_one)
    have src: "s + 1 + (x - (d + 1)) = s + (x - d)" by simp
    have "s + (x - d) \<noteq> d" if "unat (x - d) < Suc n"
    proof (cases "unat (x - d) = n \<and> n = 0")
      case True
      with pos show ?thesis by simp
    next
      case False
      show ?thesis using Suc.prems(2) [of "unat (x - d)"] pos that by auto
    qed
    then show ?thesis unfolding copy_up.simps IH shift src using False pos by auto
  qed
qed

lemma copy_down_apply:
  assumes "n \<le> 2 ^ 64" and "\<And>k. 0 < k \<Longrightarrow> k < n \<Longrightarrow> s \<noteq> d + of_nat k"
  shows "copy_down m (d + of_nat n) (s + of_nat n) n x
    = (if unat (x - d) < n then m (s + (x - d)) else m x)"
  using assms
proof (induction n arbitrary: m)
  case 0
  then show ?case by simp
next
  case (Suc n)
  let ?m' = "m(d + of_nat n := m (s + of_nat n))"
  have IH: "copy_down ?m' (d + of_nat n) (s + of_nat n) n x =
      (if unat (x - d) < n then ?m' (s + (x - d)) else ?m' x)"
    using Suc.prems by (intro Suc.IH) auto
  have top: "x = d + of_nat n \<longleftrightarrow> unat (x - d) = n"
    using Suc.prems(1) by (intro addr_eq_offset) simp
  have keep: "s + (x - d) \<noteq> d + of_nat n" if "unat (x - d) < n"
  proof
    assume "s + (x - d) = d + of_nat n"
    then have "s = d + (of_nat n - (x - d))" by (simp add: algebra_simps)
    also have "of_nat n - (x - d) = (of_nat (n - unat (x - d)) :: addr)"
      using that by simp
    finally have "s = d + of_nat (n - unat (x - d))" .
    moreover have "s \<noteq> d + of_nat (n - unat (x - d))"
      using that by (intro Suc.prems(2)) auto
    ultimately show False by contradiction
  qed
  have "copy_down m (d + of_nat (Suc n)) (s + of_nat (Suc n)) (Suc n) x
      = copy_down ?m' (d + of_nat n) (s + of_nat n) n x"
    by (simp add: algebra_simps)
  then show ?case unfolding IH using top keep by auto
qed

theorem memmove_write_bytes:
  assumes "unat src + unat n < 2 ^ 64"
  shows "memmove m dst src n = write_bytes m dst (read_bytes m src (unat n))"
proof -
  have copy: "(if unat (x - dst) < unat n then m (src + (x - dst)) else m x)
      = write_bytes m dst (read_bytes m src (unat n)) x" for x
    by (auto simp: write_bytes_def)
  show ?thesis
  proof (cases "n \<noteq> 0 \<and> src < dst \<and> src + ucast n > dst")
    case True
    have gap: "src \<noteq> dst + of_nat k" if "0 < k" "k < unat n" for k
    proof
      assume eq: "src = dst + of_nat k"
      have k: "k < 2 ^ 32" using that unat_u32_lt(1) [of n] by linarith
      from True have "unat src < unat dst" "unat dst < unat (src + ucast n)"
        by (simp_all add: word_less_nat_alt)
      moreover have "unat (src + ucast n) = unat src + unat n"
        using assms by (simp add: unat_add_lem [THEN iffD1])
      moreover from eq k have "unat (src - dst) = k" by (simp add: unat_of_nat)
      ultimately show False
        using k unat_u32_lt(1) [of n] by (auto simp: unat_sub_if_size word_size)
    qed
    have "copy_down m (dst + of_nat (unat n)) (src + of_nat (unat n)) (unat n) x
        = (if unat (x - dst) < unat n then m (src + (x - dst)) else m x)" for x
      using gap by (intro copy_down_apply) (simp_all add: less_imp_le unat_u32_lt_numeral)
    with True copy show ?thesis
      by (intro ext) (simp add: memmove_def)
  next
    case False
    have gap: "dst \<noteq> src + of_nat k" if "0 < k" "k < unat n" for k
    proof
      assume "dst = src + of_nat k"
      then have "unat dst = unat src + k"
        using that assms by (simp add: unat_word_ariths unat_of_nat)
      moreover have "unat (src + ucast n) = unat src + unat n"
        using assms by (simp add: unat_add_lem [THEN iffD1])
      ultimately have "src < dst \<and> src + ucast n > dst" "n \<noteq> 0"
        using that by (auto simp: word_less_nat_alt)
      with False show False by simp
    qed
    have "copy_up m dst src (unat n) x
        = (if unat (x - dst) < unat n then m (src + (x - dst)) else m x)" for x
      using gap by (intro copy_up_apply) (simp_all add: less_imp_le unat_u32_lt_numeral)
    with False copy show ?thesis
      by (intro ext) (auto simp: memmove_def)
  qed
qed

section \<open>Comparison\<close>

lemma memcmp_loop_zero_iff:
  "memcmp_loop m a b n = 0 \<longleftrightarrow> read_bytes m a n = read_bytes m b n"
  by (induction m a b n rule: memcmp_loop.induct) (auto simp: read_bytes_Suc word_uint_eq_iff)

theorem memcmp_zero_iff:
  "memcmp m a b n = 0 \<longleftrightarrow> read_bytes m a (unat n) = read_bytes m b (unat n)"
  by (simp add: memcmp_def memcmp_loop_zero_iff)

lemma cstr_at_Nil [simp]: "cstr_at m a [] \<longleftrightarrow> m a = 0"
  by (simp add: cstr_at_def)

lemma cstr_at_Cons [simp]:
  "cstr_at m a (b # bs) \<longleftrightarrow> m a = b \<and> b \<noteq> 0 \<and> cstr_at m (a + 1) bs"
  by (auto simp: cstr_at_def All_less_Suc2 add.assoc)

lemma cstr_at_unique: "cstr_at m a bs \<Longrightarrow> cstr_at m a cs \<Longrightarrow> bs = cs"
proof (induction bs arbitrary: a cs)
  case Nil
  then show ?case by (cases cs) auto
next
  case (Cons b bs)
  then show ?case by (cases cs) auto
qed

lemma strncmp_loop_zero_iff:
  "cstr_at m p bs \<Longrightarrow> cstr_at m q cs \<Longrightarrow>
   strncmp_loop m p q n = 0 \<longleftrightarrow> take n bs = take n cs"
proof (induction n arbitrary: p q bs cs)
  case 0
  then show ?case by simp
next
  case (Suc n)
  show ?case
  proof (cases bs)
    case Nil
    with Suc.prems show ?thesis by (cases cs) (auto simp: uint_0_iff)
  next
    case (Cons b bs')
    with Suc show ?thesis by (cases cs) (auto simp: word_uint_eq_iff)
  qed
qed

theorem strncmp_zero_iff:
  "cstr_at m p bs \<Longrightarrow> cstr_at m q cs \<Longrightarrow>
   strncmp m p q n = 0 \<longleftrightarrow> take (unat n) bs = take (unat n) cs"
  by (simp add: strncmp_def strncmp_loop_zero_iff)

section \<open>String length and copying\<close>

lemma strlen_loop_cstr:
  assumes "cstr_at m s bs" and "n \<le> length bs"
  shows "strlen_loop m s n = Some (length bs)"
  using assms(2)
proof (induction "length bs - n" arbitrary: n)
  case 0
  then have "n = length bs" by simp
  with assms(1) show ?case by (subst strlen_loop.simps) (simp add: cstr_at_def)
next
  case (Suc k)
  then have "n < length bs" and IH: "strlen_loop m s (Suc n) = Some (length bs)" by auto
  with assms(1) show ?case by (subst strlen_loop.simps) (simp add: cstr_at_def)
qed

theorem strlen_cstr: "cstr_at m s bs \<Longrightarrow> strlen m s = Some (length bs)"
  by (simp add: strlen_def strlen_loop_cstr)

lemma safestrcpy_loop_out:
  "0 < n \<Longrightarrow> \<not> in_range s n x \<Longrightarrow> safestrcpy_loop m s t n x = m x"
proof (induction n arbitrary: m s t)
  case 0
  then show ?case by simp
next
  case (Suc n)
  have "x \<noteq> s" and rest: "\<not> in_range (s + 1) n x"
    using Suc.prems by (auto simp: in_range_Suc)
  moreover have "x \<noteq> s + 1" if "0 < n" using rest that by (auto simp: in_range_def)
  moreover have "safestrcpy_loop (m(s := m t)) (s + 1) (t + 1) n x = (m(s := m t)) x" if "0 < n"
    using that rest by (rule Suc.IH)
  ultimately show ?case by auto
qed

lemma cstr_at_frame:
  assumes "\<And>x. in_range a (Suc (length bs)) x \<Longrightarrow> m' x = m x" and "length bs < 2 ^ 64"
  shows "cstr_at m' a bs \<longleftrightarrow> cstr_at m a bs"
proof -
  have "m' (a + of_nat i) = m (a + of_nat i)" if "i \<le> length bs" for i
    using that assms by (intro assms(1) in_range_of_nat) auto
  then show ?thesis by (auto simp: cstr_at_def)
qed

lemma safestrcpy_loop_cstr:
  assumes "0 < n" and "n < 2 ^ 32" and "cstr_at m t bs" and "length bs < 2 ^ 64"
    and "disjoint_ranges s n t (Suc (length bs))"
  shows "cstr_at (safestrcpy_loop m s t n) s (take (n - 1) bs)"
  using assms
proof (induction n arbitrary: m s t bs)
  case 0
  then show ?case by simp
next
  case (Suc n)
  show ?case
  proof (cases "0 < n \<and> bs \<noteq> []")
    case False
    then show ?thesis
    proof (cases "0 < n")
      case True
      with False Suc.prems(3) have "m t = 0" by simp
      with True False show ?thesis by simp
    qed simp
  next
    case True
    then obtain b bs' where bs: "bs = b # bs'" by (cases bs) auto
    let ?m = "m(s := m t)"
    have frame: "?m x = m x" if "in_range t (Suc (length bs)) x" for x
      using that Suc.prems(5) by (auto simp: disjoint_ranges_def in_range_Suc [of s])
    have src: "m t = b" "b \<noteq> 0" "cstr_at m (t + 1) bs'"
      using Suc.prems(3) bs by auto
    have src': "cstr_at ?m (t + 1) bs'"
      using src(3) Suc.prems(4) frame bs
      by (subst cstr_at_frame [of _ _ _ m]) (auto simp: in_range_Suc [of t])
    have apart: "disjoint_ranges (s + 1) n (t + 1) (Suc (length bs'))"
      using Suc.prems(5) bs by (auto simp: disjoint_ranges_def in_range_Suc [of s] in_range_Suc [of t])
    have rest: "cstr_at (safestrcpy_loop ?m (s + 1) (t + 1) n) (s + 1) (take (n - 1) bs')"
      by (rule Suc.IH [OF _ _ src' _ apart]) (use True Suc.prems bs in simp_all)
    have "\<not> in_range (s + 1) n s"
      using Suc.prems(2) by (simp add: in_range_def unsigned_minus_1_eq_mask mask_eq_exp_minus_1)
    then have "safestrcpy_loop ?m (s + 1) (t + 1) n s = b"
      using True src(1) by (simp add: safestrcpy_loop_out)
    with rest True src(1,2) bs show ?thesis
      by (cases n) simp_all
  qed
qed

theorem safestrcpy_cstr:
  assumes "0 < sint n" and "cstr_at m t bs" and "length bs < 2 ^ 64"
    and "disjoint_ranges s (nat (sint n)) t (Suc (length bs))"
  shows "cstr_at (safestrcpy m s t n) s (take (nat (sint n) - 1) bs)"
    and "\<not> in_range s (nat (sint n)) x \<Longrightarrow> safestrcpy m s t n x = m x"
proof -
  have "nat (sint n) < 2 ^ 32"
    using sint_lt [of n] assms(1) by (simp add: nat_less_iff)
  then show "cstr_at (safestrcpy m s t n) s (take (nat (sint n) - 1) bs)"
    using assms safestrcpy_loop_cstr [of "nat (sint n)" m t bs s] by (simp add: safestrcpy_def)
  show "\<not> in_range s (nat (sint n)) x \<Longrightarrow> safestrcpy m s t n x = m x"
    using assms(1) by (simp add: safestrcpy_def safestrcpy_loop_out)
qed

lemma zero_fill_write_bytes:
  "n < 2 ^ 64 \<Longrightarrow> zero_fill m s n = write_bytes m s (replicate n 0)"
  by (induction m s n rule: zero_fill.induct) (simp_all add: write_bytes_Cons)

lemma strncpy_loop_write_bytes:
  assumes "n < 2 ^ 64" and "cstr_at m t bs" and "length bs < 2 ^ 64"
    and "disjoint_ranges s n t (Suc (length bs))"
  shows "strncpy_loop m s t n = write_bytes m s (take n (bs @ replicate n 0))"
  using assms
proof (induction n arbitrary: m s t bs)
  case 0
  then show ?case by simp
next
  case (Suc n)
  let ?m = "m(s := m t)"
  show ?case
  proof (cases bs)
    case Nil
    with Suc.prems show ?thesis
      by (simp add: zero_fill_write_bytes write_bytes_Cons)
  next
    case (Cons b bs')
    have frame: "?m x = m x" if "in_range t (Suc (length bs)) x" for x
      using that Suc.prems(4) by (auto simp: disjoint_ranges_def in_range_Suc [of s])
    have src: "m t = b" "b \<noteq> 0" "cstr_at m (t + 1) bs'"
      using Suc.prems(2) Cons by auto
    have src': "cstr_at ?m (t + 1) bs'"
      using src(3) Suc.prems(3) frame Cons
      by (subst cstr_at_frame [of _ _ _ m]) (auto simp: in_range_Suc [of t])
    have apart: "disjoint_ranges (s + 1) n (t + 1) (Suc (length bs'))"
      using Suc.prems(4) Cons by (auto simp: disjoint_ranges_def in_range_Suc [of s] in_range_Suc [of t])
    have "strncpy_loop ?m (s + 1) (t + 1) n = write_bytes ?m (s + 1) (take n (bs' @ replicate n 0))"
      by (rule Suc.IH [OF _ src' _ apart]) (use Suc.prems Cons in simp_all)
    moreover have "take n (bs' @ replicate n 0) = take n (bs' @ replicate (Suc n) (0 :: byte))"
      by (simp add: take_replicate min_def del: replicate.simps)
    ultimately show ?thesis
      using src(1,2) Cons Suc.prems(1) by (simp add: write_bytes_Cons)
  qed
qed

theorem strncpy_write_bytes:
  assumes "cstr_at m t bs" and "length bs < 2 ^ 64"
    and "disjoint_ranges s (nat (sint n)) t (Suc (length bs))"
  shows "strncpy m s t n
    = write_bytes m s (take (nat (sint n)) (bs @ replicate (nat (sint n)) 0))"
proof -
  have "nat (sint n) < 2 ^ 64"
    using sint_lt [of n] by (simp add: nat_less_iff)
  with assms strncpy_loop_write_bytes show ?thesis by (simp add: strncpy_def)
qed

text \<open>C27: \<open>memmove\<close> leaves at \<open>dst\<close> exactly the bytes that \<open>src\<close> held before the call, whether or
  not the two ranges overlap, and changes no byte outside the destination, as long as the source
  range does not wrap around the address space.\<close>

theorem memmove_correct:
  assumes "unat src + unat n < 2 ^ 64"
  shows "read_bytes (memmove m dst src n) dst (unat n) = read_bytes m src (unat n)
    \<and> (\<forall>x. \<not> in_range dst (unat n) x \<longrightarrow> memmove m dst src n x = m x)"
proof -
  have "length (read_bytes m src (unat n)) \<le> 2 ^ 64" using assms by simp
  from read_write_bytes [OF this, of m dst] show ?thesis
    by (simp add: memmove_write_bytes [OF assms])
qed

theorem memmove_correct_witness:
  "read_bytes (memmove (\<lambda>a. ucast a) 1 0 2) 1 2 = [0, 1]
    \<and> memmove (\<lambda>a. ucast a) 1 0 2 3 = 3"
  using memmove_correct [of 0 2 "\<lambda>a. ucast a" 1]
  by (auto simp: in_range_def read_bytes_def upt_rec)

end
