(* ===== verification/Kalloc.thy ===== *)
theory Kalloc
  imports Riscv KString
begin

text \<open>
  \<^verbatim>\<open>kernel/kalloc.c\<close>: the physical page allocator.  The free list is threaded through the free
  pages themselves: the first eight bytes of a free page hold the address of the next one.  The
  spin lock \<^verbatim>\<open>kmem.lock\<close> makes each of \<open>kalloc\<close> and \<open>kfree\<close> one atomic step.  The locale
  \<open>page_allocator\<close> is what the virtual-memory code relies on.
\<close>

unbundle bit_operations_syntax

section \<open>State and operations\<close>

text \<open>
  \<open>kend\<close> is the linker symbol \<^verbatim>\<open>end\<close>, the first address after the kernel; \<open>pmem\<close> is the
  physical memory, which the kernel maps at its own addresses.
\<close>

record kmem_state =
  pmem :: mem
  freelist :: addr
  ram_end :: addr
  kend :: addr

definition kfree :: "addr \<Rightarrow> 'a kmem_state_scheme \<Rightarrow> 'a kmem_state_scheme res" where
  "kfree pa s =
     (if pa mod PGSIZE \<noteq> 0 \<or> pa < kend s \<or> pa \<ge> ram_end s then panic ''kfree''
      else let m = memset (pmem s) pa 1 4096;
               m = write64 m pa (freelist s)
           in Inr (s\<lparr>pmem := m, freelist := pa\<rparr>))"

definition kalloc :: "'a kmem_state_scheme \<Rightarrow> addr \<times> 'a kmem_state_scheme" where
  "kalloc s =
     (let r = freelist s;
          s = (if r \<noteq> 0 then s\<lparr>freelist := read64 (pmem s) r\<rparr> else s);
          s = (if r \<noteq> 0 then s\<lparr>pmem := memset (pmem s) r 5 4096\<rparr> else s)
      in (r, s))"

partial_function (option) freerange_loop ::
    "addr \<Rightarrow> addr \<Rightarrow> 'a kmem_state_scheme \<Rightarrow> 'a kmem_state_scheme res option" where
  "freerange_loop p pa_end s =
     (if p + PGSIZE \<le> pa_end
      then (case kfree p s of Inl e \<Rightarrow> Some (Inl e) | Inr s' \<Rightarrow> freerange_loop (p + PGSIZE) pa_end s')
      else Some (Inr s))"

definition freerange ::
    "addr \<Rightarrow> addr \<Rightarrow> 'a kmem_state_scheme \<Rightarrow> 'a kmem_state_scheme res option" where
  "freerange pa_start pa_end s = freerange_loop (PGROUNDUP pa_start) pa_end s"

definition kinit ::
    "u64 \<Rightarrow> u64 \<Rightarrow> 'a kmem_state_scheme \<Rightarrow> 'a kmem_state_scheme res option" where
  "kinit ram_start ram_size s =
     (let s = s\<lparr>ram_end := ram_start + ram_size\<rparr>
      in freerange (kend s) (ram_end s) s)"

section \<open>The free list as a list of pages\<close>

primrec fl_list :: "mem \<Rightarrow> addr \<Rightarrow> addr list \<Rightarrow> bool" where
  "fl_list m p [] \<longleftrightarrow> p = 0"
| "fl_list m p (x # xs) \<longleftrightarrow> p = x \<and> x \<noteq> 0 \<and> fl_list m (read64 m x) xs"

definition page_ok :: "'a kmem_state_scheme \<Rightarrow> addr \<Rightarrow> bool" where
  "page_ok s p \<longleftrightarrow> page_aligned p \<and> kend s \<le> p \<and> p < ram_end s"

definition kmem_inv :: "'a kmem_state_scheme \<Rightarrow> addr list \<Rightarrow> bool" where
  "kmem_inv s xs \<longleftrightarrow>
     fl_list (pmem s) (freelist s) xs \<and> distinct xs \<and> (\<forall>p \<in> set xs. page_ok s p) \<and> 0 < kend s"

text \<open>
  Two states agree on everything but memory and the free list; and the case where moreover only
  the bytes of page \<open>p\<close> changed.
\<close>

definition kmem_only :: "'a kmem_state_scheme \<Rightarrow> 'a kmem_state_scheme \<Rightarrow> bool" where
  "kmem_only s s' \<longleftrightarrow> (\<exists>m f. s' = s\<lparr>pmem := m, freelist := f\<rparr>)"

definition only_page :: "addr \<Rightarrow> 'a kmem_state_scheme \<Rightarrow> 'a kmem_state_scheme \<Rightarrow> bool" where
  "only_page p s s' \<longleftrightarrow> (\<forall>x. \<not> in_page p x \<longrightarrow> pmem s' x = pmem s x) \<and> kmem_only s s'"

lemma kmem_onlyI [intro]: "kmem_only s (s\<lparr>pmem := m, freelist := f\<rparr>)"
  by (auto simp: kmem_only_def)

lemma kmem_only_pmem [intro]: "kmem_only s (s\<lparr>pmem := m\<rparr>)"
  using kmem_onlyI [where s = s and f = "freelist s" and m = m] by simp

lemma kmem_only_refl [simp]: "kmem_only s s"
  using kmem_onlyI [where s = s and f = "freelist s" and m = "pmem s"] by simp

lemma kmem_only_trans: "kmem_only s t \<Longrightarrow> kmem_only t u \<Longrightarrow> kmem_only s u"
  unfolding kmem_only_def by (elim exE) (simp, blast)

lemma kmem_only_fields:
  assumes "kmem_only s s'"
  shows "kend s' = kend s" "ram_end s' = ram_end s" "page_ok s' = page_ok s"
  using assms by (auto simp: kmem_only_def page_ok_def fun_eq_iff)

lemma only_page_fields:
  assumes "only_page p s s'"
  shows "kend s' = kend s" "ram_end s' = ram_end s" "page_ok s' = page_ok s"
  using assms kmem_only_fields by (auto simp: only_page_def)

lemma fl_list_unique: "fl_list m p xs \<Longrightarrow> fl_list m p ys \<Longrightarrow> xs = ys"
proof (induction xs arbitrary: p ys)
  case Nil
  then show ?case by (cases ys) auto
next
  case (Cons x xs)
  then show ?case by (cases ys) auto
qed

lemma read64_page_frame:
  assumes "\<And>x. in_page p x \<Longrightarrow> m' x = m x"
  shows "read64 m' p = read64 m p"
  using read64_pte_frame [of 0 p m' m] assms by (simp add: pte_addr_def)

lemma fl_list_frame:
  assumes "fl_list m p xs" and "\<And>q x. q \<in> set xs \<Longrightarrow> in_page q x \<Longrightarrow> m' x = m x"
  shows "fl_list m' p xs"
  using assms
proof (induction xs arbitrary: p)
  case Nil
  then show ?case by simp
next
  case (Cons y ys)
  have "read64 m' y = read64 m y"
    using Cons.prems(2) by (intro read64_page_frame) auto
  with Cons show ?case by auto
qed

lemma page_ok_nonzero: "page_ok s p \<Longrightarrow> 0 < kend s \<Longrightarrow> p \<noteq> 0"
  by (auto simp: page_ok_def)

lemma kfree_panics_iff: "kfree pa s = panic ''kfree'' \<longleftrightarrow> \<not> page_ok s pa"
  by (auto simp: kfree_def page_ok_def page_aligned_def Let_def panic_def)

lemma memset_page_out: "\<not> in_page p x \<Longrightarrow> memset m p c 4096 x = m x"
  by (simp add: memset_write_bytes in_page_def)

lemma write64_page_out: "\<not> in_page p x \<Longrightarrow> write64 m p v x = m x"
  using write64_pte_out [of 0 p x m v] by (simp add: pte_addr_def)

lemma in_page_other:
  "page_ok s p \<Longrightarrow> page_ok s q \<Longrightarrow> p \<noteq> q \<Longrightarrow> in_page q x \<Longrightarrow> \<not> in_page p x"
  using in_page_unique by (auto simp: page_ok_def)

lemma kfree_spec:
  assumes inv: "kmem_inv s xs" and ok: "page_ok s pa" and new: "pa \<notin> set xs"
  shows "\<exists>s'. kfree pa s = Inr s' \<and> kmem_inv s' (pa # xs) \<and> only_page pa s s'"
proof -
  let ?m = "write64 (memset (pmem s) pa 1 4096) pa (freelist s)"
  let ?s = "s\<lparr>pmem := ?m, freelist := pa\<rparr>"
  have "kfree pa s = Inr ?s"
    using ok by (auto simp: kfree_def page_ok_def page_aligned_def Let_def)
  moreover have same: "?m x = pmem s x" if "\<not> in_page pa x" for x
    using that by (simp add: write64_page_out memset_page_out)
  moreover have "fl_list ?m (freelist s) xs"
  proof (rule fl_list_frame)
    show "fl_list (pmem s) (freelist s) xs" using inv by (simp add: kmem_inv_def)
    fix q x assume "q \<in> set xs" "in_page q x"
    then show "?m x = pmem s x"
      using inv ok new by (intro same in_page_other) (auto simp: kmem_inv_def)
  qed
  then have "kmem_inv ?s (pa # xs)"
    using inv ok new page_ok_nonzero [OF ok] by (auto simp: kmem_inv_def page_ok_def)
  ultimately show ?thesis by (auto simp: only_page_def)
qed

lemma kalloc_spec:
  assumes inv: "kmem_inv s (p # xs)"
  shows "\<exists>s'. kalloc s = (p, s') \<and> kmem_inv s' xs \<and> only_page p s s'"
proof -
  let ?m = "memset (pmem s) p 5 4096"
  let ?s = "s\<lparr>pmem := ?m, freelist := read64 (pmem s) p\<rparr>"
  have fl: "freelist s = p" "p \<noteq> 0" "fl_list (pmem s) (read64 (pmem s) p) xs"
    using inv by (auto simp: kmem_inv_def)
  then have "kalloc s = (p, ?s)" by (simp add: kalloc_def Let_def)
  moreover have "fl_list ?m (read64 (pmem s) p) xs"
  proof (rule fl_list_frame [OF fl(3)])
    fix q x assume "q \<in> set xs" "in_page q x"
    then show "?m x = pmem s x"
      using inv by (intro memset_page_out in_page_other [of s _ q]) (auto simp: kmem_inv_def)
  qed
  then have "kmem_inv ?s xs"
    using inv by (auto simp: kmem_inv_def page_ok_def)
  ultimately show ?thesis by (auto simp: only_page_def memset_page_out)
qed

lemma kalloc_empty: "kmem_inv s [] \<Longrightarrow> kalloc s = (0, s)"
  by (simp add: kmem_inv_def kalloc_def)

section \<open>Initialisation\<close>

text \<open>The \<open>n\<close> consecutive pages from \<open>p\<close>.\<close>

fun pages_from :: "addr \<Rightarrow> nat \<Rightarrow> addr list" where
  "pages_from p 0 = []"
| "pages_from p (Suc n) = p # pages_from (p + PGSIZE) n"

lemma page_aligned_next:
  assumes "page_aligned p" and "unat p + 4096 < 2 ^ 64"
  shows "page_aligned (p + PGSIZE)" and "unat (p + PGSIZE) = unat p + 4096"
proof -
  show up: "unat (p + PGSIZE) = unat p + 4096"
    using assms(2) by (simp add: unat_word_ariths)
  then show "page_aligned (p + PGSIZE)"
    using assms(1) by (simp add: page_aligned_unat)
qed

lemma pages_from_ge:
  "page_aligned p \<Longrightarrow> unat p + 4096 * n < 2 ^ 64 \<Longrightarrow> q \<in> set (pages_from p n) \<Longrightarrow> p \<le> q"
proof (induction n arbitrary: p)
  case 0
  then show ?case by simp
next
  case (Suc n)
  have up: "page_aligned (p + PGSIZE)" "unat (p + PGSIZE) = unat p + 4096"
    using Suc.prems page_aligned_next [of p] by auto
  show ?case
  proof (cases "q = p")
    case False
    then have "p + PGSIZE \<le> q" using Suc up by auto
    moreover have "p \<le> p + PGSIZE" using up by (simp add: word_le_nat_alt)
    ultimately show ?thesis by (rule order_trans [rotated])
  qed simp
qed

lemma freerange_loop_spec:
  assumes "kmem_inv s xs" and "page_aligned p" and "kend s \<le> p" and "unat p + 4096 < 2 ^ 64"
    and "unat pa_end + 4096 < 2 ^ 64" and "pa_end \<le> ram_end s"
    and "\<And>q. q \<in> set xs \<Longrightarrow> q < p" and "n = (unat pa_end - unat p) div 4096"
  shows "\<exists>s'. freerange_loop p pa_end s = Some (Inr s') \<and> kmem_inv s' (rev (pages_from p n) @ xs)
    \<and> kmem_only s s'"
  using assms
proof (induction n arbitrary: p s xs)
  case 0
  have "unat (p + PGSIZE) = unat p + 4096"
    using "0.prems" page_aligned_next(2) by blast
  then have "\<not> p + PGSIZE \<le> pa_end"
    using "0.prems"(8) by (auto simp: word_le_nat_alt div_eq_0_iff)
  then have "freerange_loop p pa_end s = Some (Inr s)" by (subst freerange_loop.simps) simp
  with "0.prems" show ?case by auto
next
  case (Suc n)
  let ?q = "p + PGSIZE"
  have up: "page_aligned ?q" "unat ?q = unat p + 4096"
    using Suc.prems(2,4) page_aligned_next by blast+
  have "0 < (unat pa_end - unat p) div 4096" using Suc.prems(8) by simp
  then have room: "unat p + 4096 \<le> unat pa_end" by (simp add: div_greater_zero_iff)
  then have go: "?q \<le> pa_end" and below: "p < pa_end"
    using up by (auto simp: word_le_nat_alt word_less_nat_alt)
  have "page_ok s p"
    using Suc.prems(2,3,6) below by (simp add: page_ok_def)
  moreover have "p \<notin> set xs" using Suc.prems(7) by auto
  ultimately obtain s1 where s1: "kfree p s = Inr s1" "kmem_inv s1 (p # xs)" "only_page p s s1"
    using Suc.prems(1) kfree_spec by blast
  note same = only_page_fields [OF s1(3)]
  have lt: "p < ?q" using up by (simp add: word_less_nat_alt)
  have "\<exists>s'. freerange_loop ?q pa_end s1 = Some (Inr s')
      \<and> kmem_inv s' (rev (pages_from ?q n) @ (p # xs))
      \<and> kmem_only s1 s'"
  proof (rule Suc.IH [OF s1(2) up(1)])
    show "kend s1 \<le> ?q" "pa_end \<le> ram_end s1"
      using Suc.prems(3,6) lt same by auto
    show "unat ?q + 4096 < 2 ^ 64" using Suc.prems(5) up(2) room by simp
    have "unat pa_end - unat p = unat pa_end - unat ?q + 4096" using up(2) room by simp
    then show "n = (unat pa_end - unat ?q) div 4096" using Suc.prems(8) by simp
    show "q < ?q" if "q \<in> set (p # xs)" for q
      using that lt Suc.prems(7) less_trans [of q p ?q] by auto
  qed (rule Suc.prems(5))
  then obtain s2 where s2: "freerange_loop ?q pa_end s1 = Some (Inr s2)"
      "kmem_inv s2 (rev (pages_from ?q n) @ (p # xs))"
      "kmem_only s1 s2" by blast
  have "freerange_loop p pa_end s = Some (Inr s2)"
    using go s1(1) s2(1) by (subst freerange_loop.simps) simp
  moreover have "kmem_only s s2"
    using s1(3) s2(3) kmem_only_trans by (auto simp: only_page_def)
  ultimately show ?case using s2(2) by auto
qed

lemma kinit_spec:
  assumes "freelist s = 0" and "0 < kend s" and "unat (kend s) + 8192 < 2 ^ 64"
    and "unat (ram_start + ram_size) + 4096 < 2 ^ 64"
  shows "\<exists>s'. kinit ram_start ram_size s = Some (Inr s') \<and>
    kmem_inv s' (rev (pages_from (PGROUNDUP (kend s))
      ((unat (ram_start + ram_size) - unat (PGROUNDUP (kend s))) div 4096)))"
proof -
  let ?s = "s\<lparr>ram_end := ram_start + ram_size\<rparr>"
  let ?p = "PGROUNDUP (kend s)"
  have p: "unat ?p = (unat (kend s) + 4095) div 4096 * 4096"
    using assms(3) by (intro unat_PGROUNDUP) simp
  have "unat ?p \<le> unat (kend s) + 4095"
    unfolding p by (rule div_times_less_eq_dividend)
  moreover have "unat (kend s) + 4095 < unat ?p + 4096"
    unfolding p using dividend_less_div_times [of 4096 "unat (kend s) + 4095"] by simp
  ultimately have "kend s \<le> ?p" and "unat ?p + 4096 < 2 ^ 64"
    using assms(3) by (auto simp: word_le_nat_alt)
  moreover have "kmem_inv ?s []" using assms(1,2) by (simp add: kmem_inv_def)
  ultimately have "\<exists>s'. freerange_loop ?p (ram_start + ram_size) ?s = Some (Inr s') \<and>
      kmem_inv s' (rev (pages_from ?p ((unat (ram_start + ram_size) - unat ?p) div 4096)) @ []) \<and> kmem_only ?s s'"
    using assms(4) by (intro freerange_loop_spec) auto
  then show ?thesis by (auto simp: kinit_def freerange_def Let_def)
qed

section \<open>The allocator's contract\<close>

text \<open>
  What a client of the page allocator may rely on: \<open>avail\<close> lists the free pages of a state,
  \<open>usable\<close> are the pages the allocator manages.
\<close>

locale page_allocator =
  fixes alloc :: "'s \<Rightarrow> addr \<times> 's"
    and free :: "addr \<Rightarrow> 's \<Rightarrow> 's res"
    and memory :: "'s \<Rightarrow> mem"
    and avail :: "'s \<Rightarrow> addr list \<Rightarrow> bool"
    and usable :: "'s \<Rightarrow> addr \<Rightarrow> bool"
  assumes avail_distinct: "avail s xs \<Longrightarrow> distinct xs"
    and avail_usable: "avail s xs \<Longrightarrow> p \<in> set xs \<Longrightarrow> usable s p \<and> page_aligned p \<and> p \<noteq> 0"
    and alloc_page: "avail s (p # xs) \<Longrightarrow>
      \<exists>s'. alloc s = (p, s') \<and> avail s' xs \<and> usable s' = usable s \<and>
        (\<forall>x. \<not> in_page p x \<longrightarrow> memory s' x = memory s x)"
    and alloc_out: "avail s [] \<Longrightarrow> alloc s = (0, s)"
    and free_page: "avail s xs \<Longrightarrow> usable s p \<Longrightarrow> p \<notin> set xs \<Longrightarrow>
      \<exists>s'. free p s = Inr s' \<and> avail s' (p # xs) \<and> usable s' = usable s \<and>
        (\<forall>x. \<not> in_page p x \<longrightarrow> memory s' x = memory s x)"
begin

lemma alloc_zero_iff:
  assumes "avail s xs"
  shows "fst (alloc s) = 0 \<longleftrightarrow> xs = []"
proof (cases xs)
  case Nil
  with assms alloc_out show ?thesis by simp
next
  case (Cons p ys)
  with assms alloc_page avail_usable show ?thesis by fastforce
qed

lemma alloc_fresh:
  assumes "avail s xs" and "alloc s = (p, s')" and "p \<noteq> 0"
  shows "\<exists>ys. xs = p # ys \<and> avail s' ys \<and> p \<notin> set ys \<and> usable s' = usable s \<and> usable s p \<and> page_aligned p"
proof (cases xs)
  case Nil
  with assms alloc_out show ?thesis by simp
next
  case (Cons q ys)
  with assms alloc_page [of s q ys] avail_distinct [of s xs] avail_usable [of s xs q]
  show ?thesis by auto
qed

lemma alloc_preserves_used:
  assumes "avail s xs" and "alloc s = (p, s')" and "p \<noteq> 0"
    and "page_aligned q" and "q \<notin> set xs" and "in_page q x"
  shows "memory s' x = memory s x"
proof -
  obtain ys where ys: "xs = p # ys" and al: "page_aligned p"
    using alloc_fresh [OF assms(1-3)] by blast
  have "\<not> in_page p x"
    using ys al assms(4-6) in_page_unique by auto
  with assms(1,2) ys alloc_page [of s p ys] show ?thesis by auto
qed

lemma free_then_alloc:
  assumes "avail s xs" and "usable s p" and "p \<notin> set xs" and "free p s = Inr s'"
  shows "fst (alloc s') = p"
  using assms free_page [of s xs p] alloc_page [of s' p xs] by auto

lemma alloc_then_free:
  assumes "avail s xs" and "alloc s = (p, s1)" and "p \<noteq> 0"
  shows "\<exists>s2. free p s1 = Inr s2 \<and> avail s2 xs"
proof -
  from alloc_fresh [OF assms] obtain ys where
    "xs = p # ys" "avail s1 ys" "p \<notin> set ys" "usable s1 p" by auto
  with free_page [of s1 ys p] show ?thesis by auto
qed

end

interpretation kmem: page_allocator kalloc kfree pmem kmem_inv page_ok
proof
  show "distinct xs" if "kmem_inv s xs" for s :: "'a kmem_state_scheme" and xs
    using that by (simp add: kmem_inv_def)
  show "page_ok s p \<and> page_aligned p \<and> p \<noteq> 0" if "kmem_inv s xs" "p \<in> set xs"
    for s :: "'a kmem_state_scheme" and xs p
    using that by (auto simp: kmem_inv_def page_ok_def)
  show "\<exists>s'. kalloc s = (p, s') \<and> kmem_inv s' xs \<and> page_ok s' = page_ok s \<and>
      (\<forall>x. \<not> in_page p x \<longrightarrow> pmem s' x = pmem s x)" if "kmem_inv s (p # xs)"
    for s :: "'a kmem_state_scheme" and xs p
    using kalloc_spec [OF that] only_page_fields(3) by (fastforce simp: only_page_def)
  show "kalloc s = (0, s)" if "kmem_inv s []" for s :: "'a kmem_state_scheme"
    using that by (rule kalloc_empty)
  show "\<exists>s'. kfree p s = Inr s' \<and> kmem_inv s' (p # xs) \<and> page_ok s' = page_ok s \<and>
      (\<forall>x. \<not> in_page p x \<longrightarrow> pmem s' x = pmem s x)" if "kmem_inv s xs" "page_ok s p" "p \<notin> set xs"
    for s :: "'a kmem_state_scheme" and xs p
    using kfree_spec [OF that] only_page_fields(3) by (fastforce simp: only_page_def)
qed

end
