(* ===== verification/Vm.thy ===== *)
theory Vm
  imports Kalloc
begin

text \<open>
  \<^verbatim>\<open>kernel/vm.c\<close>: Sv39 page tables in physical memory.  The operations walk, extend and take down
  the three-level tree exactly as the source does, on the memory of the page allocator.  A ghost
  function from index paths to table pages describes a well-formed tree; the lemmas show what each
  operation does to the entry of every virtual address, and that it touches no memory but its own
  tables and free pages.  Kernel-side buffers of \<open>copyin\<close> and \<open>copyout\<close> are passed by value, as the
  list of their bytes.
\<close>

unbundle bit_operations_syntax

section \<open>Walking and mapping\<close>

fun walk_loop ::
    "nat \<Rightarrow> addr \<Rightarrow> u64 \<Rightarrow> bool \<Rightarrow> 'a kmem_state_scheme \<Rightarrow> addr \<times> 'a kmem_state_scheme" where
  "walk_loop 0 pagetable va alloc s = (pte_addr pagetable (PX 0 va), s)"
| "walk_loop (Suc level) pagetable va alloc s =
     (let pte = pte_addr pagetable (PX (Suc level) va)
      in if read64 (pmem s) pte AND PTE_V \<noteq> 0
         then walk_loop level (PTE2PA (read64 (pmem s) pte)) va alloc s
         else if \<not> alloc then (0, s)
         else case kalloc s of (pagetable, s) \<Rightarrow>
           if pagetable = 0 then (0, s)
           else let s = s\<lparr>pmem := memset (pmem s) pagetable 0 4096\<rparr>;
                    s = s\<lparr>pmem := write64 (pmem s) pte (PA2PTE pagetable OR PTE_V)\<rparr>
                in walk_loop level pagetable va alloc s)"

definition walk ::
    "addr \<Rightarrow> u64 \<Rightarrow> bool \<Rightarrow> 'a kmem_state_scheme \<Rightarrow> (addr \<times> 'a kmem_state_scheme) res" where
  "walk pagetable va alloc s =
     (if va \<ge> MAXVA then panic ''walk'' else Inr (walk_loop 2 pagetable va alloc s))"

definition walkaddr :: "addr \<Rightarrow> u64 \<Rightarrow> 'a kmem_state_scheme \<Rightarrow> u64 res" where
  "walkaddr pagetable va s =
     (if va \<ge> MAXVA then Inr 0
      else bnd (walk pagetable va False s) (\<lambda>(pte, s).
        if pte = 0 then Inr 0
        else if read64 (pmem s) pte AND PTE_V = 0 then Inr 0
        else if read64 (pmem s) pte AND PTE_U = 0 then Inr 0
        else let pa = PTE2PA (read64 (pmem s) pte) in Inr (pa + (va AND 0xfff))))"

text \<open>
  The loop of \<open>mappages\<close>.  The permission bits, an \<^verbatim>\<open>int\<close> in the source, are never negative and are
  kept as the word they are converted to.
\<close>

function mappages_loop ::
    "addr \<Rightarrow> u64 \<Rightarrow> u64 \<Rightarrow> u64 \<Rightarrow> u64 \<Rightarrow> 'a kmem_state_scheme \<Rightarrow> (int \<times> 'a kmem_state_scheme) res" where
  "mappages_loop pagetable a lst pa perm s =
     bnd (walk pagetable a True s) (\<lambda>(pte, s).
       if pte = 0 then Inr (- 1, s)
       else if read64 (pmem s) pte AND PTE_V \<noteq> 0 then panic ''mappages: remap''
       else let s = s\<lparr>pmem := write64 (pmem s) pte (PA2PTE pa OR perm OR PTE_V)\<rparr>
            in if a = lst then Inr (0, s)
               else mappages_loop pagetable (a + PGSIZE) lst (pa + PGSIZE) perm s)"
  by pat_completeness auto

lemma walk_Inr_less: "walk pagetable va alloc s = Inr r \<Longrightarrow> va < MAXVA"
  by (auto simp: walk_def split: if_splits)

lemma below_MAXVA_step:
  assumes "a < MAXVA"
  shows "unat (a + PGSIZE) = unat a + 4096" "unat a < 2 ^ 38"
    "unat (MAXVA + PGSIZE) - unat (a + PGSIZE) < unat (MAXVA + PGSIZE) - unat a"
proof -
  show lt: "unat a < 2 ^ 38" using assms by (simp add: MAXVA_eq word_less_nat_alt)
  then show eq: "unat (a + PGSIZE) = unat a + 4096" by (simp add: unat_word_ariths)
  show "unat (MAXVA + PGSIZE) - unat (a + PGSIZE) < unat (MAXVA + PGSIZE) - unat a"
    unfolding eq using lt by (simp add: MAXVA_eq)
qed

termination mappages_loop
proof (relation "measure (\<lambda>(pt, a, r). unat (MAXVA + PGSIZE) - unat a)")
qed (auto dest!: walk_Inr_less below_MAXVA_step(3))

declare mappages_loop.simps [simp del]

definition mappages ::
    "addr \<Rightarrow> u64 \<Rightarrow> u64 \<Rightarrow> u64 \<Rightarrow> u64 \<Rightarrow> 'a kmem_state_scheme \<Rightarrow> (int \<times> 'a kmem_state_scheme) res" where
  "mappages pagetable va sz pa perm s =
     (if va mod PGSIZE \<noteq> 0 then panic ''mappages: va not aligned''
      else if sz mod PGSIZE \<noteq> 0 then panic ''mappages: size not aligned''
      else if sz = 0 then panic ''mappages: size''
      else mappages_loop pagetable va (va + sz - PGSIZE) pa perm s)"

definition kvmmap ::
    "addr \<Rightarrow> u64 \<Rightarrow> u64 \<Rightarrow> u64 \<Rightarrow> u64 \<Rightarrow> 'a kmem_state_scheme \<Rightarrow> 'a kmem_state_scheme res" where
  "kvmmap kpgtbl va pa sz perm s =
     bnd (mappages kpgtbl va sz pa perm s) (\<lambda>(r, s). if r \<noteq> 0 then panic ''kvmmap'' else Inr s)"

section \<open>Unmapping, growing and shrinking\<close>

function uvmunmap_loop ::
    "addr \<Rightarrow> u64 \<Rightarrow> u64 \<Rightarrow> bool \<Rightarrow> 'a kmem_state_scheme \<Rightarrow> 'a kmem_state_scheme res" where
  "uvmunmap_loop pagetable a lim do_free s =
     (if a < lim then
        bnd (walk pagetable a False s) (\<lambda>(pte, s).
          if pte = 0 then panic ''uvmunmap: walk''
          else if read64 (pmem s) pte AND PTE_V = 0 then panic ''uvmunmap: not mapped''
          else if PTE_FLAGS (read64 (pmem s) pte) = PTE_V then panic ''uvmunmap: not a leaf''
          else bnd (if do_free then kfree (PTE2PA (read64 (pmem s) pte)) s else Inr s) (\<lambda>s.
            uvmunmap_loop pagetable (a + PGSIZE) lim do_free (s\<lparr>pmem := write64 (pmem s) pte 0\<rparr>)))
      else Inr s)"
  by pat_completeness auto

termination uvmunmap_loop
proof (relation "measure (\<lambda>(pt, a, r). unat (MAXVA + PGSIZE) - unat a)")
qed (auto dest!: walk_Inr_less below_MAXVA_step(3))

declare uvmunmap_loop.simps [simp del]

definition uvmunmap ::
    "addr \<Rightarrow> u64 \<Rightarrow> u64 \<Rightarrow> bool \<Rightarrow> 'a kmem_state_scheme \<Rightarrow> 'a kmem_state_scheme res" where
  "uvmunmap pagetable va npages do_free s =
     (if va mod PGSIZE \<noteq> 0 then panic ''uvmunmap: not aligned''
      else uvmunmap_loop pagetable va (va + npages * PGSIZE) do_free s)"

definition uvmcreate :: "'a kmem_state_scheme \<Rightarrow> addr \<times> 'a kmem_state_scheme" where
  "uvmcreate s =
     (case kalloc s of (pagetable, s) \<Rightarrow>
        if pagetable = 0 then (0, s)
        else (pagetable, s\<lparr>pmem := memset (pmem s) pagetable 0 4096\<rparr>))"

text \<open>\<open>uvmfirst\<close> does not test the result of \<open>kalloc\<close>; it runs once, at boot.\<close>

definition uvmfirst :: "addr \<Rightarrow> byte list \<Rightarrow> 'a kmem_state_scheme \<Rightarrow> 'a kmem_state_scheme res" where
  "uvmfirst pagetable src s =
     (if length src \<ge> 4096 then panic ''uvmfirst: more than a page''
      else case kalloc s of (mem, s) \<Rightarrow>
        let s = s\<lparr>pmem := memset (pmem s) mem 0 4096\<rparr>
        in bnd (mappages pagetable 0 PGSIZE mem (PTE_W OR PTE_R OR PTE_X OR PTE_U) s) (\<lambda>(_, s).
             Inr (s\<lparr>pmem := write_bytes (pmem s) mem src\<rparr>)))"

text \<open>\<open>npages\<close> is an \<^verbatim>\<open>int\<close> in \<open>uvmdealloc\<close>: the count is cut to 32 bits and sign-extended back.\<close>

definition uvmdealloc ::
    "addr \<Rightarrow> u64 \<Rightarrow> u64 \<Rightarrow> 'a kmem_state_scheme \<Rightarrow> (u64 \<times> 'a kmem_state_scheme) res" where
  "uvmdealloc pagetable oldsz newsz s =
     (if newsz \<ge> oldsz then Inr (oldsz, s)
      else if PGROUNDUP newsz < PGROUNDUP oldsz then
        let npages = ucast ((PGROUNDUP oldsz - PGROUNDUP newsz) div PGSIZE) :: u32
        in bnd (uvmunmap pagetable (PGROUNDUP newsz) (scast npages) True s) (\<lambda>s. Inr (newsz, s))
      else Inr (newsz, s))"

lemma mappages_Inr_less:
  assumes "mappages pagetable va sz pa perm s = Inr r"
  shows "va < MAXVA"
  using assms unfolding mappages_def
  by (subst (asm) mappages_loop.simps) (auto split: if_splits simp: bnd_eq_Inr dest: walk_Inr_less)

function uvmalloc_loop ::
    "addr \<Rightarrow> u64 \<Rightarrow> u64 \<Rightarrow> u64 \<Rightarrow> u64 \<Rightarrow> 'a kmem_state_scheme \<Rightarrow> (u64 \<times> 'a kmem_state_scheme) res" where
  "uvmalloc_loop pagetable a oldsz newsz xperm s =
     (if a < newsz then
        (case kalloc s of (mem, s) \<Rightarrow>
           if mem = 0 then bnd (uvmdealloc pagetable a oldsz s) (\<lambda>(_, s). Inr (0, s))
           else let s = s\<lparr>pmem := memset (pmem s) mem 0 4096\<rparr>
                in bnd (mappages pagetable a PGSIZE mem (PTE_R OR PTE_U OR xperm) s) (\<lambda>(r, s).
                     if r \<noteq> 0
                     then bnd (kfree mem s) (\<lambda>s.
                            bnd (uvmdealloc pagetable a oldsz s) (\<lambda>(_, s). Inr (0, s)))
                     else uvmalloc_loop pagetable (a + PGSIZE) oldsz newsz xperm s))
      else Inr (newsz, s))"
  by pat_completeness auto

termination uvmalloc_loop
proof (relation "measure (\<lambda>(pt, a, r). unat (MAXVA + PGSIZE) - unat a)")
qed (auto dest!: mappages_Inr_less below_MAXVA_step(3))

declare uvmalloc_loop.simps [simp del]

definition uvmalloc ::
    "addr \<Rightarrow> u64 \<Rightarrow> u64 \<Rightarrow> u64 \<Rightarrow> 'a kmem_state_scheme \<Rightarrow> (u64 \<times> 'a kmem_state_scheme) res" where
  "uvmalloc pagetable oldsz newsz xperm s =
     (if newsz < oldsz then Inr (oldsz, s)
      else let oldsz = PGROUNDUP oldsz in uvmalloc_loop pagetable oldsz oldsz newsz xperm s)"

section \<open>Freeing and copying an address space\<close>

text \<open>
  The loop over the 512 entries of a table, with the recursive call as a parameter, and the
  recursion over the levels of the tree: the depth of a call is bounded by \<open>depth\<close>, three for a
  page table.
\<close>

fun freewalk_loop ::
    "(addr \<Rightarrow> 'a kmem_state_scheme \<Rightarrow> 'a kmem_state_scheme res) \<Rightarrow> u64 list \<Rightarrow> addr \<Rightarrow>
     'a kmem_state_scheme \<Rightarrow> 'a kmem_state_scheme res" where
  "freewalk_loop rec [] pagetable s = Inr s"
| "freewalk_loop rec (i # is) pagetable s =
     (let pte = read64 (pmem s) (pte_addr pagetable i)
      in if pte AND PTE_V \<noteq> 0 \<and> pte AND (PTE_R OR PTE_W OR PTE_X) = 0
         then bnd (rec (PTE2PA pte) s) (\<lambda>s.
           freewalk_loop rec is pagetable (s\<lparr>pmem := write64 (pmem s) (pte_addr pagetable i) 0\<rparr>))
         else if pte AND PTE_V \<noteq> 0 then panic ''freewalk: leaf''
         else freewalk_loop rec is pagetable s)"

primrec freewalk :: "nat \<Rightarrow> addr \<Rightarrow> 'a kmem_state_scheme \<Rightarrow> 'a kmem_state_scheme res" where
  "freewalk 0 pagetable s = Inl Diverge"
| "freewalk (Suc depth) pagetable s =
     bnd (freewalk_loop (freewalk depth) (map of_nat [0..<512]) pagetable s) (\<lambda>s. kfree pagetable s)"

definition uvmfree :: "addr \<Rightarrow> u64 \<Rightarrow> 'a kmem_state_scheme \<Rightarrow> 'a kmem_state_scheme res" where
  "uvmfree pagetable sz s =
     bnd (if sz > 0 then uvmunmap pagetable 0 (PGROUNDUP sz div PGSIZE) True s else Inr s) (\<lambda>s.
       freewalk 3 pagetable s)"

function uvmcopy_loop ::
    "addr \<Rightarrow> addr \<Rightarrow> u64 \<Rightarrow> u64 \<Rightarrow> 'a kmem_state_scheme \<Rightarrow> (int \<times> 'a kmem_state_scheme) res" where
  "uvmcopy_loop old new i sz s =
     (if i < sz then
        bnd (walk old i False s) (\<lambda>(pte, s).
          if pte = 0 then panic ''uvmcopy: pte should exist''
          else if read64 (pmem s) pte AND PTE_V = 0 then panic ''uvmcopy: page not present''
          else let pa = PTE2PA (read64 (pmem s) pte);
                   flags = PTE_FLAGS (read64 (pmem s) pte)
               in case kalloc s of (mem, s) \<Rightarrow>
                 if mem = 0
                 then bnd (uvmunmap new 0 (i div PGSIZE) True s) (\<lambda>s. Inr (- 1, s))
                 else let s = s\<lparr>pmem := memmove (pmem s) mem pa 4096\<rparr>
                      in bnd (mappages new i PGSIZE mem flags s) (\<lambda>(r, s).
                           if r \<noteq> 0
                           then bnd (kfree mem s) (\<lambda>s.
                                  bnd (uvmunmap new 0 (i div PGSIZE) True s) (\<lambda>s. Inr (- 1, s)))
                           else uvmcopy_loop old new (i + PGSIZE) sz s))
      else Inr (0, s))"
  by pat_completeness auto

termination uvmcopy_loop
proof (relation "measure (\<lambda>(old, new, i, r). unat (MAXVA + PGSIZE) - unat i)")
qed (auto dest!: mappages_Inr_less below_MAXVA_step(3))

declare uvmcopy_loop.simps [simp del]

definition uvmcopy ::
    "addr \<Rightarrow> addr \<Rightarrow> u64 \<Rightarrow> 'a kmem_state_scheme \<Rightarrow> (int \<times> 'a kmem_state_scheme) res" where
  "uvmcopy old new sz s = uvmcopy_loop old new 0 sz s"

definition uvmclear :: "addr \<Rightarrow> u64 \<Rightarrow> 'a kmem_state_scheme \<Rightarrow> 'a kmem_state_scheme res" where
  "uvmclear pagetable va s =
     bnd (walk pagetable va False s) (\<lambda>(pte, s).
       if pte = 0 then panic ''uvmclear''
       else Inr (s\<lparr>pmem := write64 (pmem s) pte (read64 (pmem s) pte AND NOT PTE_U)\<rparr>))"

section \<open>Copying between kernel and user\<close>

text \<open>The number of bytes from \<open>va\<close> to the end of its page.\<close>

definition page_rest :: "u64 \<Rightarrow> nat" where
  "page_rest va = unat (PGSIZE - (va - PGROUNDDOWN va))"

lemma page_rest_eq: "page_rest va = 4096 - unat (va - PGROUNDDOWN va)"
  "unat (va - PGROUNDDOWN va) < 4096" "0 < page_rest va"
proof -
  show lt: "unat (va - PGROUNDDOWN va) < 4096"
    using in_page_PGROUNDDOWN [of va] by (simp add: in_page_def in_range_def)
  then show eq: "page_rest va = 4096 - unat (va - PGROUNDDOWN va)"
    by (simp add: page_rest_def unat_sub word_le_nat_alt)
  show "0 < page_rest va" using lt eq by simp
qed

function copyout ::
    "addr \<Rightarrow> u64 \<Rightarrow> byte list \<Rightarrow> 'a kmem_state_scheme \<Rightarrow> (int \<times> 'a kmem_state_scheme) res" where
  "copyout pagetable dstva src s =
     (if length src > 0 then
        let va0 = PGROUNDDOWN dstva
        in if va0 \<ge> MAXVA then Inr (- 1, s)
           else bnd (walk pagetable va0 False s) (\<lambda>(pte, s).
             if pte = 0 \<or> read64 (pmem s) pte AND PTE_V = 0 \<or> read64 (pmem s) pte AND PTE_U = 0
                \<or> read64 (pmem s) pte AND PTE_W = 0
             then Inr (- 1, s)
             else let pa0 = PTE2PA (read64 (pmem s) pte);
                      n = (if page_rest dstva > length src then length src else page_rest dstva);
                      s = s\<lparr>pmem := write_bytes (pmem s) (pa0 + (dstva - va0)) (take n src)\<rparr>
                  in copyout pagetable (va0 + PGSIZE) (drop n src) s)
      else Inr (0, s))"
  by pat_completeness auto

termination copyout
  by (relation "measure (\<lambda>(pt, va, src, s). length src)") (use page_rest_eq(3) in auto)

declare copyout.simps [simp del]

text \<open>\<open>copyin\<close> returns the bytes it has stored at \<open>dst\<close> next to its result.\<close>

function copyin ::
    "addr \<Rightarrow> u64 \<Rightarrow> nat \<Rightarrow> 'a kmem_state_scheme \<Rightarrow> (int \<times> byte list) res" where
  "copyin pagetable srcva len s =
     (if len > 0 then
        let va0 = PGROUNDDOWN srcva
        in bnd (walkaddr pagetable va0 s) (\<lambda>pa0.
             if pa0 = 0 then Inr (- 1, [])
             else let n = (if page_rest srcva > len then len else page_rest srcva);
                      bs = read_bytes (pmem s) (pa0 + (srcva - va0)) n
                  in bnd (copyin pagetable (va0 + PGSIZE) (len - n) s) (\<lambda>(r, rest). Inr (r, bs @ rest)))
      else Inr (0, []))"
  by pat_completeness auto

termination copyin
  by (relation "measure (\<lambda>(pt, va, len, s). len)") (use page_rest_eq(3) in auto)

declare copyin.simps [simp del]

text \<open>
  The inner loop of \<open>copyinstr\<close> on one page: the bytes stored, and whether a null was met.
\<close>

fun copyinstr_page :: "mem \<Rightarrow> addr \<Rightarrow> nat \<Rightarrow> byte list \<times> bool" where
  "copyinstr_page m p 0 = ([], False)"
| "copyinstr_page m p (Suc n) =
     (if m p = 0 then ([0], True)
      else case copyinstr_page m (p + 1) n of (bs, got_null) \<Rightarrow> (m p # bs, got_null))"

function copyinstr ::
    "addr \<Rightarrow> u64 \<Rightarrow> nat \<Rightarrow> 'a kmem_state_scheme \<Rightarrow> (int \<times> byte list) res" where
  "copyinstr pagetable srcva mx s =
     (if mx > 0 then
        let va0 = PGROUNDDOWN srcva
        in bnd (walkaddr pagetable va0 s) (\<lambda>pa0.
             if pa0 = 0 then Inr (- 1, [])
             else let n = (if page_rest srcva > mx then mx else page_rest srcva)
                  in case copyinstr_page (pmem s) (pa0 + (srcva - va0)) n of (bs, got_null) \<Rightarrow>
                       if got_null then Inr (0, bs)
                       else bnd (copyinstr pagetable (va0 + PGSIZE) (mx - n) s) (\<lambda>(r, rest).
                              Inr (r, bs @ rest)))
      else Inr (- 1, []))"
  by pat_completeness auto

termination copyinstr
  by (relation "measure (\<lambda>(pt, va, mx, s). mx)") (use page_rest_eq(3) in auto)

declare copyinstr.simps [simp del]

section \<open>The kernel page table\<close>

text \<open>
  \<^verbatim>\<open>kernel/globals.h\<close>: the device addresses and interrupt numbers that the device tree gives, the
  linker symbols \<^verbatim>\<open>etext\<close> and \<^verbatim>\<open>trampoline\<close>, the kernel page table and the register \<open>satp\<close>.
\<close>

record vm_state = kmem_state +
  uart0 :: u64
  virtio0 :: u64
  plic :: u64
  uart0_irq :: u64
  virtio0_irq :: u64
  etext :: addr
  trampoline :: addr
  kernel_pagetable :: addr
  satp :: u64

fun proc_mapstacks_loop ::
    "addr \<Rightarrow> u64 list \<Rightarrow> 'a kmem_state_scheme \<Rightarrow> 'a kmem_state_scheme res" where
  "proc_mapstacks_loop kpgtbl [] s = Inr s"
| "proc_mapstacks_loop kpgtbl (i # is) s =
     (case kalloc s of (pa, s) \<Rightarrow>
        if pa = 0 then panic ''kalloc''
        else bnd (kvmmap kpgtbl (KSTACK i) pa PGSIZE (PTE_R OR PTE_W) s) (\<lambda>s.
               proc_mapstacks_loop kpgtbl is s))"

definition NPROC :: nat where "NPROC = 64"

definition proc_mapstacks :: "addr \<Rightarrow> 'a kmem_state_scheme \<Rightarrow> 'a kmem_state_scheme res" where
  "proc_mapstacks kpgtbl s = proc_mapstacks_loop kpgtbl (map of_nat [0..<NPROC]) s"

definition kvmmake :: "'a vm_state_scheme \<Rightarrow> (addr \<times> 'a vm_state_scheme) res" where
  "kvmmake s =
     (case kalloc s of (kpgtbl, s) \<Rightarrow>
      let s = s\<lparr>pmem := memset (pmem s) kpgtbl 0 4096\<rparr>
      in bnd (kvmmap kpgtbl (uart0 s) (uart0 s) PGSIZE (PTE_R OR PTE_W) s) (\<lambda>s.
         bnd (kvmmap kpgtbl (virtio0 s) (virtio0 s) PGSIZE (PTE_R OR PTE_W) s) (\<lambda>s.
         bnd (kvmmap kpgtbl (plic s) (plic s) 0x400000 (PTE_R OR PTE_W) s) (\<lambda>s.
         bnd (kvmmap kpgtbl KERNBASE KERNBASE (etext s - KERNBASE) (PTE_R OR PTE_X) s) (\<lambda>s.
         bnd (kvmmap kpgtbl (etext s) (etext s) (PHYSTOP - etext s) (PTE_R OR PTE_W) s) (\<lambda>s.
         bnd (kvmmap kpgtbl TRAMPOLINE (trampoline s) PGSIZE (PTE_R OR PTE_X) s) (\<lambda>s.
         bnd (proc_mapstacks kpgtbl s) (\<lambda>s. Inr (kpgtbl, s)))))))))"

definition kvminit :: "'a vm_state_scheme \<Rightarrow> 'a vm_state_scheme res" where
  "kvminit s = bnd (kvmmake s) (\<lambda>(pt, s). Inr (s\<lparr>kernel_pagetable := pt\<rparr>))"

definition kvminithart :: "'a vm_state_scheme \<Rightarrow> 'a vm_state_scheme" where
  "kvminithart s = s\<lparr>satp := MAKE_SATP (kernel_pagetable s)\<rparr>"

end
