(* ===== verification/VmTree.thy ===== *)
theory VmTree
  imports Vm
begin

text \<open>
  The shape of a page table.  A ghost function gives the table page at every index path (the
  empty path is the root); \<open>pt_rep\<close> ties it to the entries in memory.  The lemmas on \<open>walk\<close>,
  \<open>mappages\<close> and \<open>uvmunmap\<close> say which entry of which virtual address changes, and that all other
  memory is left alone.
\<close>

unbundle bit_operations_syntax

section \<open>The tree of tables\<close>

type_synonym ptree = "u64 list \<Rightarrow> addr option"

definition valid_pte :: "u64 \<Rightarrow> bool" where
  "valid_pte e \<longleftrightarrow> e AND PTE_V \<noteq> 0"

definition child_ok :: "u64 \<Rightarrow> addr option \<Rightarrow> bool" where
  "child_ok e c \<longleftrightarrow>
     (case c of None \<Rightarrow> \<not> valid_pte e | Some t \<Rightarrow> e = PA2PTE t OR PTE_V \<and> page_aligned t \<and> t < 2 ^ 56)"

definition tree_ok :: "addr \<Rightarrow> ptree \<Rightarrow> bool" where
  "tree_ok root T \<longleftrightarrow>
     T [] = Some root \<and> (\<forall>p. T p \<noteq> None \<longrightarrow> length p \<le> 2) \<and>
     (\<forall>p i. T (p @ [i]) \<noteq> None \<longrightarrow> T p \<noteq> None) \<and>
     (\<forall>p q t. T p = Some t \<longrightarrow> T q = Some t \<longrightarrow> p = q) \<and>
     (\<forall>p t. T p = Some t \<longrightarrow> page_aligned t)"

definition entries_ok :: "mem \<Rightarrow> ptree \<Rightarrow> bool" where
  "entries_ok m T \<longleftrightarrow>
     (\<forall>p t i. T p = Some t \<longrightarrow> length p < 2 \<longrightarrow> unat i < 512 \<longrightarrow>
        child_ok (read64 m (pte_addr t i)) (T (p @ [i])))"

definition owned :: "ptree \<Rightarrow> addr \<Rightarrow> bool" where
  "owned T x \<longleftrightarrow> (\<exists>p t. T p = Some t \<and> in_page t x)"

text \<open>The path to the last-level table of an address, and its entry (zero where there is no table).\<close>

definition pathof :: "u64 \<Rightarrow> u64 list" where
  "pathof va = [PX 2 va, PX 1 va]"

definition leaf :: "mem \<Rightarrow> ptree \<Rightarrow> u64 \<Rightarrow> u64" where
  "leaf m T va = (case T (pathof va) of None \<Rightarrow> 0 | Some t \<Rightarrow> read64 m (pte_addr t (PX 0 va)))"

text \<open>
  A page table rooted at \<open>root\<close> with the free pages \<open>xs\<close> beside it: its tables are pages that the
  allocator manages and that are not free.
\<close>

definition vm_ok :: "'a kmem_state_scheme \<Rightarrow> addr \<Rightarrow> ptree \<Rightarrow> addr list \<Rightarrow> bool" where
  "vm_ok s root T xs \<longleftrightarrow>
     kmem_inv s xs \<and> tree_ok root T \<and> entries_ok (pmem s) T \<and> ram_end s \<le> 2 ^ 56 \<and>
     (\<forall>p t. T p = Some t \<longrightarrow> page_ok s t \<and> t \<notin> set xs)"

text \<open>
  What an operation that only adds tables keeps: old tables stay, new ones come from the free
  list, every entry of every address keeps its value, and memory outside the tables does not
  change.
\<close>

definition grows ::
    "'a kmem_state_scheme \<Rightarrow> ptree \<Rightarrow> addr list \<Rightarrow> 'a kmem_state_scheme \<Rightarrow> ptree \<Rightarrow> addr list \<Rightarrow> bool" where
  "grows s T xs s' T' xs' \<longleftrightarrow>
     T \<subseteq>\<^sub>m T' \<and> (\<forall>p t. T' p = Some t \<longrightarrow> T p = Some t \<or> t \<in> set xs) \<and>
     (\<forall>va. leaf (pmem s') T' va = leaf (pmem s) T va) \<and>
     (\<forall>x. \<not> owned T' x \<longrightarrow> pmem s' x = pmem s x) \<and>
     kmem_only s s' \<and> (\<exists>ys. xs = ys @ xs') \<and> set xs \<subseteq> set xs' \<union> ran T'"

section \<open>Basic facts\<close>

lemma PX_less_512 [simp]: "unat (PX l va) < 512"
  by (rule PX_less)

lemma pte_addr_nonzero:
  assumes "page_aligned t" and "t \<noteq> 0" and "unat i < 512"
  shows "pte_addr t i \<noteq> 0"
proof
  assume z: "pte_addr t i = 0"
  have off: "unat (8 * i) = 8 * unat i" using assms(3) by (simp add: unat_word_ariths)
  have "unat t + unat (8 * i) < 2 ^ 64"
    using unat_page_end [OF assms(1)] assms(3) off by simp
  then have "unat (t + 8 * i) = unat t + unat (8 * i)"
    by (intro unat_add_lem [THEN iffD1]) simp
  with z have "unat t = 0" by (simp add: pte_addr_def)
  with assms(2) show False by (simp add: unat_eq_0)
qed

lemma PA2PTE_V_facts:
  assumes "page_aligned c" and "c < 2 ^ 56"
  shows "PTE2PA (PA2PTE c OR PTE_V) = c" and "valid_pte (PA2PTE c OR PTE_V)"
proof -
  show "PTE2PA (PA2PTE c OR PTE_V) = c"
    using assms by (intro PTE2PA_PA2PTE) simp_all
  have "(PA2PTE c OR PTE_V) AND PTE_V = PTE_V AND PTE_V"
    by (rule PA2PTE_and_low) simp
  then show "valid_pte (PA2PTE c OR PTE_V)" by (simp add: valid_pte_def)
qed

lemma vm_okD:
  assumes "vm_ok s root T xs"
  shows "kmem_inv s xs" "T [] = Some root" "tree_ok root T" "entries_ok (pmem s) T"
    "ram_end s \<le> 2 ^ 56"
    and "T p = Some t \<Longrightarrow> page_ok s t" and "T p = Some t \<Longrightarrow> t \<notin> set xs"
    and "T p = Some t \<Longrightarrow> page_aligned t" and "T p = Some t \<Longrightarrow> t \<noteq> 0" and "T p = Some t \<Longrightarrow> t < 2 ^ 56"
proof -
  show a: "kmem_inv s xs" "T [] = Some root" "tree_ok root T" "entries_ok (pmem s) T" "ram_end s \<le> 2 ^ 56"
    using assms by (auto simp: vm_ok_def tree_ok_def)
  show ok: "T p = Some t \<Longrightarrow> page_ok s t" and "T p = Some t \<Longrightarrow> t \<notin> set xs"
    using assms by (auto simp: vm_ok_def)
  show "T p = Some t \<Longrightarrow> page_aligned t" using ok by (simp add: page_ok_def)
  show "T p = Some t \<Longrightarrow> t \<noteq> 0"
    using ok a(1) page_ok_nonzero by (auto simp: kmem_inv_def)
  show "T p = Some t \<Longrightarrow> t < 2 ^ 56"
    using ok a(5) by (auto simp: page_ok_def intro: less_le_trans)
qed

lemma tree_okD:
  assumes "tree_ok root T"
  shows "T p = Some t \<Longrightarrow> length p \<le> 2" and "T (p @ [i]) = Some t \<Longrightarrow> \<exists>t'. T p = Some t'"
    and "T p = Some t \<Longrightarrow> T q = Some t \<Longrightarrow> p = q"
    and "T p = Some t \<Longrightarrow> page_aligned t"
    and "T p = None \<Longrightarrow> T (p @ [i]) = None"
  using assms unfolding tree_ok_def by blast+

lemma owned_table_unique:
  assumes "tree_ok root T" "T p = Some t" "T q = Some u" "in_page t x" "in_page u x"
  shows "p = q" "t = u"
proof -
  show "t = u" using assms tree_okD(4) in_page_unique by blast
  with assms tree_okD(3) show "p = q" by blast
qed

text \<open>A page that is free is no part of the tree.\<close>

lemma free_not_owned:
  assumes "vm_ok s root T xs" "q \<in> set xs" "in_page q x"
  shows "\<not> owned T x"
proof
  assume "owned T x"
  then obtain p t where t: "T p = Some t" "in_page t x" by (auto simp: owned_def)
  have "page_aligned q" using vm_okD(1) [OF assms(1)] assms(2) by (auto simp: kmem_inv_def page_ok_def)
  then have "q = t" using t assms vm_okD(8) in_page_unique by blast
  with t assms(1,2) vm_okD(7) show False by blast
qed

lemma entries_okD:
  "entries_ok m T \<Longrightarrow> T p = Some t \<Longrightarrow> length p < 2 \<Longrightarrow> unat i < 512 \<Longrightarrow>
    child_ok (read64 m (pte_addr t i)) (T (p @ [i]))"
  by (simp add: entries_ok_def)

lemma entries_ok_frame:
  assumes "entries_ok m T" and "\<And>x. owned T x \<Longrightarrow> m' x = m x"
  shows "entries_ok m' T"
  unfolding entries_ok_def
proof (intro allI impI)
  fix p t and i :: u64 assume t: "T p = Some t" "length p < 2" "unat i < 512"
  have "read64 m' (pte_addr t i) = read64 m (pte_addr t i)"
    using t assms(2) by (intro read64_pte_frame) (auto simp: owned_def)
  with assms(1) t show "child_ok (read64 m' (pte_addr t i)) (T (p @ [i]))"
    by (simp add: entries_ok_def)
qed

lemma leaf_frame:
  assumes "\<And>x. owned T x \<Longrightarrow> m' x = m x"
  shows "leaf m' T va = leaf m T va"
proof (cases "T (pathof va)")
  case (Some t)
  then have "read64 m' (pte_addr t (PX 0 va)) = read64 m (pte_addr t (PX 0 va))"
    using assms by (intro read64_pte_frame) (auto simp: owned_def)
  with Some show ?thesis by (simp add: leaf_def)
qed (simp add: leaf_def)

section \<open>Looking up without allocation\<close>

lemma walk_loop_step:
  assumes "entries_ok (pmem s) T" "T p = Some t" "length p < 2"
    and "T (p @ [PX (Suc l) va]) = Some c"
  shows "walk_loop (Suc l) t va alloc s = walk_loop l c va alloc s"
proof -
  have c: "read64 (pmem s) (pte_addr t (PX (Suc l) va)) = PA2PTE c OR PTE_V" "page_aligned c" "c < 2 ^ 56"
    using entries_okD [OF assms(1-3) PX_less_512, of "Suc l" va] assms(4)
    by (simp_all add: child_ok_def)
  then show ?thesis
    using PA2PTE_V_facts [OF c(2,3)] by (simp add: valid_pte_def Let_def)
qed

lemma walk_loop_missing:
  assumes "entries_ok (pmem s) T" "T p = Some t" "length p < 2"
    and "T (p @ [PX (Suc l) va]) = None"
  shows "\<not> valid_pte (read64 (pmem s) (pte_addr t (PX (Suc l) va)))"
  using entries_okD [OF assms(1-3) PX_less_512, of "Suc l" va] assms(4) by (simp add: child_ok_def)

lemma walk_lookup:
  assumes ok: "vm_ok s root T xs"
  shows "walk_loop 2 root va False s =
    ((case T (pathof va) of None \<Rightarrow> 0 | Some t \<Rightarrow> pte_addr t (PX 0 va)), s)"
proof -
  note e = vm_okD(4) [OF ok] and r = vm_okD(2) [OF ok] and tr = vm_okD(3) [OF ok]
  show ?thesis
  proof (cases "T [PX 2 va]")
    case None
    then have "T (pathof va) = None" using tree_okD(5) [OF tr, of "[PX 2 va]"] by (simp add: pathof_def)
    moreover have "\<not> valid_pte (read64 (pmem s) (pte_addr root (PX 2 va)))"
      using walk_loop_missing [OF e r, of 1 va] None by (simp add: numeral_2_eq_2)
    ultimately show ?thesis by (simp add: numeral_2_eq_2 valid_pte_def)
  next
    case (Some t1)
    then have 1: "walk_loop 2 root va False s = walk_loop 1 t1 va False s"
      using walk_loop_step [OF e r, of 1 va] by (simp add: numeral_2_eq_2)
    show ?thesis
    proof (cases "T [PX 2 va, PX 1 va]")
      case None
      then have "\<not> valid_pte (read64 (pmem s) (pte_addr t1 (PX 1 va)))"
        using walk_loop_missing [OF e Some, of 0 va] by simp
      with 1 None show ?thesis by (simp add: valid_pte_def pathof_def)
    next
      case (Some t0)
      then have "walk_loop 1 t1 va False s = walk_loop 0 t0 va False s"
        using walk_loop_step [OF e \<open>T [PX 2 va] = Some t1\<close>, of 0 va] by simp
      with 1 Some show ?thesis by (simp add: pathof_def)
    qed
  qed
qed

section \<open>Adding a table\<close>

lemma le_word_zeros [simp]: "le_word (replicate n 0) = 0"
  by (induction n) simp_all

lemma read64_zero_page:
  assumes "\<And>x. in_page c x \<Longrightarrow> m x = 0" and "unat j < 512"
  shows "read64 m (pte_addr c j) = 0"
proof -
  have "read64 m (pte_addr c j) = read64 (\<lambda>_. 0) (pte_addr c j)"
    using assms by (intro read64_pte_frame) auto
  also have "\<dots> = 0" by (simp add: read64_def read_bytes_def map_replicate_const)
  finally show ?thesis .
qed

lemma memset_zero_page: "in_page c x \<Longrightarrow> memset m c 0 4096 x = 0"
  by (simp add: memset_write_bytes in_page_def in_range_def write_bytes_def)

lemma kmem_inv_frame:
  assumes "kmem_inv s xs" and "\<And>q x. q \<in> set xs \<Longrightarrow> in_page q x \<Longrightarrow> m' x = pmem s x"
  shows "kmem_inv (s\<lparr>pmem := m'\<rparr>) xs"
proof -
  have "fl_list m' (freelist s) xs"
    by (rule fl_list_frame [OF _ assms(2)]) (use assms(1) in \<open>simp_all add: kmem_inv_def\<close>)
  with assms(1) show ?thesis by (simp add: kmem_inv_def page_ok_def)
qed

lemma tree_ok_add:
  assumes ok: "tree_ok root T" and t: "T p = Some t" "length p < 2" and no: "T (p @ [i]) = None"
    and c: "page_aligned c" and new: "\<And>q. T q \<noteq> Some c"
  shows "tree_ok root (T(p @ [i] \<mapsto> c))"
proof -
  let ?T = "T(p @ [i] \<mapsto> c)"
  have "?T q \<noteq> None \<longrightarrow> length q \<le> 2" for q
    using t(2) tree_okD(1) [OF ok] by auto
  moreover have "?T (q @ [j]) \<noteq> None \<longrightarrow> ?T q \<noteq> None" for q j
    using t(1) tree_okD(2) [OF ok, of q j] by auto
  moreover have "?T q = Some u \<longrightarrow> ?T r = Some u \<longrightarrow> q = r" for q r u
    using new tree_okD(3) [OF ok] by auto
  moreover have "?T q = Some u \<longrightarrow> page_aligned u" for q u
    using c tree_okD(4) [OF ok] by auto
  moreover have "?T [] = Some root" using ok by (simp add: tree_ok_def)
  ultimately show ?thesis unfolding tree_ok_def by blast
qed

lemma memset_write_entry_out:
  assumes "\<not> in_page c x" and "\<not> in_page t x" and "unat i < 512"
  shows "write64 (memset m c 0 4096) (pte_addr t i) e x = m x"
  using assms by (simp add: write64_pte_out memset_page_out)

lemma entries_ok_add:
  assumes ok: "tree_ok root T" and e: "entries_ok m T" and t: "T p = Some t" "length p < 2" "unat i < 512"
    and no: "T (p @ [i]) = None" and c: "page_aligned c" "c < 2 ^ 56" and new: "\<And>q. T q \<noteq> Some c"
    and m': "m' = write64 (memset m c 0 4096) (pte_addr t i) (PA2PTE c OR PTE_V)"
  shows "entries_ok m' (T(p @ [i] \<mapsto> c))"
  unfolding entries_ok_def
proof (intro allI impI)
  fix q u and j :: u64
  assume u: "(T(p @ [i] \<mapsto> c)) q = Some u" "length q < 2" "unat j < 512"
  have ta: "page_aligned t" using tree_okD(4) [OF ok t(1)] .
  have tc: "t \<noteq> c" using new t by auto
  show "child_ok (read64 m' (pte_addr u j)) ((T(p @ [i] \<mapsto> c)) (q @ [j]))"
  proof (cases "q = p @ [i]")
    case True
    then have "u = c" using u by simp
    moreover have "T (q @ [j]) = None" using True tree_okD(5) [OF ok no] by simp
    moreover have "read64 m' (pte_addr c j) = read64 (memset m c 0 4096) (pte_addr c j)"
      unfolding m' using ta c tc t(3) u(3) by (intro pte_addr_read_other) auto
    moreover have "\<dots> = 0" using u(3) by (intro read64_zero_page memset_zero_page)
    ultimately show ?thesis using True by (simp add: child_ok_def valid_pte_def)
  next
    case False
    then have q: "T q = Some u" using u by simp
    have ua: "page_aligned u" and uc: "u \<noteq> c" using tree_okD(4) [OF ok q] new q by auto
    show ?thesis
    proof (cases "u = t \<and> j = i")
      case True
      then have "q = p" using tree_okD(3) [OF ok q] t(1) by simp
      with True c show ?thesis by (simp add: m' child_ok_def)
    next
      case other: False
      have "read64 m' (pte_addr u j) = read64 (memset m c 0 4096) (pte_addr u j)"
        unfolding m' using ta ua t(3) u(3) other by (intro pte_addr_read_other) auto
      also have "\<dots> = read64 m (pte_addr u j)"
        using u(3) uc ua c in_page_unique by (intro read64_pte_frame memset_page_out) auto
      finally have "read64 m' (pte_addr u j) = read64 m (pte_addr u j)" .
      moreover have "(T(p @ [i] \<mapsto> c)) (q @ [j]) = T (q @ [j])" using other q t(1) by auto
      ultimately show ?thesis using entries_okD [OF e q u(2,3)] by (simp only:)
    qed
  qed
qed

lemma leaf_add:
  assumes ok: "tree_ok root T" and t: "T p = Some t" "length p < 2" "unat i < 512"
    and no: "T (p @ [i]) = None" and c: "page_aligned c" and new: "\<And>q. T q \<noteq> Some c"
    and m': "m' = write64 (memset m c 0 4096) (pte_addr t i) e"
  shows "leaf m' (T(p @ [i] \<mapsto> c)) va = leaf m T va"
proof (cases "pathof va = p @ [i]")
  case True
  have "read64 m' (pte_addr c (PX 0 va)) = read64 (memset m c 0 4096) (pte_addr c (PX 0 va))"
    unfolding m' using t c new tree_okD(4) [OF ok t(1)] by (intro pte_addr_read_other) auto
  also have "\<dots> = 0" by (intro read64_zero_page memset_zero_page) simp_all
  finally show ?thesis using True no by (simp add: leaf_def)
next
  case False
  show ?thesis
  proof (cases "T (pathof va)")
    case None
    with False show ?thesis by (simp add: leaf_def)
  next
    case (Some u)
    have "pathof va \<noteq> p" using t(2) by (auto simp: pathof_def)
    then have "u \<noteq> t" using tree_okD(3) [OF ok Some] t(1) by auto
    then have "read64 m' (pte_addr u (PX 0 va)) = read64 (memset m c 0 4096) (pte_addr u (PX 0 va))"
      unfolding m' using t tree_okD(4) [OF ok] Some by (intro pte_addr_read_other) auto
    also have "\<dots> = read64 m (pte_addr u (PX 0 va))"
    proof (intro read64_pte_frame memset_page_out notI)
      fix x assume "in_page u x" "in_page c x"
      then have "u = c" using in_page_unique [OF tree_okD(4) [OF ok Some] c] by blast
      with Some new show False by blast
    qed simp
    finally show ?thesis using Some False by (simp add: leaf_def)
  qed
qed

lemma add_table:
  fixes s :: "'a kmem_state_scheme"
  assumes ok: "vm_ok s root T (c # xs)" and t: "T p = Some t" "length p < 2" "unat i < 512"
    and no: "T (p @ [i]) = None" and s1: "kalloc s = (c, s1)"
    and s2: "s2 = s1\<lparr>pmem := write64 (memset (pmem s1) c 0 4096) (pte_addr t i) (PA2PTE c OR PTE_V)\<rparr>"
  shows "vm_ok s2 root (T(p @ [i] \<mapsto> c)) xs" "grows s T (c # xs) s2 (T(p @ [i] \<mapsto> c)) xs"
proof -
  let ?T = "T(p @ [i] \<mapsto> c)"
  note k = vm_okD(1) [OF ok] and tr = vm_okD(3) [OF ok]
  have al: "kmem_inv s1 xs" "only_page c s s1"
    using kalloc_spec [OF k] s1 by auto
  have c: "page_ok s c" "page_aligned c" "c < 2 ^ 56" "c \<notin> set xs"
    using k vm_okD(5) [OF ok] by (auto simp: kmem_inv_def page_ok_def intro: less_le_trans)
  have new: "T q \<noteq> Some c" for q using vm_okD(7) [OF ok, of q c] by auto
  have tok: "page_ok s t" and tfree: "t \<notin> set xs" using vm_okD(6,7) [OF ok t(1)] by auto
  have keep: "pmem s1 x = pmem s x" if "\<not> in_page c x" for x
    using al(2) that by (simp add: only_page_def)
  have cx: "\<not> in_page c x" if "owned T x" for x
    using free_not_owned [OF ok, of c x] that by auto
  have same: "page_ok s2 = page_ok s" "ram_end s2 = ram_end s"
    using only_page_fields [OF al(2)] by (auto simp: s2 page_ok_def fun_eq_iff)
  have e1: "entries_ok (pmem s1) T" "leaf (pmem s1) T va = leaf (pmem s) T va" for va
    using entries_ok_frame [OF vm_okD(4) [OF ok]] leaf_frame [of T "pmem s1" "pmem s"] keep cx by blast+
  have "kmem_inv s2 xs"
    unfolding s2
  proof (rule kmem_inv_frame [OF al(1)], rule memset_write_entry_out [OF _ _ t(3)])
    fix q x assume q: "q \<in> set xs" "in_page q x"
    then have "page_ok s q" using k by (simp add: kmem_inv_def)
    then show "\<not> in_page c x" "\<not> in_page t x"
      using q c(1,4) tok tfree in_page_other by blast+
  qed
  moreover have "tree_ok root ?T"
    by (rule tree_ok_add [OF tr t(1,2) no c(2) new])
  moreover have "entries_ok (pmem s2) ?T"
    by (rule entries_ok_add [OF tr e1(1) t no c(2,3) new]) (simp add: s2)
  moreover have "page_ok s u \<and> u \<notin> set xs" if "?T q = Some u" for q u
    using that c vm_okD(6,7) [OF ok, of q u] by (auto split: if_splits)
  ultimately show "vm_ok s2 root ?T xs"
    using vm_okD(5) [OF ok] same by (simp add: vm_ok_def)
  have "leaf (pmem s2) ?T va = leaf (pmem s) T va" for va
    using leaf_add [OF tr t no c(2) new, of "pmem s2" "pmem s1"] e1(2) by (simp add: s2)
  moreover have "pmem s2 x = pmem s x" if "\<not> owned ?T x" for x
  proof -
    have "?T (p @ [i]) = Some c" by simp
    then have "\<not> in_page c x" using that unfolding owned_def by blast
    moreover have "?T p = Some t" using t no by auto
    then have "\<not> in_page t x" using that unfolding owned_def by blast
    ultimately show ?thesis using keep t(3) by (simp add: s2 memset_write_entry_out)
  qed
  moreover have "kmem_only s s2"
    unfolding s2 using al(2) kmem_only_trans kmem_only_pmem by (fastforce simp: only_page_def)
  moreover have "T \<subseteq>\<^sub>m ?T" using no by (auto simp: map_le_def)
  moreover have "c \<in> ran ?T" by (auto simp: ran_def)
  ultimately show "grows s T (c # xs) s2 ?T xs" by (auto simp: grows_def)
qed

lemma grows_refl: "grows s T xs s T xs"
  by (auto simp: grows_def)

lemma growsD:
  assumes "grows s T xs s' T' xs'"
  shows "T p = Some t \<Longrightarrow> T' p = Some t" "T' p = Some t \<Longrightarrow> T p = Some t \<or> t \<in> set xs"
    "leaf (pmem s') T' va = leaf (pmem s) T va" "\<not> owned T' x \<Longrightarrow> pmem s' x = pmem s x"
    "kmem_only s s'" "\<exists>ys. xs = ys @ xs'" "set xs' \<subseteq> set xs" "owned T x \<Longrightarrow> owned T' x"
    "set xs \<subseteq> set xs' \<union> ran T'" "ran T \<subseteq> ran T'"
proof -
  show p: "T p = Some t \<Longrightarrow> T' p = Some t" for p t
    using assms by (auto simp: grows_def map_le_def dest!: bspec [where x = p])
  show "owned T x \<Longrightarrow> owned T' x" using p unfolding owned_def by blast
  show "ran T \<subseteq> ran T'" using p by (auto simp: ran_def)
  show "\<exists>ys. xs = ys @ xs'" "set xs' \<subseteq> set xs" using assms by (auto simp: grows_def)
  show "T' p = Some t \<Longrightarrow> T p = Some t \<or> t \<in> set xs" "leaf (pmem s') T' va = leaf (pmem s) T va"
    "\<not> owned T' x \<Longrightarrow> pmem s' x = pmem s x" "kmem_only s s'" "set xs \<subseteq> set xs' \<union> ran T'"
    using assms unfolding grows_def by blast+
qed

lemma grows_trans:
  assumes 1: "grows s T xs s1 T1 xs1" and 2: "grows s1 T1 xs1 s2 T2 xs2"
  shows "grows s T xs s2 T2 xs2"
  unfolding grows_def
proof (intro conjI allI impI)
  show "T \<subseteq>\<^sub>m T2" using 1 2 by (auto simp: grows_def intro: map_le_trans)
  show "T p = Some t \<or> t \<in> set xs" if "T2 p = Some t" for p t
    using growsD(2) [OF 2 that] growsD(2) [OF 1, of p t] growsD(7) [OF 1] by blast
  show "leaf (pmem s2) T2 va = leaf (pmem s) T va" for va
    using growsD(3) [OF 1] growsD(3) [OF 2] by simp
  show "pmem s2 x = pmem s x" if "\<not> owned T2 x" for x
    using growsD(4) [OF 2 that] growsD(4) [OF 1, of x] growsD(8) [OF 2, of x] that by auto
  show "kmem_only s s2" using growsD(5) [OF 1] growsD(5) [OF 2] by (rule kmem_only_trans)
  show "\<exists>ys. xs = ys @ xs2" using growsD(6) [OF 1] growsD(6) [OF 2] by force
  show "set xs \<subseteq> set xs2 \<union> ran T2" using growsD(9) [OF 1] growsD(9,10) [OF 2] by blast
qed

section \<open>Walking with allocation\<close>

lemma walk_loop_alloc_step:
  fixes s :: "'a kmem_state_scheme"
  assumes ok: "vm_ok s root T xs" and t: "T p = Some t" "length p < 2"
  shows "(\<exists>c s' T' xs'. vm_ok s' root T' xs' \<and> grows s T xs s' T' xs' \<and> T' (p @ [PX (Suc l) va]) = Some c \<and>
      walk_loop (Suc l) t va True s = walk_loop l c va True s' \<and> length xs \<le> Suc (length xs'))
    \<or> xs = [] \<and> T (p @ [PX (Suc l) va]) = None \<and> walk_loop (Suc l) t va True s = (0, s)"
proof (cases "T (p @ [PX (Suc l) va])")
  case (Some c)
  then show ?thesis
    using ok walk_loop_step [OF vm_okD(4) [OF ok] t Some] grows_refl [of s T xs] le_SucI by blast
next
  case no: None
  note inv = walk_loop_missing [OF vm_okD(4) [OF ok] t no]
  show ?thesis
  proof (cases xs)
    case Nil
    then have "kalloc s = (0, s)" using vm_okD(1) [OF ok] kalloc_empty by simp
    with inv Nil no show ?thesis by (simp add: valid_pte_def Let_def)
  next
    case (Cons c ys)
    then obtain s1 where s1: "kalloc s = (c, s1)" using kalloc_spec vm_okD(1) [OF ok] by blast
    have "c \<noteq> 0" using kmem.avail_usable [OF vm_okD(1) [OF ok], of c] Cons by simp
    define s2 where
      "s2 = s1\<lparr>pmem := write64 (memset (pmem s1) c 0 4096) (pte_addr t (PX (Suc l) va)) (PA2PTE c OR PTE_V)\<rparr>"
    have "walk_loop (Suc l) t va True s = walk_loop l c va True s2"
      using inv s1 \<open>c \<noteq> 0\<close> by (simp add: valid_pte_def Let_def s2_def)
    moreover note add_table [OF ok [unfolded Cons] t PX_less_512 no s1 s2_def]
    ultimately have "vm_ok s2 root (T(p @ [PX (Suc l) va] \<mapsto> c)) ys
      \<and> grows s T xs s2 (T(p @ [PX (Suc l) va] \<mapsto> c)) ys
      \<and> (T(p @ [PX (Suc l) va] \<mapsto> c)) (p @ [PX (Suc l) va]) = Some c
      \<and> walk_loop (Suc l) t va True s = walk_loop l c va True s2 \<and> length xs \<le> Suc (length ys)"
      using Cons by simp
    then show ?thesis by blast
  qed
qed

lemma walk_alloc:
  fixes s :: "'a kmem_state_scheme"
  assumes ok: "vm_ok s root T xs"
  shows "\<exists>a s' T' xs'. walk_loop 2 root va True s = (a, s') \<and> vm_ok s' root T' xs' \<and> grows s T xs s' T' xs'
    \<and> (a = 0 \<and> xs' = [] \<and> T (pathof va) = None \<or> (\<exists>t. T' (pathof va) = Some t \<and> a = pte_addr t (PX 0 va)))
    \<and> length xs \<le> length xs' + 2"
proof -
  note tr = vm_okD(3) [OF ok]
  consider (more) c s1 T1 xs1 where "vm_ok s1 root T1 xs1" "grows s T xs s1 T1 xs1" "T1 [PX 2 va] = Some c"
      "walk_loop 2 root va True s = walk_loop 1 c va True s1" "length xs \<le> Suc (length xs1)"
    | (out) "xs = []" "T [PX 2 va] = None" "walk_loop 2 root va True s = (0, s)"
    using walk_loop_alloc_step [OF ok vm_okD(2) [OF ok], of 1 va] by (auto simp: numeral_2_eq_2)
  then show ?thesis
  proof cases
    case out
    then have "T (pathof va) = None" using tree_okD(5) [OF tr, of "[PX 2 va]"] by (simp add: pathof_def)
    with ok out grows_refl [of s T xs] show ?thesis by auto
  next
    case more
    from walk_loop_alloc_step [OF more(1,3), of 0 va]
    consider (more2) d s2 T2 xs2 where "vm_ok s2 root T2 xs2" "grows s1 T1 xs1 s2 T2 xs2"
        "T2 (pathof va) = Some d" "walk_loop 1 c va True s1 = walk_loop 0 d va True s2"
        "length xs1 \<le> Suc (length xs2)"
      | (out2) "xs1 = []" "T1 (pathof va) = None" "walk_loop 1 c va True s1 = (0, s1)"
      by (auto simp: pathof_def)
    then show ?thesis
    proof cases
      case more2
      have "grows s T xs s2 T2 xs2" using grows_trans [OF more(2) more2(2)] .
      moreover have "walk_loop 2 root va True s = (pte_addr d (PX 0 va), s2)"
        using more(4) more2(4) by simp
      moreover have "length xs \<le> length xs2 + 2" using more(5) more2(5) by simp
      ultimately show ?thesis using more2(1,3) by blast
    next
      case out2
      then have "T (pathof va) = None" using growsD(1) [OF more(2)] by (cases "T (pathof va)") auto
      with out2 more show ?thesis by auto
    qed
  qed
qed

section \<open>Writing an entry\<close>

text \<open>Like \<open>grows\<close>, but for operations that also write entries.\<close>

definition extends ::
    "'a kmem_state_scheme \<Rightarrow> ptree \<Rightarrow> addr list \<Rightarrow> 'a kmem_state_scheme \<Rightarrow> ptree \<Rightarrow> addr list \<Rightarrow> bool" where
  "extends s T xs s' T' xs' \<longleftrightarrow>
     T \<subseteq>\<^sub>m T' \<and> (\<forall>p t. T' p = Some t \<longrightarrow> T p = Some t \<or> t \<in> set xs) \<and>
     (\<forall>x. \<not> owned T' x \<longrightarrow> pmem s' x = pmem s x) \<and>
     kmem_only s s' \<and> (\<exists>ys. xs = ys @ xs') \<and> set xs \<subseteq> set xs' \<union> ran T'"

lemma grows_extends: "grows s T xs s' T' xs' \<Longrightarrow> extends s T xs s' T' xs'"
  by (simp add: grows_def extends_def)

lemma extendsD:
  assumes "extends s T xs s' T' xs'"
  shows "T p = Some t \<Longrightarrow> T' p = Some t" "T' p = Some t \<Longrightarrow> T p = Some t \<or> t \<in> set xs"
    "\<not> owned T' x \<Longrightarrow> pmem s' x = pmem s x"
    "kmem_only s s'" "\<exists>ys. xs = ys @ xs'" "set xs' \<subseteq> set xs" "owned T x \<Longrightarrow> owned T' x"
    "set xs \<subseteq> set xs' \<union> ran T'" "ran T \<subseteq> ran T'"
proof -
  show p: "T p = Some t \<Longrightarrow> T' p = Some t" for p t
    using assms by (auto simp: extends_def map_le_def dest!: bspec [where x = p])
  show "owned T x \<Longrightarrow> owned T' x" using p unfolding owned_def by blast
  show "ran T \<subseteq> ran T'" using p by (auto simp: ran_def)
  show "\<exists>ys. xs = ys @ xs'" "set xs' \<subseteq> set xs" using assms by (auto simp: extends_def)
  show "T' p = Some t \<Longrightarrow> T p = Some t \<or> t \<in> set xs"
    "\<not> owned T' x \<Longrightarrow> pmem s' x = pmem s x" "kmem_only s s'" "set xs \<subseteq> set xs' \<union> ran T'"
    using assms unfolding extends_def by blast+
qed

lemma extends_trans:
  assumes 1: "extends s T xs s1 T1 xs1" and 2: "extends s1 T1 xs1 s2 T2 xs2"
  shows "extends s T xs s2 T2 xs2"
  unfolding extends_def
proof (intro conjI allI impI)
  show "T \<subseteq>\<^sub>m T2" using 1 2 by (auto simp: extends_def intro: map_le_trans)
  show "T p = Some t \<or> t \<in> set xs" if "T2 p = Some t" for p t
    using extendsD(2) [OF 2 that] extendsD(2) [OF 1, of p t] extendsD(6) [OF 1] by blast
  show "pmem s2 x = pmem s x" if "\<not> owned T2 x" for x
    using extendsD(3) [OF 2 that] extendsD(3) [OF 1, of x] extendsD(7) [OF 2, of x] that by auto
  show "kmem_only s s2" using extendsD(4) [OF 1] extendsD(4) [OF 2] by (rule kmem_only_trans)
  show "\<exists>ys. xs = ys @ xs2" using extendsD(5) [OF 1] extendsD(5) [OF 2] by force
  show "set xs \<subseteq> set xs2 \<union> ran T2" using extendsD(8) [OF 1] extendsD(8,9) [OF 2] by blast
qed

lemma pathof_PX0_inject:
  assumes "page_aligned va" "va < MAXVA" "page_aligned v" "v < MAXVA"
    and "pathof v = pathof va" "PX 0 v = PX 0 va"
  shows "v = va"
proof (rule PX_inject [OF assms(3,4,1,2)])
  fix l :: nat assume "l \<le> 2"
  then have "l = 0 \<or> l = 1 \<or> l = 2" by auto
  with assms(5,6) show "PX l v = PX l va" by (auto simp: pathof_def)
qed

lemma set_leaf:
  fixes s :: "'a kmem_state_scheme"
  assumes ok: "vm_ok s root T xs" and t: "T (pathof va) = Some t"
    and s': "s' = s\<lparr>pmem := write64 (pmem s) (pte_addr t (PX 0 va)) e\<rparr>"
  shows "vm_ok s' root T xs" "extends s T xs s' T xs"
    and "\<And>v. page_aligned va \<Longrightarrow> va < MAXVA \<Longrightarrow> page_aligned v \<Longrightarrow> v < MAXVA \<Longrightarrow>
      leaf (pmem s') T v = (if v = va then e else leaf (pmem s) T v)"
proof -
  note tr = vm_okD(3) [OF ok] and ta = vm_okD(8) [OF ok t]
  have other: "read64 (pmem s') (pte_addr u i) = read64 (pmem s) (pte_addr u i)"
    if "T p = Some u" "unat i < 512" "p \<noteq> pathof va \<or> i \<noteq> PX 0 va" for p u i
  proof -
    have "t \<noteq> u \<or> PX 0 va \<noteq> i" using that t tree_okD(3) [OF tr] by blast
    from pte_addr_read_other [OF ta vm_okD(8) [OF ok that(1)] PX_less_512 that(2) this] show ?thesis
      by (simp add: s')
  qed
  have out: "pmem s' x = pmem s x" if "\<not> in_page t x" for x
    using that by (simp add: s' write64_pte_out)
  have "entries_ok (pmem s') T"
    unfolding entries_ok_def
  proof (intro allI impI)
    fix p u and i :: u64 assume u: "T p = Some u" "length p < 2" "unat i < 512"
    have "p \<noteq> pathof va" using u(2) by (auto simp: pathof_def)
    then show "child_ok (read64 (pmem s') (pte_addr u i)) (T (p @ [i]))"
      using entries_okD [OF vm_okD(4) [OF ok] u] other [OF u(1,3)] by simp
  qed
  moreover have "kmem_inv s' xs"
    unfolding s'
  proof (rule kmem_inv_frame [OF vm_okD(1) [OF ok]])
    fix q x assume "q \<in> set xs" "in_page q x"
    then have "\<not> in_page t x"
      using free_not_owned [OF ok] t by (auto simp: owned_def)
    then show "write64 (pmem s) (pte_addr t (PX 0 va)) e x = pmem s x" by (simp add: write64_pte_out)
  qed
  moreover have "page_ok s' = page_ok s" "ram_end s' = ram_end s"
    by (simp_all add: s' page_ok_def fun_eq_iff)
  ultimately show "vm_ok s' root T xs"
    using ok by (simp add: vm_ok_def)
  have "pmem s' x = pmem s x" if "\<not> owned T x" for x
    using that t by (intro out) (auto simp: owned_def)
  then show "extends s T xs s' T xs"
    by (simp add: extends_def s' kmem_only_pmem)
  fix v assume v: "page_aligned va" "va < MAXVA" "page_aligned v" "v < MAXVA"
  show "leaf (pmem s') T v = (if v = va then e else leaf (pmem s) T v)"
  proof (cases "v = va")
    case True
    with t show ?thesis by (simp add: leaf_def s')
  next
    case False
    then have "pathof v \<noteq> pathof va \<or> PX 0 v \<noteq> PX 0 va" using pathof_PX0_inject v by blast
    with False other [of "pathof v"] show ?thesis by (simp add: leaf_def split: option.splits)
  qed
qed

section \<open>Mapping a range of pages\<close>

lemma in_range_pages_Suc:
  assumes "page_aligned a" "page_aligned v" and "unat a + 4096 * Suc k < 2 ^ 64"
  shows "in_range a (4096 * Suc k) v \<longleftrightarrow> v = a \<or> in_range (a + PGSIZE) (4096 * k) v"
proof (cases "v - a < PGSIZE")
  case True
  then have "in_page a v" by (simp add: in_page_def in_range_def word_less_nat_alt)
  then have "v = a" using assms(1,2) in_page_unique in_page_self by blast
  then show ?thesis by (simp add: in_range_def)
next
  case False
  have eq: "v - (a + PGSIZE) = (v - a) - PGSIZE" by simp
  have "unat (v - (a + PGSIZE)) = unat (v - a) - 4096"
    unfolding eq using False by (simp add: unat_sub)
  moreover have "4096 \<le> unat (v - a)" using False by (simp add: word_less_nat_alt)
  ultimately show ?thesis using False by (auto simp: in_range_def)
qed

text \<open>
  The outcome of mapping: all \<open>n\<close> pages, or only the first \<open>k\<close> because the free list ran empty.
\<close>

definition mapped ::
    "mem \<Rightarrow> ptree \<Rightarrow> u64 \<Rightarrow> nat \<Rightarrow> u64 \<Rightarrow> u64 \<Rightarrow> mem \<Rightarrow> ptree \<Rightarrow> bool" where
  "mapped m T a k pa perm m' T' \<longleftrightarrow>
     (\<forall>v. page_aligned v \<longrightarrow> v < MAXVA \<longrightarrow>
        leaf m' T' v = (if in_range a (4096 * k) v then PA2PTE (pa + (v - a)) OR perm OR PTE_V
                        else leaf m T v))"

lemma leaf_NoneD: "T (pathof v) = None \<Longrightarrow> leaf m T v = 0"
  by (simp add: leaf_def)

lemma mapped_0: "grows s T xs s' T' xs' \<Longrightarrow> mapped (pmem s) T a 0 pa perm (pmem s') T'"
  by (auto simp: mapped_def in_range_def growsD(3))

lemma in_range_page_self:
  assumes "page_aligned a" "page_aligned v" "unat a + 4096 < 2 ^ 64"
  shows "in_range a 4096 v \<longleftrightarrow> v = a"
  using in_range_pages_Suc [OF assms(1,2), of 0] assms(3) by (auto simp: in_range_def)

lemma mapped_Suc:
  assumes a: "page_aligned a" "unat a + 4096 * Suc k < 2 ^ 64"
    and 1: "mapped m T a 1 pa perm m1 T1"
    and 2: "mapped m1 T1 (a + PGSIZE) k (pa + PGSIZE) perm m2 T2"
  shows "mapped m T a (Suc k) pa perm m2 T2"
  unfolding mapped_def
proof (intro allI impI)
  fix v assume v: "page_aligned v" "v < MAXVA"
  have self: "in_range a 4096 v \<longleftrightarrow> v = a" using in_range_page_self [OF a(1) v(1)] a(2) by simp
  have more: "in_range a (4096 * Suc k) v \<longleftrightarrow> v = a \<or> in_range (a + PGSIZE) (4096 * k) v"
    by (rule in_range_pages_Suc [OF a(1) v(1) a(2)])
  show "leaf m2 T2 v = (if in_range a (4096 * Suc k) v then PA2PTE (pa + (v - a)) OR perm OR PTE_V else leaf m T v)"
    using 1 2 v self more by (auto simp: mapped_def algebra_simps)
qed

lemma map_one:
  fixes s :: "'a kmem_state_scheme"
  assumes ok: "vm_ok s root T xs" and a: "page_aligned a" "a < MAXVA"
    and free: "\<not> valid_pte (leaf (pmem s) T a)"
  shows "\<exists>pte s1 T1 xs1. walk root a True s = Inr (pte, s1) \<and> vm_ok s1 root T1 xs1 \<and> length xs \<le> length xs1 + 2
    \<and> (pte = 0 \<and> xs1 = [] \<and> grows s T xs s1 T1 xs1
      \<or> pte \<noteq> 0 \<and> read64 (pmem s1) pte AND PTE_V = 0
        \<and> (\<exists>s2. s2 = s1\<lparr>pmem := write64 (pmem s1) pte (PA2PTE pa OR perm OR PTE_V)\<rparr> \<and> vm_ok s2 root T1 xs1
          \<and> extends s T xs s2 T1 xs1 \<and> mapped (pmem s) T a 1 pa perm (pmem s2) T1))"
proof -
  obtain pte s1 T1 xs1 where w: "walk_loop 2 root a True s = (pte, s1)" "vm_ok s1 root T1 xs1"
      "grows s T xs s1 T1 xs1" "length xs \<le> length xs1 + 2"
      "pte = 0 \<and> xs1 = [] \<or> (\<exists>t. T1 (pathof a) = Some t \<and> pte = pte_addr t (PX 0 a))"
    using walk_alloc [OF ok, of a] by blast
  have wk: "walk root a True s = Inr (pte, s1)" using w(1) a(2) by (simp add: walk_def)
  show ?thesis
  proof (cases "pte = 0")
    case True
    then have "xs1 = []"
      using w(5) pte_addr_nonzero vm_okD(8,9) [OF w(2), of "pathof a"] by force
    with True wk w show ?thesis by blast
  next
    case False
    then obtain t where t: "T1 (pathof a) = Some t" "pte = pte_addr t (PX 0 a)" using w(5) by blast
    let ?s2 = "s1\<lparr>pmem := write64 (pmem s1) pte (PA2PTE pa OR perm OR PTE_V)\<rparr>"
    note l = set_leaf [OF w(2) t(1), of ?s2 "PA2PTE pa OR perm OR PTE_V", unfolded t(2), OF refl, folded t(2)]
    have "read64 (pmem s1) pte = leaf (pmem s) T a"
      using growsD(3) [OF w(3), of a] t by (simp add: leaf_def)
    then have "read64 (pmem s1) pte AND PTE_V = 0" using free by (simp add: valid_pte_def)
    moreover have "mapped (pmem s) T a 1 pa perm (pmem ?s2) T1"
      unfolding mapped_def
    proof (intro allI impI)
      fix v assume v: "page_aligned v" "v < MAXVA"
      have "in_range a (4096 * 1) v \<longleftrightarrow> v = a"
        using in_range_page_self [OF a(1) v(1)] below_MAXVA_step(2) [OF a(2)] by simp
      then show "leaf (pmem ?s2) T1 v =
          (if in_range a (4096 * 1) v then PA2PTE (pa + (v - a)) OR perm OR PTE_V else leaf (pmem s) T v)"
        using l(3) [OF a v] growsD(3) [OF w(3), of v] by (simp split: if_splits)
    qed
    moreover have "extends s T xs ?s2 T1 xs1"
      by (rule extends_trans [OF grows_extends [OF w(3)] l(2)])
    ultimately show ?thesis using wk w(2,4) False l(1) by blast
  qed
qed

lemma map_one_cases:
  fixes s :: "'a kmem_state_scheme"
  assumes "vm_ok s root T xs" "page_aligned a" "a < MAXVA" "\<not> valid_pte (leaf (pmem s) T a)"
  obtains (out) s1 T1 where "mappages_loop root a lst pa perm s = Inr (- 1, s1)" "vm_ok s1 root T1 []"
      "extends s T xs s1 T1 []" "mapped (pmem s) T a 0 pa perm (pmem s1) T1" "length xs \<le> 2"
    | (more) s1 T1 xs1 where "mappages_loop root a lst pa perm s =
        (if a = lst then Inr (0, s1) else mappages_loop root (a + PGSIZE) lst (pa + PGSIZE) perm s1)"
      "vm_ok s1 root T1 xs1" "extends s T xs s1 T1 xs1" "mapped (pmem s) T a 1 pa perm (pmem s1) T1"
      "length xs \<le> length xs1 + 2"
proof -
  obtain pte s1 T1 xs1 where w: "walk root a True s = Inr (pte, s1)" "vm_ok s1 root T1 xs1"
      "length xs \<le> length xs1 + 2"
      "pte = 0 \<and> xs1 = [] \<and> grows s T xs s1 T1 xs1 \<or> pte \<noteq> 0 \<and> read64 (pmem s1) pte AND PTE_V = 0
        \<and> (\<exists>s2. s2 = s1\<lparr>pmem := write64 (pmem s1) pte (PA2PTE pa OR perm OR PTE_V)\<rparr> \<and> vm_ok s2 root T1 xs1
          \<and> extends s T xs s2 T1 xs1 \<and> mapped (pmem s) T a 1 pa perm (pmem s2) T1)"
    using map_one [OF assms] by metis
  show thesis
  proof (cases "pte = 0")
    case True
    then have "mappages_loop root a lst pa perm s = Inr (- 1, s1)"
      using w(1) by (subst mappages_loop.simps) simp
    moreover have "extends s T xs s1 T1 xs1" "mapped (pmem s) T a 0 pa perm (pmem s1) T1"
      using True w(4) grows_extends mapped_0 by blast+
    ultimately show thesis using out True w by simp
  next
    case False
    then obtain s2 where s2: "s2 = s1\<lparr>pmem := write64 (pmem s1) pte (PA2PTE pa OR perm OR PTE_V)\<rparr>"
        "vm_ok s2 root T1 xs1" "extends s T xs s2 T1 xs1" "mapped (pmem s) T a 1 pa perm (pmem s2) T1"
      using w(4) by blast
    moreover have "mappages_loop root a lst pa perm s =
        (if a = lst then Inr (0, s2) else mappages_loop root (a + PGSIZE) lst (pa + PGSIZE) perm s2)"
      using w False s2(1) by (subst mappages_loop.simps) simp
    ultimately show thesis using more w(3) by blast
  qed
qed

lemma mappages_loop_spec:
  fixes s :: "'a kmem_state_scheme"
  assumes "vm_ok s root T xs" "page_aligned a" "unat a + 4096 * Suc n \<le> 2 ^ 38"
    and "lst = a + of_nat (4096 * n)"
    and "\<And>v. page_aligned v \<Longrightarrow> in_range a (4096 * Suc n) v \<Longrightarrow> \<not> valid_pte (leaf (pmem s) T v)"
  shows "\<exists>r s' T' xs' k. mappages_loop root a lst pa perm s = Inr (r, s') \<and> vm_ok s' root T' xs'
    \<and> extends s T xs s' T' xs' \<and> mapped (pmem s) T a k pa perm (pmem s') T'
    \<and> (r = 0 \<and> k = Suc n \<or> r = - 1 \<and> k \<le> n \<and> xs' = [])
    \<and> length xs \<le> length xs' + 2 * Suc n"
  using assms
proof (induction n arbitrary: a pa s T xs)
  case 0
  have "a < MAXVA" using "0.prems"(3) by (simp add: MAXVA_eq word_less_nat_alt)
  moreover have "\<not> valid_pte (leaf (pmem s) T a)" using "0.prems"(2,5) by (simp add: in_range_def)
  ultimately show ?case
    by (rule map_one_cases [OF "0.prems"(1,2), of lst pa perm]) (use "0.prems"(4) in fastforce)+
next
  case (Suc n)
  have lt: "a < MAXVA" using Suc.prems(3) by (simp add: MAXVA_eq word_less_nat_alt)
  have up: "unat (a + PGSIZE) = unat a + 4096" by (rule below_MAXVA_step(1) [OF lt])
  have al: "page_aligned (a + PGSIZE)" using up Suc.prems(2) by (simp add: page_aligned_unat)
  have "4096 * Suc n < 2 ^ 64" using Suc.prems(3) by simp
  then have ne: "a \<noteq> lst"
    unfolding Suc.prems(4) using addr_eq_offset [of "4096 * Suc n" a a] by simp
  have "\<not> valid_pte (leaf (pmem s) T a)" using Suc.prems(2,5) by (simp add: in_range_def)
  with Suc.prems(1,2) lt show ?case
  proof (cases rule: map_one_cases [where lst = lst and pa = pa and perm = perm])
    case out
    then show ?thesis by fastforce
  next
    case (more s1 T1 xs1)
    have unmapped: "\<not> valid_pte (leaf (pmem s1) T1 v)"
      if v: "page_aligned v" "in_range (a + PGSIZE) (4096 * Suc n) v" for v
    proof -
      have r: "in_range a (4096 * Suc (Suc n)) v"
        using in_range_pages_Suc [OF Suc.prems(2) v(1), of "Suc n"] v(2) Suc.prems(3) by simp
      have "unat v = unat (a + PGSIZE) + unat (v - (a + PGSIZE))"
        using v(2) up Suc.prems(3) unat_add_lem [of "a + PGSIZE" "v - (a + PGSIZE)"]
        by (simp add: in_range_def)
      then have "v < MAXVA" and "v \<noteq> a"
        using v(2) up Suc.prems(3) by (auto simp: in_range_def MAXVA_eq word_less_nat_alt)
      moreover have "\<not> in_range a (4096 * 1) v"
        using in_range_page_self [OF Suc.prems(2) v(1)] Suc.prems(3) \<open>v \<noteq> a\<close> by simp
      ultimately show ?thesis
        using more(4) v(1) Suc.prems(5) [OF v(1) r] by (simp add: mapped_def)
    qed
    obtain r s2 T2 xs2 k where ih: "mappages_loop root (a + PGSIZE) lst (pa + PGSIZE) perm s1 = Inr (r, s2)"
        "vm_ok s2 root T2 xs2" "extends s1 T1 xs1 s2 T2 xs2"
        "mapped (pmem s1) T1 (a + PGSIZE) k (pa + PGSIZE) perm (pmem s2) T2"
        "r = 0 \<and> k = Suc n \<or> r = - 1 \<and> k \<le> n \<and> xs2 = []" "length xs1 \<le> length xs2 + 2 * Suc n"
      using Suc.IH [OF more(2) al _ _ unmapped, of "pa + PGSIZE"] up Suc.prems(3,4)
      by (auto simp: algebra_simps)
    have "mapped (pmem s) T a (Suc k) pa perm (pmem s2) T2"
      using Suc.prems(3) ih(5) by (intro mapped_Suc [OF Suc.prems(2) _ more(4) ih(4)]) auto
    moreover have "extends s T xs s2 T2 xs2" by (rule extends_trans [OF more(3) ih(3)])
    moreover have "mappages_loop root a lst pa perm s = Inr (r, s2)" using more(1) ne ih(1) by simp
    moreover have "r = 0 \<and> Suc k = Suc (Suc n) \<or> r = - 1 \<and> Suc k \<le> Suc n \<and> xs2 = []" using ih(5) by auto
    moreover have "length xs \<le> length xs2 + 2 * Suc (Suc n)" using ih(6) more(5) by simp
    ultimately show ?thesis using ih(2) by blast
  qed
qed

end
