(* ===== verification/VmUser.thy ===== *)
theory VmUser
  imports VmTree
begin

text \<open>
  User address spaces: what \<open>uvmunmap\<close>, \<open>uvmalloc\<close>, \<open>uvmdealloc\<close>, \<open>uvmcopy\<close>, \<open>uvmfree\<close> and the copy
  routines of \<^verbatim>\<open>kernel/vm.c\<close> do to the pages a process can see, and that they neither leak nor
  double-free pages.
\<close>

unbundle bit_operations_syntax

section \<open>Pages mapped at a set of addresses\<close>

definition frame_of :: "mem \<Rightarrow> ptree \<Rightarrow> u64 \<Rightarrow> addr" where
  "frame_of m T v = PTE2PA (leaf m T v)"

definition leaf_ok :: "'a kmem_state_scheme \<Rightarrow> ptree \<Rightarrow> addr list \<Rightarrow> u64 \<Rightarrow> bool" where
  "leaf_ok s T xs v \<longleftrightarrow>
     valid_pte (leaf (pmem s) T v) \<and> PTE_FLAGS (leaf (pmem s) T v) \<noteq> PTE_V \<and>
     page_ok s (frame_of (pmem s) T v) \<and> frame_of (pmem s) T v \<notin> set xs \<and>
     (\<forall>p. T p \<noteq> Some (frame_of (pmem s) T v))"

definition leaves_ok :: "'a kmem_state_scheme \<Rightarrow> ptree \<Rightarrow> addr list \<Rightarrow> u64 set \<Rightarrow> bool" where
  "leaves_ok s T xs A \<longleftrightarrow>
     (\<forall>v \<in> A. page_aligned v \<and> v < MAXVA \<and> leaf_ok s T xs v) \<and> inj_on (frame_of (pmem s) T) A"

text \<open>The page-aligned addresses of \<open>n\<close> pages from \<open>a\<close>.\<close>

definition vpages :: "u64 \<Rightarrow> nat \<Rightarrow> u64 set" where
  "vpages a n = {v. page_aligned v \<and> in_range a (4096 * n) v}"

lemma vpages_0 [simp]: "vpages a 0 = {}"
  by (simp add: vpages_def in_range_def)

lemma vpages_Suc:
  assumes "page_aligned a" "unat a + 4096 * Suc n < 2 ^ 64"
  shows "vpages a (Suc n) = insert a (vpages (a + PGSIZE) n)"
  using in_range_pages_Suc [OF assms(1) _ assms(2)] assms(1) by (auto simp: vpages_def)

lemma vpages_less:
  assumes "v \<in> vpages a n" "unat a + 4096 * n \<le> 2 ^ 38"
  shows "v < MAXVA" "a \<le> v" "unat v < unat a + 4096 * n"
proof -
  have r: "unat (v - a) < 4096 * n" using assms(1) by (simp add: vpages_def in_range_def)
  have "unat (a + (v - a)) = unat a + unat (v - a)"
    using r assms(2) by (intro unat_add_lem [THEN iffD1]) simp
  then have "unat v = unat a + unat (v - a)" by simp
  with r assms(2) show "v < MAXVA" "a \<le> v" "unat v < unat a + 4096 * n"
    by (auto simp: MAXVA_eq word_less_nat_alt word_le_nat_alt)
qed

lemma leaf_ok_table:
  assumes "leaf_ok s T xs v"
  shows "\<exists>t. T (pathof v) = Some t"
  using assms by (cases "T (pathof v)") (auto simp: leaf_ok_def leaf_def valid_pte_def)

lemma walk_valid:
  assumes "vm_ok s root T xs" "v < MAXVA" "T (pathof v) = Some t"
  shows "walk root v False s = Inr (pte_addr t (PX 0 v), s)" "pte_addr t (PX 0 v) \<noteq> 0"
    "read64 (pmem s) (pte_addr t (PX 0 v)) = leaf (pmem s) T v"
  using assms walk_lookup [OF assms(1), of v] pte_addr_nonzero [OF vm_okD(8,9) [OF assms(1,3)]]
  by (simp_all add: walk_def leaf_def)

section \<open>Unmapping\<close>

lemma vm_ok_only_page:
  assumes ok: "vm_ok s root T xs" and only: "only_page pa s s'" and pa: "page_aligned pa" "\<And>p. T p \<noteq> Some pa"
    and inv: "kmem_inv s' xs'" and xs': "set xs' \<subseteq> insert pa (set xs)"
  shows "vm_ok s' root T xs'" "leaf (pmem s') T v = leaf (pmem s) T v"
proof -
  have same: "pmem s' x = pmem s x" if "owned T x" for x
  proof -
    from that obtain p t where t: "T p = Some t" "in_page t x" by (auto simp: owned_def)
    then have "\<not> in_page pa x"
      using in_page_unique [of pa t x] pa vm_okD(8) [OF ok t(1)] by auto
    with only show ?thesis by (simp add: only_page_def)
  qed
  show "leaf (pmem s') T v = leaf (pmem s) T v" by (rule leaf_frame) (rule same)
  have "t \<notin> set xs'" if "T p = Some t" for p t
    using that vm_okD(7) [OF ok that] pa(2) xs' by auto
  then show "vm_ok s' root T xs'"
    using ok inv entries_ok_frame [OF vm_okD(4) [OF ok] same] only_page_fields [OF only]
    by (auto simp: vm_ok_def)
qed

lemma vm_ok_kfree:
  fixes s :: "'a kmem_state_scheme"
  assumes ok: "vm_ok s root T xs" and pa: "page_ok s pa" "pa \<notin> set xs" "\<And>p. T p \<noteq> Some pa"
  shows "\<exists>s1. kfree pa s = Inr s1 \<and> vm_ok s1 root T (pa # xs) \<and> only_page pa s s1
    \<and> (\<forall>v. leaf (pmem s1) T v = leaf (pmem s) T v)"
proof -
  obtain s1 where s1: "kfree pa s = Inr s1" "kmem_inv s1 (pa # xs)" "only_page pa s s1"
    using kfree_spec [OF vm_okD(1) [OF ok] pa(1,2)] by blast
  have "page_aligned pa" using pa(1) by (simp add: page_ok_def)
  note v = vm_ok_only_page [OF ok s1(3) this pa(3) s1(2)]
  show ?thesis using s1 v by auto
qed

lemma vm_ok_kalloc:
  fixes s :: "'a kmem_state_scheme"
  assumes ok: "vm_ok s root T (c # xs)"
  shows "\<exists>s1. kalloc s = (c, s1) \<and> vm_ok s1 root T xs \<and> only_page c s s1
    \<and> (\<forall>v. leaf (pmem s1) T v = leaf (pmem s) T v)"
    "page_ok s c" "c \<noteq> 0" "c \<notin> set xs" "\<And>p. T p \<noteq> Some c" "page_aligned c"
proof -
  note k = vm_okD(1) [OF ok]
  obtain s1 where s1: "kalloc s = (c, s1)" "kmem_inv s1 xs" "only_page c s s1"
    using kalloc_spec [OF k] by blast
  show c: "page_ok s c" "c \<notin> set xs" "page_aligned c" "c \<noteq> 0"
    using k kmem.avail_usable [OF k, of c] by (auto simp: kmem_inv_def)
  show new: "T p \<noteq> Some c" for p using vm_okD(7) [OF ok, of p c] by auto
  note v = vm_ok_only_page [OF ok s1(3) c(3) new s1(2)]
  show "\<exists>s1. kalloc s = (c, s1) \<and> vm_ok s1 root T xs \<and> only_page c s s1
    \<and> (\<forall>v. leaf (pmem s1) T v = leaf (pmem s) T v)" using s1 v by auto
qed

lemma only_page_trans: "only_page p s s1 \<Longrightarrow> only_page p s1 s2 \<Longrightarrow> only_page p s s2"
  using kmem_only_trans [of s s1 s2] by (simp add: only_page_def)

lemma only_page_write:
  assumes "\<And>x. \<not> in_page p x \<Longrightarrow> m x = pmem s x"
  shows "only_page p s (s\<lparr>pmem := m\<rparr>)"
  using assms by (simp add: only_page_def kmem_only_pmem)

text \<open>A write to a page that is neither free nor a table.\<close>

lemma vm_ok_write_page:
  fixes s :: "'a kmem_state_scheme"
  assumes ok: "vm_ok s root T xs" and pa: "page_ok s pa" "pa \<notin> set xs" "\<And>p. T p \<noteq> Some pa"
    and m: "\<And>x. \<not> in_page pa x \<Longrightarrow> m x = pmem s x"
  shows "vm_ok (s\<lparr>pmem := m\<rparr>) root T xs" "leaf m T v = leaf (pmem s) T v"
proof -
  have al: "page_aligned pa" using pa(1) by (simp add: page_ok_def)
  have "kmem_inv (s\<lparr>pmem := m\<rparr>) xs"
  proof (rule kmem_inv_frame [OF vm_okD(1) [OF ok]])
    fix q x assume q: "q \<in> set xs" "in_page q x"
    then have "page_ok s q" "q \<noteq> pa" using vm_okD(1) [OF ok] pa(2) by (auto simp: kmem_inv_def)
    then show "m x = pmem s x" using m in_page_other [OF pa(1) _ _ q(2)] by blast
  qed
  note v = vm_ok_only_page [OF ok only_page_write [OF m] al pa(3) this]
  show "vm_ok (s\<lparr>pmem := m\<rparr>) root T xs" "leaf m T v = leaf (pmem s) T v" using v by auto
qed

text \<open>
  Memory is unchanged outside the tables and the pages in \<open>fs\<close>.
\<close>

definition touches :: "ptree \<Rightarrow> addr set \<Rightarrow> 'a kmem_state_scheme \<Rightarrow> 'a kmem_state_scheme \<Rightarrow> bool" where
  "touches T F s s' \<longleftrightarrow>
     (\<forall>x. \<not> owned T x \<longrightarrow> (\<forall>q \<in> F. \<not> in_page q x) \<longrightarrow> pmem s' x = pmem s x) \<and> kmem_only s s'"

lemma touches_refl [simp]: "touches T F s s"
  by (simp add: touches_def)

lemma touches_trans: "touches T F s s1 \<Longrightarrow> touches T G s1 s2 \<Longrightarrow> touches T (F \<union> G) s s2"
  using kmem_only_trans [of s s1 s2] by (simp add: touches_def)

lemma unmap_one:
  fixes s :: "'a kmem_state_scheme"
  assumes ok: "vm_ok s root T xs" and v: "page_aligned v" "v < MAXVA" and l: "leaf_ok s T xs v"
  shows "\<exists>s1. uvmunmap_loop root v lim True s =
      (if v < lim then uvmunmap_loop root (v + PGSIZE) lim True s1 else Inr s)
    \<and> vm_ok s1 root T (frame_of (pmem s) T v # xs) \<and> touches T {frame_of (pmem s) T v} s s1
    \<and> (\<forall>w. page_aligned w \<longrightarrow> w < MAXVA \<longrightarrow>
        leaf (pmem s1) T w = (if w = v then 0 else leaf (pmem s) T w))"
proof -
  obtain t where t: "T (pathof v) = Some t" using leaf_ok_table [OF l] by blast
  note w = walk_valid [OF ok v(2) t]
  let ?pa = "frame_of (pmem s) T v" and ?pte = "pte_addr t (PX 0 v)"
  obtain s1 where s1: "kfree ?pa s = Inr s1" "vm_ok s1 root T (?pa # xs)" "only_page ?pa s s1"
      "\<And>w. leaf (pmem s1) T w = leaf (pmem s) T w"
    using vm_ok_kfree [OF ok, of ?pa] l by (auto simp: leaf_ok_def)
  let ?s2 = "s1\<lparr>pmem := write64 (pmem s1) ?pte 0\<rparr>"
  note sl = set_leaf [OF s1(2) t refl, where e = 0]
  have "uvmunmap_loop root v lim True s =
      (if v < lim then uvmunmap_loop root (v + PGSIZE) lim True ?s2 else Inr s)"
    using w l s1(1) by (subst uvmunmap_loop.simps) (simp add: leaf_ok_def valid_pte_def frame_of_def)
  moreover have "touches T {?pa} s ?s2"
    using s1(3) extendsD(3,4) [OF sl(2)] kmem_only_trans [of s s1 ?s2]
    by (auto simp: touches_def only_page_def)
  moreover have "leaf (pmem ?s2) T w = (if w = v then 0 else leaf (pmem s) T w)"
    if "page_aligned w" "w < MAXVA" for w
    using sl(3) [OF v that] s1(4) by simp
  ultimately show ?thesis using sl(1) by blast
qed

text \<open>The frames of \<open>n\<close> pages from \<open>a\<close>, in the order \<open>uvmunmap\<close> puts them on the free list.\<close>

fun frames :: "mem \<Rightarrow> ptree \<Rightarrow> u64 \<Rightarrow> nat \<Rightarrow> addr list" where
  "frames m T a 0 = []"
| "frames m T a (Suc n) = frames m T (a + PGSIZE) n @ [frame_of m T a]"

lemma set_frames:
  assumes "page_aligned a" "unat a + 4096 * n < 2 ^ 64"
  shows "set (frames m T a n) = frame_of m T ` vpages a n"
  using assms
proof (induction n arbitrary: a)
  case (Suc n)
  have up: "page_aligned (a + PGSIZE)" "unat (a + PGSIZE) = unat a + 4096"
    using page_aligned_next Suc.prems by auto
  have "set (frames m T (a + PGSIZE) n) = frame_of m T ` vpages (a + PGSIZE) n"
    by (rule Suc.IH) (use up Suc.prems in auto)
  then show ?case using vpages_Suc [OF Suc.prems] by simp
qed simp

lemma frames_cong:
  "page_aligned a \<Longrightarrow> unat a + 4096 * n < 2 ^ 64 \<Longrightarrow>
    (\<And>v. v \<in> vpages a n \<Longrightarrow> leaf m' T' v = leaf m T v) \<Longrightarrow> frames m' T' a n = frames m T a n"
proof (induction n arbitrary: a)
  case (Suc n)
  have up: "page_aligned (a + PGSIZE)" "unat (a + PGSIZE) = unat a + 4096"
    using page_aligned_next Suc.prems by auto
  have "frames m' T' (a + PGSIZE) n = frames m T (a + PGSIZE) n"
    by (rule Suc.IH) (use up Suc.prems vpages_Suc [OF Suc.prems(1,2)] in auto)
  moreover have "frame_of m' T' a = frame_of m T a"
    using Suc.prems(3) vpages_Suc [OF Suc.prems(1,2)] by (simp add: frame_of_def)
  ultimately show ?case by simp
qed simp

lemma vpages_not_before:
  assumes "page_aligned a" "unat a + 4096 * Suc n < 2 ^ 64"
  shows "a \<notin> vpages (a + PGSIZE) n"
proof
  assume "a \<in> vpages (a + PGSIZE) n"
  then have "unat (- PGSIZE) < 4096 * n" by (simp add: vpages_def in_range_def)
  moreover have "unat (- PGSIZE :: u64) = 2 ^ 64 - 4096" by simp
  ultimately show False using assms(2) by simp
qed

lemma leaves_ok_after_free:
  assumes l: "leaves_ok s T xs (insert a B)" "a \<notin> B" and t: "kmem_only s s1"
    and eq: "\<And>v. v \<in> B \<Longrightarrow> leaf (pmem s1) T v = leaf (pmem s) T v"
  shows "leaves_ok s1 T (frame_of (pmem s) T a # xs) B"
proof -
  have f: "frame_of (pmem s1) T v = frame_of (pmem s) T v" if "v \<in> B" for v
    using eq that by (simp add: frame_of_def)
  have inj: "inj_on (frame_of (pmem s) T) (insert a B)" using l(1) by (simp add: leaves_ok_def)
  have "frame_of (pmem s) T v \<noteq> frame_of (pmem s) T a" if "v \<in> B" for v
    using inj_onD [OF inj, of v a] that l(2) by auto
  moreover have "inj_on (frame_of (pmem s1) T) B"
    using inj f by (simp add: inj_on_def)
  ultimately show ?thesis
    using l(1) f eq kmem_only_fields(3) [OF t]
    by (auto simp: leaves_ok_def leaf_ok_def)
qed

lemma uvmunmap_loop_spec:
  fixes s :: "'a kmem_state_scheme"
  assumes "vm_ok s root T xs" "page_aligned a" "unat a + 4096 * n \<le> 2 ^ 38"
    and "lim = a + of_nat (4096 * n)" and "leaves_ok s T xs (vpages a n)"
  shows "\<exists>s'. uvmunmap_loop root a lim True s = Inr s' \<and> vm_ok s' root T (frames (pmem s) T a n @ xs)
    \<and> touches T (frame_of (pmem s) T ` vpages a n) s s'
    \<and> (\<forall>v. page_aligned v \<longrightarrow> v < MAXVA \<longrightarrow>
        leaf (pmem s') T v = (if v \<in> vpages a n then 0 else leaf (pmem s) T v))"
  using assms
proof (induction n arbitrary: a s xs)
  case 0
  then have "uvmunmap_loop root a lim True s = Inr s" by (subst uvmunmap_loop.simps) simp
  with 0 show ?case by simp
next
  case (Suc n)
  let ?b = "a + PGSIZE"
  have b: "unat a + 4096 * Suc n < 2 ^ 64" using Suc.prems(3) by simp
  have up: "page_aligned ?b" "unat ?b = unat a + 4096"
    using page_aligned_next Suc.prems(2) b by auto
  note vs = vpages_Suc [OF Suc.prems(2) b] and nb = vpages_not_before [OF Suc.prems(2) b]
  have "unat lim = unat a + 4096 * Suc n"
    unfolding Suc.prems(4) using b by (rule unat_add_of_nat)
  then have lt: "a < lim" and am: "a < MAXVA"
    using Suc.prems(3) by (auto simp: word_less_nat_alt MAXVA_eq)
  have "leaf_ok s T xs a" using Suc.prems(5) vs by (simp add: leaves_ok_def)
  then obtain s1 where s1: "uvmunmap_loop root a lim True s = uvmunmap_loop root ?b lim True s1"
      "vm_ok s1 root T (frame_of (pmem s) T a # xs)" "touches T {frame_of (pmem s) T a} s s1"
      "\<And>w. page_aligned w \<Longrightarrow> w < MAXVA \<Longrightarrow> leaf (pmem s1) T w = (if w = a then 0 else leaf (pmem s) T w)"
    using unmap_one [OF Suc.prems(1,2) am] lt by metis
  have keep: "leaf (pmem s1) T v = leaf (pmem s) T v" if "v \<in> vpages ?b n" for v
    using that s1(4) [of v] nb vpages_less(1) [OF that] up Suc.prems(3) by (auto simp: vpages_def)
  have l1: "leaves_ok s1 T (frame_of (pmem s) T a # xs) (vpages ?b n)"
    using Suc.prems(5) nb s1(3) keep unfolding vs
    by (intro leaves_ok_after_free) (auto simp: touches_def)
  obtain s2 where s2: "uvmunmap_loop root ?b lim True s1 = Inr s2"
      "vm_ok s2 root T (frames (pmem s1) T ?b n @ frame_of (pmem s) T a # xs)"
      "touches T (frame_of (pmem s1) T ` vpages ?b n) s1 s2"
      "\<And>v. page_aligned v \<Longrightarrow> v < MAXVA \<Longrightarrow>
        leaf (pmem s2) T v = (if v \<in> vpages ?b n then 0 else leaf (pmem s1) T v)"
    using Suc.IH [OF s1(2) up(1) _ _ l1] up Suc.prems(3,4) by (auto simp: algebra_simps)
  have "frame_of (pmem s1) T ` vpages ?b n = frame_of (pmem s) T ` vpages ?b n"
    using keep by (auto simp: frame_of_def)
  then have "touches T (frame_of (pmem s) T ` vpages a (Suc n)) s s2"
    using touches_trans [OF s1(3) s2(3)] unfolding vs by simp
  moreover have "frames (pmem s1) T ?b n = frames (pmem s) T ?b n"
    using up b keep by (intro frames_cong) auto
  moreover have "leaf (pmem s2) T v = (if v \<in> vpages a (Suc n) then 0 else leaf (pmem s) T v)"
    if "page_aligned v" "v < MAXVA" for v
    using s1(4) [OF that] s2(4) [OF that] by (auto simp: vs)
  ultimately show ?case using s1(1) s2(1,2) by auto
qed

lemma leaves_ok_extends:
  assumes l: "leaves_ok s T L A" and e: "extends s T xs s' T' xs'"
    and eq: "\<And>v. v \<in> A \<Longrightarrow> leaf (pmem s') T' v = leaf (pmem s) T v"
    and L: "set xs \<subseteq> set L" "set L' \<subseteq> set L"
  shows "leaves_ok s' T' L' A"
proof -
  have f: "frame_of (pmem s') T' v = frame_of (pmem s) T v" if "v \<in> A" for v
    using eq that by (simp add: frame_of_def)
  have "inj_on (frame_of (pmem s') T') A" using l f by (simp add: leaves_ok_def inj_on_def)
  moreover have "leaf_ok s' T' L' v" if v: "v \<in> A" for v
  proof -
    have l': "leaf_ok s T L v" using l v by (simp add: leaves_ok_def)
    have "T' p \<noteq> Some (frame_of (pmem s) T v)" for p
      using l' extendsD(2) [OF e, of p] L(1) by (auto simp: leaf_ok_def)
    then show ?thesis
      using l' f [OF v] eq [OF v] kmem_only_fields(3) [OF extendsD(4) [OF e]] L(2)
      by (auto simp: leaf_ok_def)
  qed
  ultimately show ?thesis using l by (simp add: leaves_ok_def)
qed

section \<open>Growing and shrinking\<close>

text \<open>The number of pages that cover \<open>sz\<close> bytes.\<close>

definition npg :: "u64 \<Rightarrow> nat" where
  "npg sz = (unat sz + 4095) div 4096"

lemma unat_PGROUNDUP_npg: "unat sz \<le> 2 ^ 38 \<Longrightarrow> unat (PGROUNDUP sz) = 4096 * npg sz"
  by (simp add: unat_PGROUNDUP npg_def)

lemma PGROUNDUP_self:
  assumes "page_aligned a" "unat a \<le> 2 ^ 38"
  shows "PGROUNDUP a = a"
proof -
  obtain k where k: "unat a = 4096 * k" using assms(1) by (auto simp: page_aligned_unat)
  then have "npg a = k" by (simp add: npg_def)
  then have "unat (PGROUNDUP a) = unat a" using unat_PGROUNDUP_npg [OF assms(2)] k by simp
  then show ?thesis by (rule unsigned_word_eqI)
qed

lemma uvmdealloc_spec:
  fixes s :: "'a kmem_state_scheme"
  assumes ok: "vm_ok s root T xs" and sz: "newsz \<le> oldsz" "unat oldsz \<le> 2 ^ 38 - 4096"
    and l: "leaves_ok s T xs (vpages (PGROUNDUP newsz) (npg oldsz - npg newsz))"
  shows "\<exists>s'. uvmdealloc root oldsz newsz s = Inr (newsz, s')
    \<and> vm_ok s' root T (frames (pmem s) T (PGROUNDUP newsz) (npg oldsz - npg newsz) @ xs)
    \<and> touches T (frame_of (pmem s) T ` vpages (PGROUNDUP newsz) (npg oldsz - npg newsz)) s s'
    \<and> (\<forall>v. page_aligned v \<longrightarrow> v < MAXVA \<longrightarrow> leaf (pmem s') T v =
        (if v \<in> vpages (PGROUNDUP newsz) (npg oldsz - npg newsz) then 0 else leaf (pmem s) T v))"
proof -
  have old: "unat (PGROUNDUP oldsz) = 4096 * npg oldsz" and le: "unat newsz \<le> unat oldsz"
    using sz by (auto intro: unat_PGROUNDUP_npg simp: word_le_nat_alt)
  then have new: "unat (PGROUNDUP newsz) = 4096 * npg newsz" using sz by (intro unat_PGROUNDUP_npg) simp
  have mono: "npg newsz \<le> npg oldsz" using le by (simp add: npg_def div_le_mono)
  have bound: "4096 * npg oldsz \<le> 2 ^ 38"
    using sz(2) div_times_less_eq_dividend [of "unat oldsz + 4095" 4096] by (simp add: npg_def)
  show ?thesis
  proof (cases "npg newsz < npg oldsz")
    case False
    then have "uvmdealloc root oldsz newsz s = Inr (newsz, s)"
      using mono old new sz(1) by (auto simp: uvmdealloc_def word_less_nat_alt)
    with False ok show ?thesis by simp
  next
    case True
    let ?n = "npg oldsz - npg newsz" and ?a = "PGROUNDUP newsz"
    have "PGROUNDUP newsz \<le> PGROUNDUP oldsz" using True old new by (simp add: word_le_nat_alt)
    then have "unat ((PGROUNDUP oldsz - ?a) div PGSIZE) = ?n"
      using old new by (simp add: unat_div unat_sub flip: diff_mult_distrib2)
    then have "(PGROUNDUP oldsz - ?a) div PGSIZE = of_nat ?n" by (rule eq_of_natI)
    moreover have "(of_nat ?n :: u64) < 2 ^ 31"
      using bound by (simp add: word_less_nat_alt unat_of_nat)
    then have "scast (ucast (of_nat ?n :: u64) :: u32) = (of_nat ?n :: u64)"
      by (rule scast_ucast_small)
    moreover have "\<not> newsz \<ge> oldsz" "?a < PGROUNDUP oldsz"
      using True le old new by (auto simp: word_less_nat_alt word_le_nat_alt npg_def)
    moreover have "?a + of_nat ?n * PGSIZE = ?a + of_nat (4096 * ?n)" by simp
    ultimately have "uvmdealloc root oldsz newsz s =
        bnd (uvmunmap_loop root ?a (?a + of_nat (4096 * ?n)) True s) (\<lambda>s. Inr (newsz, s))"
      using PGROUNDUP_aligned [of newsz]
      by (simp add: uvmdealloc_def uvmunmap_def page_aligned_def mult.commute)
    moreover have "unat ?a + 4096 * ?n \<le> 2 ^ 38" using new bound True by (simp add: algebra_simps)
    ultimately show ?thesis
      using uvmunmap_loop_spec [OF ok PGROUNDUP_aligned _ refl l] by auto
  qed
qed

text \<open>
  The state of \<open>uvmalloc\<close> after \<open>j\<close> new pages from \<open>b\<close>, relative to the state \<open>s0\<close> it was called
  in: the new pages are mapped with the given permissions to zeroed frames taken from the free
  list, nothing else is remapped, and every page is accounted for.
\<close>

definition grown ::
    "'a kmem_state_scheme \<Rightarrow> ptree \<Rightarrow> addr list \<Rightarrow> u64 \<Rightarrow> nat \<Rightarrow> u64 \<Rightarrow>
     'a kmem_state_scheme \<Rightarrow> ptree \<Rightarrow> addr list \<Rightarrow> bool" where
  "grown s0 T0 xs0 b j perm s T xs \<longleftrightarrow>
     leaves_ok s T xs (vpages b j) \<and>
     (\<forall>v \<in> vpages b j. leaf (pmem s) T v = PA2PTE (frame_of (pmem s) T v) OR perm OR PTE_V \<and>
        (\<forall>x. in_page (frame_of (pmem s) T v) x \<longrightarrow> pmem s x = 0)) \<and>
     (\<forall>v. page_aligned v \<longrightarrow> v < MAXVA \<longrightarrow> v \<notin> vpages b j \<longrightarrow> leaf (pmem s) T v = leaf (pmem s0) T0 v) \<and>
     T0 \<subseteq>\<^sub>m T \<and> touches T0 (set xs0) s0 s \<and>
     ran T0 \<union> set xs0 = ran T \<union> set xs \<union> frame_of (pmem s) T ` vpages b j"

lemma grown_refl: "grown s T xs b 0 perm s T xs"
  by (simp add: grown_def leaves_ok_def)

lemma grown_accounted:
  assumes "grown s0 T0 xs0 b j perm s T xs" "vm_ok s0 root T0 xs0"
  shows "set xs \<subseteq> ran T0 \<union> set xs0" "ran T \<subseteq> ran T0 \<union> set xs0" "kmem_only s0 s"
  using assms by (auto simp: grown_def touches_def)

lemma ran_iff: "t \<in> ran T \<longleftrightarrow> (\<exists>p. T p = Some t)"
  by (auto simp: ran_def)

lemma owned_ran: "owned T x \<longleftrightarrow> (\<exists>q \<in> ran T. in_page q x)"
  by (auto simp: owned_def ran_def)

lemma frame_of_new:
  assumes "page_aligned c" "c < 2 ^ 56" "perm < 1024"
  shows "PTE2PA (PA2PTE c OR perm OR PTE_V) = c" "valid_pte (PA2PTE c OR perm OR PTE_V)"
    "PTE_FLAGS (PA2PTE c OR perm OR PTE_V) = perm OR PTE_V"
proof -
  have lt: "perm OR PTE_V < 1024" using or_small [of perm 10 PTE_V] assms(3) by simp
  show "PTE2PA (PA2PTE c OR perm OR PTE_V) = c"
    using PTE2PA_PA2PTE [OF assms(1,2) lt] by (simp add: or.assoc)
  show "PTE_FLAGS (PA2PTE c OR perm OR PTE_V) = perm OR PTE_V"
    using PTE_FLAGS_PA2PTE [OF lt] by (simp add: or.assoc)
  have "(PA2PTE c OR (perm OR PTE_V)) AND PTE_V = (perm OR PTE_V) AND PTE_V"
    by (rule PA2PTE_and_low) simp
  also have "\<dots> \<noteq> 0" by (simp add: bit.conj_disj_distrib2)
  finally show "valid_pte (PA2PTE c OR perm OR PTE_V)" by (simp add: valid_pte_def or.assoc)
qed

lemma grownD:
  assumes "grown s0 T0 xs0 b j perm s T xs"
  shows "leaves_ok s T xs (vpages b j)"
    "v \<in> vpages b j \<Longrightarrow> leaf (pmem s) T v = PA2PTE (frame_of (pmem s) T v) OR perm OR PTE_V"
    "v \<in> vpages b j \<Longrightarrow> in_page (frame_of (pmem s) T v) x \<Longrightarrow> pmem s x = 0"
    "page_aligned v \<Longrightarrow> v < MAXVA \<Longrightarrow> v \<notin> vpages b j \<Longrightarrow> leaf (pmem s) T v = leaf (pmem s0) T0 v"
    "T0 \<subseteq>\<^sub>m T" "touches T0 (set xs0) s0 s"
    "ran T0 \<union> set xs0 = ran T \<union> set xs \<union> frame_of (pmem s) T ` vpages b j" "kmem_only s0 s"
  using assms by (auto simp: grown_def touches_def)

lemma leaves_ok_frame_other:
  assumes "leaves_ok s T xs A" "v \<in> A" "in_page (frame_of (pmem s) T v) x"
    and "page_aligned c" "c \<in> set xs \<or> (\<exists>p. T p = Some c)"
  shows "\<not> in_page c x"
proof
  assume "in_page c x"
  moreover have "page_aligned (frame_of (pmem s) T v)" by (simp add: frame_of_def)
  ultimately have "c = frame_of (pmem s) T v" using assms(3,4) in_page_unique by blast
  with assms(1,2,5) show False by (auto simp: leaves_ok_def leaf_ok_def)
qed

lemma grown_only_page:
  assumes g: "grown s0 T0 xs0 b j perm s T xs" and o: "only_page c s s'"
    and c: "c \<in> set xs" "page_aligned c" and eq: "\<And>v. leaf (pmem s') T v = leaf (pmem s) T v"
  shows "grown s0 T0 xs0 b j perm s' T xs"
proof -
  have f: "frame_of (pmem s') T = frame_of (pmem s) T" by (simp add: frame_of_def eq fun_eq_iff)
  have "leaves_ok s' T xs (vpages b j)"
    using grownD(1) [OF g] eq f only_page_fields(3) [OF o] by (simp add: leaves_ok_def leaf_ok_def)
  moreover have "pmem s' x = 0" if v: "v \<in> vpages b j" "in_page (frame_of (pmem s') T v) x" for v x
  proof -
    have "\<not> in_page c x" using leaves_ok_frame_other [OF grownD(1) [OF g]] v c unfolding f by blast
    then show ?thesis using grownD(3) [OF g v(1)] v(2) o unfolding f by (simp add: only_page_def)
  qed
  moreover have "touches T0 (set xs0) s0 s'"
  proof -
    have "c \<in> ran T0 \<union> set xs0" using grownD(7) [OF g] c by auto
    then have "\<not> in_page c x" if "\<not> owned T0 x" "\<forall>q \<in> set xs0. \<not> in_page q x" for x
      using that by (auto simp: ran_iff owned_def)
    then show ?thesis
      using grownD(6) [OF g] o kmem_only_trans [of s0 s s'] by (simp add: touches_def only_page_def)
  qed
  ultimately show ?thesis
    using grownD(2,4,5,7) [OF g] eq f by (simp add: grown_def)
qed

text \<open>Tables are added while page \<open>c\<close> is held.\<close>

lemma grown_extends:
  assumes g: "grown s0 T0 xs0 b j perm s T (c # ys)" and e: "extends s T ys s' T' ys'"
    and al: "\<And>q. q \<in> ran T' \<Longrightarrow> page_aligned q"
    and eq: "\<And>v. v \<in> vpages b j \<Longrightarrow> leaf (pmem s') T' v = leaf (pmem s) T v"
  shows "leaves_ok s' T' (c # ys') (vpages b j)"
    "v \<in> vpages b j \<Longrightarrow> frame_of (pmem s') T' v = frame_of (pmem s) T v"
    "v \<in> vpages b j \<Longrightarrow> in_page (frame_of (pmem s) T v) x \<Longrightarrow> pmem s' x = 0"
    "T0 \<subseteq>\<^sub>m T'" "touches T0 (set xs0) s0 s'"
    "ran T0 \<union> set xs0 = ran T' \<union> set (c # ys') \<union> frame_of (pmem s) T ` vpages b j"
proof -
  show l': "leaves_ok s' T' (c # ys') (vpages b j)"
    by (rule leaves_ok_extends [OF grownD(1) [OF g] e eq]) (use extendsD(6) [OF e] in auto)
  show f: "frame_of (pmem s') T' v = frame_of (pmem s) T v" if "v \<in> vpages b j" for v
    using eq that by (simp add: frame_of_def)
  show "pmem s' x = 0" if v: "v \<in> vpages b j" "in_page (frame_of (pmem s) T v) x" for v x
  proof -
    have "\<not> owned T' x"
      using leaves_ok_frame_other [OF l' v(1)] v(2) f [OF v(1)] al by (auto simp: owned_def ran_iff)
    then show ?thesis using extendsD(3) [OF e] grownD(3) [OF g v] by simp
  qed
  show "T0 \<subseteq>\<^sub>m T'" using grownD(5) [OF g] e by (auto simp: extends_def intro: map_le_trans)
  have T': "ran T' \<subseteq> ran T \<union> set ys" using extendsD(2) [OF e] unfolding ran_def by blast
  show acc: "ran T0 \<union> set xs0 = ran T' \<union> set (c # ys') \<union> frame_of (pmem s) T ` vpages b j"
    using grownD(7) [OF g] T' extendsD(6,8,9) [OF e] by auto
  have "\<not> owned T' x" if "\<not> owned T0 x" "\<forall>q \<in> set xs0. \<not> in_page q x" for x
    using that acc unfolding owned_ran by blast
  then show "touches T0 (set xs0) s0 s'"
    using grownD(6) [OF g] extendsD(3) [OF e] kmem_only_trans [OF grownD(8) [OF g] extendsD(4) [OF e]]
    by (simp add: touches_def)
qed

lemma vpages_end:
  assumes "page_aligned b" "unat b + 4096 * Suc j < 2 ^ 64"
  shows "vpages b (Suc j) = insert (b + of_nat (4096 * j)) (vpages b j)"
    "b + of_nat (4096 * j) \<notin> vpages b j"
proof -
  have eq: "in_range b (4096 * Suc j) v \<longleftrightarrow> v = b + of_nat (4096 * j) \<or> in_range b (4096 * j) v"
    if v: "page_aligned v" for v
  proof -
    have "unat (v - b) mod 4096 = 0"
      using page_aligned_diff [OF v assms(1)] by (simp add: page_aligned_unat)
    then obtain k where "unat (v - b) = 4096 * k" by (auto elim!: dvdE)
    moreover have "4096 * j < 2 ^ 64" using assms(2) by simp
    ultimately show ?thesis
      unfolding addr_eq_offset [OF \<open>4096 * j < 2 ^ 64\<close>] by (auto simp: in_range_def)
  qed
  have j: "4096 * j < 2 ^ 64" using assms(2) by simp
  have al: "page_aligned (b + of_nat (4096 * j))"
    using unat_add_of_nat [of b "4096 * j"] assms by (simp add: page_aligned_unat)
  show "vpages b (Suc j) = insert (b + of_nat (4096 * j)) (vpages b j)"
    using eq al by (auto simp: vpages_def)
  show "b + of_nat (4096 * j) \<notin> vpages b j"
    using j by (simp add: vpages_def in_range_def unat_of_nat del: of_nat_mult)
qed

lemma grown_map:
  fixes s :: "'a kmem_state_scheme"
  assumes g: "grown s0 T0 xs0 b j perm s T (c # ys)" and ok': "vm_ok s' root T' ys'"
    and e: "extends s T ys s' T' ys'" and m: "mapped (pmem s) T a 1 c perm (pmem s') T'"
    and b: "page_aligned b" "unat b + 4096 * Suc j \<le> 2 ^ 38" and a: "a = b + of_nat (4096 * j)"
    and c: "page_ok s c" "c \<notin> set ys" "\<And>p. T p \<noteq> Some c"
    and perm: "perm < 1024" "perm OR PTE_V \<noteq> PTE_V" and zero: "\<And>x. in_page c x \<Longrightarrow> pmem s x = 0"
  shows "grown s0 T0 xs0 b (Suc j) perm s' T' ys'"
proof -
  have b': "unat b + 4096 * Suc j < 2 ^ 64" using b(2) by simp
  note vs = vpages_end [OF b(1) b', folded a]
  have a': "a \<in> vpages b (Suc j)" using vs by simp
  then have al: "page_aligned a" "a < MAXVA" using vpages_less(1) [OF _ b(2)] by (auto simp: vpages_def)
  have leaf': "leaf (pmem s') T' v = (if v = a then PA2PTE c OR perm OR PTE_V else leaf (pmem s) T v)"
    if "page_aligned v" "v < MAXVA" for v
    using m that in_range_page_self [OF al(1) that(1)] below_MAXVA_step(2) [OF al(2)]
    by (auto simp: mapped_def)
  have keep: "leaf (pmem s') T' v = leaf (pmem s) T v" if "v \<in> vpages b j" for v
    using leaf' [of v] vs that vpages_less(1) [of v b "Suc j"] b(2) by (auto simp: vpages_def)
  have ca: "page_aligned c" "c < 2 ^ 56"
    using c(1) vm_okD(5) [OF ok'] kmem_only_fields(2) [OF extendsD(4) [OF e]]
    by (auto simp: page_ok_def intro: less_le_trans)
  note new = frame_of_new [OF ca perm(1)]
  have fa: "frame_of (pmem s') T' a = c" using leaf' [OF al] new(1) by (simp add: frame_of_def)
  have T': "T' p \<noteq> Some c" for p using extendsD(2) [OF e, of p c] c(2,3) by blast
  have "owned T' x \<Longrightarrow> \<not> in_page c x" for x
    using T' in_page_unique [OF ca(1)] vm_okD(8) [OF ok'] unfolding owned_def by blast
  then have zero': "pmem s' x = 0" if "in_page c x" for x
    using that zero extendsD(3) [OF e] by metis
  have ge: "\<And>q. q \<in> ran T' \<Longrightarrow> page_aligned q" using vm_okD(8) [OF ok'] by (auto simp: ran_iff)
  note x = grown_extends [OF g e ge keep]
  have "leaf_ok s' T' ys' a"
    using leaf' [OF al] new perm(2) fa T' c(1,2) extendsD(6) [OF e] kmem_only_fields(3) [OF extendsD(4) [OF e]]
    by (auto simp: leaf_ok_def)
  moreover have "leaves_ok s' T' ys' (vpages b j)" and "c \<notin> frame_of (pmem s') T' ` vpages b j"
    using x(1) by (auto simp: leaves_ok_def leaf_ok_def)
  ultimately have "leaves_ok s' T' ys' (vpages b (Suc j))"
    using al vs fa by (auto simp: leaves_ok_def)
  moreover have "leaf (pmem s') T' v = leaf (pmem s0) T0 v"
    if "page_aligned v" "v < MAXVA" "v \<notin> vpages b (Suc j)" for v
    using that leaf' [of v] grownD(4) [OF g, of v] vs by auto
  moreover have "ran T0 \<union> set xs0 = ran T' \<union> set ys' \<union> frame_of (pmem s') T' ` vpages b (Suc j)"
    using x(2,6) fa vs by auto
  moreover have "leaf (pmem s') T' v = PA2PTE (frame_of (pmem s') T' v) OR perm OR PTE_V
      \<and> (\<forall>x. in_page (frame_of (pmem s') T' v) x \<longrightarrow> pmem s' x = 0)" if "v \<in> vpages b (Suc j)" for v
    using that vs leaf' [OF al] fa zero' keep x(2,3) grownD(2) [OF g, of v] by auto
  ultimately show ?thesis using x(4,5) by (simp add: grown_def)
qed

lemma npg_aligned: "unat a = 4096 * k \<Longrightarrow> npg a = k"
  by (simp add: npg_def)

lemma uvmalloc_undo:
  fixes s :: "'a kmem_state_scheme"
  assumes ok: "vm_ok s root T xs" and g: "grown s0 T0 xs0 b j perm s T xs"
    and b: "page_aligned b" "unat b + 4096 * j \<le> 2 ^ 38 - 4096" and a: "a = b + of_nat (4096 * j)"
    and un: "\<And>v. v \<in> vpages b j \<Longrightarrow> leaf (pmem s0) T0 v = 0"
  shows "\<exists>s' xs'. uvmdealloc root a b s = Inr (b, s') \<and> vm_ok s' root T xs' \<and> grown s0 T0 xs0 b 0 perm s' T xs'"
proof -
  obtain k where k: "unat b = 4096 * k" using b(1) by (auto simp: page_aligned_unat elim!: dvdE)
  have ua: "unat a = unat b + 4096 * j" unfolding a using b(2) by (intro unat_add_of_nat) simp
  then have j: "npg a - npg b = j" using k npg_aligned [of a "k + j"] npg_aligned [of b k] by simp
  have rb: "PGROUNDUP b = b" using PGROUNDUP_self b by simp
  have "leaves_ok s T xs (vpages (PGROUNDUP b) (npg a - npg b))"
    unfolding rb j by (rule grownD(1) [OF g])
  from uvmdealloc_spec [OF ok _ _ this] ua b(2)
  obtain s' where s': "uvmdealloc root a b s = Inr (b, s')" "vm_ok s' root T (frames (pmem s) T b j @ xs)"
      "touches T (frame_of (pmem s) T ` vpages b j) s s'"
      "\<And>v. page_aligned v \<Longrightarrow> v < MAXVA \<Longrightarrow>
        leaf (pmem s') T v = (if v \<in> vpages b j then 0 else leaf (pmem s) T v)"
    unfolding rb j by (auto simp: word_le_nat_alt)
  have fr: "set (frames (pmem s) T b j) = frame_of (pmem s) T ` vpages b j"
    using b by (intro set_frames) auto
  have "\<not> owned T x \<and> (\<forall>q \<in> frame_of (pmem s) T ` vpages b j. \<not> in_page q x)"
    if "\<not> owned T0 x" "\<forall>q \<in> set xs0. \<not> in_page q x" for x
    using that grownD(7) [OF g] unfolding owned_ran by blast
  then have "touches T0 (set xs0) s0 s'"
    using grownD(6) [OF g] s'(3) kmem_only_trans [of s0 s s'] by (simp add: touches_def)
  moreover have "leaf (pmem s') T v = leaf (pmem s0) T0 v" if "page_aligned v" "v < MAXVA" for v
    using s'(4) [OF that] grownD(4) [OF g that] un by simp
  moreover have "ran T0 \<union> set xs0 = ran T \<union> set (frames (pmem s) T b j @ xs)"
    using grownD(7) [OF g] fr by auto
  ultimately have "grown s0 T0 xs0 b 0 perm s' T (frames (pmem s) T b j @ xs)"
    using grownD(5) [OF g] by (simp add: grown_def leaves_ok_def)
  with s' show ?thesis by blast
qed

lemma memset_only_page: "only_page c s (s\<lparr>pmem := memset (pmem s) c v 4096\<rparr>)"
  by (rule only_page_write) (rule memset_page_out)

lemma uvmalloc_step:
  fixes s :: "'a kmem_state_scheme"
  assumes ok: "vm_ok s root T (c # ys)" and g: "grown s0 T0 xs0 b j perm s T (c # ys)"
    and b: "page_aligned b" "unat b + 4096 * Suc j \<le> 2 ^ 38" and a: "a = b + of_nat (4096 * j)"
    and un: "\<not> valid_pte (leaf (pmem s0) T0 a)" and perm: "perm < 1024" "perm OR PTE_V \<noteq> PTE_V"
  obtains (out) s1 s3 s4 T3 where "kalloc s = (c, s1)"
      "mappages root a PGSIZE c perm (s1\<lparr>pmem := memset (pmem s1) c 0 4096\<rparr>) = Inr (- 1, s3)"
      "kfree c s3 = Inr s4" "vm_ok s4 root T3 [c]" "grown s0 T0 xs0 b j perm s4 T3 [c]"
    | (more) s1 s3 T3 zs where "kalloc s = (c, s1)"
      "mappages root a PGSIZE c perm (s1\<lparr>pmem := memset (pmem s1) c 0 4096\<rparr>) = Inr (0, s3)"
      "vm_ok s3 root T3 zs" "grown s0 T0 xs0 b (Suc j) perm s3 T3 zs"
proof -
  have b': "unat b + 4096 * Suc j < 2 ^ 64" using b(2) by simp
  note vs = vpages_end [OF b(1) b', folded a]
  have al: "page_aligned a" "a < MAXVA"
    using vpages_less(1) [OF _ b(2), of a] vs by (auto simp: vpages_def)
  note c = vm_ok_kalloc(2-6) [OF ok]
  obtain s1 where s1: "kalloc s = (c, s1)" "vm_ok s1 root T ys" "only_page c s s1"
      "\<And>v. leaf (pmem s1) T v = leaf (pmem s) T v"
    using vm_ok_kalloc(1) [OF ok] by blast
  let ?s2 = "s1\<lparr>pmem := memset (pmem s1) c 0 4096\<rparr>"
  have c1: "page_ok s1 c" using c(1) only_page_fields(3) [OF s1(3)] by simp
  have w: "vm_ok ?s2 root T ys" "leaf (memset (pmem s1) c 0 4096) T v = leaf (pmem s1) T v" for v
    by (rule vm_ok_write_page [OF s1(2) c1 c(3,4)], simp add: memset_page_out)+
  have g2: "grown s0 T0 xs0 b j perm ?s2 T (c # ys)"
    by (rule grown_only_page [OF g only_page_trans [OF s1(3) memset_only_page]])
      (use c(5) w(2) s1(4) in auto)
  have "\<not> valid_pte (leaf (pmem ?s2) T a)"
    using grownD(4) [OF g2 al] vs(2) un by simp
  with w(1) al show thesis
  proof (cases rule: map_one_cases [where lst = a and pa = c and perm = perm])
    case (out s3 T3)
    have eq: "leaf (pmem s3) T3 v = leaf (pmem ?s2) T v" if "page_aligned v" "v < MAXVA" for v
      using out(4) that by (simp add: mapped_def in_range_def)
    have T3: "T3 p \<noteq> Some c" for p using extendsD(2) [OF out(3), of p c] c(3,4) by blast
    have "\<And>v. v \<in> vpages b j \<Longrightarrow> page_aligned v \<and> v < MAXVA"
      using vpages_less(1) [of _ b j] b(2) by (auto simp: vpages_def)
    then have eq': "\<And>v. v \<in> vpages b j \<Longrightarrow> leaf (pmem s3) T3 v = leaf (pmem ?s2) T v" using eq by blast
    have "\<And>q. q \<in> ran T3 \<Longrightarrow> page_aligned q" using vm_okD(8) [OF out(2)] by (auto simp: ran_iff)
    note x = grown_extends [OF g2 out(3) this eq']
    have "leaf (pmem s3) T3 v = leaf (pmem s0) T0 v" if "page_aligned v" "v < MAXVA" "v \<notin> vpages b j" for v
      using eq [OF that(1,2)] grownD(4) [OF g2 that] by simp
    then have g3: "grown s0 T0 xs0 b j perm s3 T3 [c]"
      using x eq' grownD(2) [OF g2] by (simp add: grown_def)
    have "page_ok s3 c"
      using c1 kmem_only_fields(3) [OF extendsD(4) [OF out(3)]] by (simp add: page_ok_def)
    then obtain s4 where s4: "kfree c s3 = Inr s4" "vm_ok s4 root T3 [c]" "only_page c s3 s4"
        "\<And>v. leaf (pmem s4) T3 v = leaf (pmem s3) T3 v"
      using vm_ok_kfree [OF out(2) _ _ T3] by auto
    have "grown s0 T0 xs0 b j perm s4 T3 [c]"
      by (rule grown_only_page [OF g3 s4(3)]) (use c(5) s4(4) in auto)
    moreover have "mappages root a PGSIZE c perm ?s2 = Inr (- 1, s3)"
      using out(1) al(1) by (simp add: mappages_def page_aligned_def)
    ultimately show thesis using that(1) s1(1) s4(1,2) by blast
  next
    case (more s3 T3 zs)
    have "grown s0 T0 xs0 b (Suc j) perm s3 T3 zs"
      by (rule grown_map [OF g2 more(2,3,4) b a _ c(3,4) perm])
        (use c1 memset_zero_page in \<open>auto simp: page_ok_def\<close>)
    moreover have "mappages root a PGSIZE c perm ?s2 = Inr (0, s3)"
      using more(1) al(1) by (simp add: mappages_def page_aligned_def)
    ultimately show thesis using that(2) s1(1) more(2) by blast
  qed
qed

lemma uvmalloc_loop_spec:
  fixes s :: "'a kmem_state_scheme"
  assumes "vm_ok s root T xs" "grown s0 T0 xs0 b j perm s T xs"
    and "page_aligned b" "unat b + 4096 * (j + r) \<le> 2 ^ 38 - 4096" "a = b + of_nat (4096 * j)"
    and "\<And>v. v \<in> vpages b (j + r) \<Longrightarrow> leaf (pmem s0) T0 v = 0"
    and "perm = PTE_R OR PTE_U OR xperm" "perm < 1024" "perm OR PTE_V \<noteq> PTE_V"
    and "r = (unat newsz - unat a + 4095) div 4096"
  shows "\<exists>ret s' T' xs'. uvmalloc_loop root a b newsz xperm s = Inr (ret, s') \<and> vm_ok s' root T' xs' \<and>
    (ret = newsz \<and> grown s0 T0 xs0 b (j + r) perm s' T' xs' \<or> ret = 0 \<and> grown s0 T0 xs0 b 0 perm s' T' xs')"
  using assms
proof (induction r arbitrary: a j s T xs)
  case 0
  then have "\<not> a < newsz" by (auto simp: word_less_nat_alt)
  then have "uvmalloc_loop root a b newsz xperm s = Inr (newsz, s)"
    by (subst uvmalloc_loop.simps) simp
  with "0.prems"(1,2) show ?case by auto
next
  case (Suc r)
  have ua: "unat a = unat b + 4096 * j"
    unfolding Suc.prems(5) using Suc.prems(4) by (intro unat_add_of_nat) simp
  have lt: "a < newsz" using Suc.prems(10) by (auto simp: word_less_nat_alt intro: ccontr)
  have vsub: "v \<in> vpages b (j + Suc r)" if "v \<in> vpages b k" "k \<le> j + Suc r" for v k
    using that by (auto simp: vpages_def in_range_def)
  have bj: "unat b + 4096 * j \<le> 2 ^ 38 - 4096" "unat b + 4096 * Suc j \<le> 2 ^ 38" using Suc.prems(4) by auto
  have un: "leaf (pmem s0) T0 v = 0" if "v \<in> vpages b j" for v using Suc.prems(6) vsub that by simp
  show ?case
  proof (cases xs)
    case Nil
    then have "kalloc s = (0, s)" using kalloc_empty vm_okD(1) [OF Suc.prems(1)] by simp
    moreover obtain s' xs' where "uvmdealloc root a b s = Inr (b, s')" "vm_ok s' root T xs'"
        "grown s0 T0 xs0 b 0 perm s' T xs'"
      using uvmalloc_undo [OF Suc.prems(1,2,3) bj(1) Suc.prems(5) un] by blast
    moreover have "uvmalloc_loop root a b newsz xperm s = Inr (0, s')"
      using lt calculation by (subst uvmalloc_loop.simps) simp
    ultimately show ?thesis by blast
  next
    case (Cons c ys)
    have "a \<in> vpages b (Suc j)"
      using vpages_end(1) [OF Suc.prems(3), of j] Suc.prems(4,5) by auto
    then have una: "\<not> valid_pte (leaf (pmem s0) T0 a)"
      using Suc.prems(6) vsub [of a "Suc j"] by (simp add: valid_pte_def)
    from Suc.prems(1,2) [unfolded Cons] Suc.prems(3) bj(2) Suc.prems(5) una Suc.prems(8,9) show ?thesis
    proof (cases rule: uvmalloc_step)
      case (out s1 s3 s4 T3)
      obtain s' xs' where s': "uvmdealloc root a b s4 = Inr (b, s')" "vm_ok s' root T3 xs'"
          "grown s0 T0 xs0 b 0 perm s' T3 xs'"
        using uvmalloc_undo [OF out(4,5) Suc.prems(3) bj(1) Suc.prems(5) un] by blast
      have "c \<noteq> 0" using vm_ok_kalloc(3) [OF Suc.prems(1) [unfolded Cons]] .
      then have "uvmalloc_loop root a b newsz xperm s = Inr (0, s')"
        using lt out s'(1) Suc.prems(7) by (subst uvmalloc_loop.simps) simp
      with s' show ?thesis by blast
    next
      case (more s1 s3 T3 zs)
      have "c \<noteq> 0" using vm_ok_kalloc(3) [OF Suc.prems(1) [unfolded Cons]] .
      then have step: "uvmalloc_loop root a b newsz xperm s = uvmalloc_loop root (a + PGSIZE) b newsz xperm s3"
        using lt more Suc.prems(7) by (subst uvmalloc_loop.simps) simp
      have a': "a + PGSIZE = b + of_nat (4096 * Suc j)" unfolding Suc.prems(5) by simp
      have "unat (a + PGSIZE) = unat a + 4096"
        using ua bj(2) unat_add_of_nat [of a 4096] by simp
      then have r': "r = (unat newsz - unat (a + PGSIZE) + 4095) div 4096"
        using Suc.prems(10) lt by (cases "unat newsz \<ge> unat a + 4096") (auto simp: word_less_nat_alt)
      have "unat b + 4096 * (Suc j + r) \<le> 2 ^ 38 - 4096" using Suc.prems(4) by simp
      moreover have "\<And>v. v \<in> vpages b (Suc j + r) \<Longrightarrow> leaf (pmem s0) T0 v = 0"
        using Suc.prems(6) by simp
      ultimately show ?thesis
        using Suc.IH [OF more(3,4) Suc.prems(3) _ a' _ Suc.prems(7-9) r'] step by simp
    qed
  qed
qed

section \<open>The contract of uvmalloc\<close>

lemma uvmalloc_spec:
  fixes s :: "'a kmem_state_scheme"
  assumes "vm_ok s root T xs" "oldsz \<le> newsz" "unat newsz \<le> 2 ^ 38 - 8192" "xperm < 1024"
    and "\<And>v. v \<in> vpages (PGROUNDUP oldsz) (npg newsz - npg oldsz) \<Longrightarrow> leaf (pmem s) T v = 0"
  shows "\<exists>ret s' T' xs'. uvmalloc root oldsz newsz xperm s = Inr (ret, s') \<and> vm_ok s' root T' xs' \<and>
    (ret = newsz \<and> grown s T xs (PGROUNDUP oldsz) (npg newsz - npg oldsz) (PTE_R OR PTE_U OR xperm) s' T' xs'
     \<or> ret = 0 \<and> grown s T xs (PGROUNDUP oldsz) 0 (PTE_R OR PTE_U OR xperm) s' T' xs')"
proof -
  let ?b = "PGROUNDUP oldsz" and ?perm = "PTE_R OR PTE_U OR xperm" and ?n = "npg newsz - npg oldsz"
  have le: "unat oldsz \<le> unat newsz" using assms(2) by (simp add: word_le_nat_alt)
  have b: "unat ?b = 4096 * npg oldsz" using le assms(3) by (intro unat_PGROUNDUP_npg) simp
  have mono: "npg oldsz \<le> npg newsz" using le by (simp add: npg_def div_le_mono)
  have "4096 * npg newsz \<le> 2 ^ 38 - 4096"
    using assms(3) div_times_less_eq_dividend [of "unat newsz + 4095" 4096] by (simp add: npg_def)
  then have bound: "unat ?b + 4096 * (0 + ?n) \<le> 2 ^ 38 - 4096" using b mono by (simp add: algebra_simps)
  have r: "?n = (unat newsz - unat ?b + 4095) div 4096"
  proof (cases "unat ?b \<le> unat newsz")
    case True
    then have "unat newsz + 4095 = (unat newsz - unat ?b + 4095) + 4096 * npg oldsz" using b by simp
    then have "npg newsz = (unat newsz - unat ?b + 4095) div 4096 + npg oldsz"
      unfolding npg_def [of newsz] by (simp only: div_mult_self2)
    then show ?thesis by simp
  next
    case False
    then have "npg newsz \<le> npg oldsz" using b by (simp add: npg_def)
    with False show ?thesis by simp
  qed
  have perm: "?perm < 1024"
    using or_small [of PTE_R 10 "PTE_U OR xperm"] or_small [of PTE_U 10 xperm] assms(4) by simp
  have "bit ?perm 1" "\<not> bit PTE_V 1" by (simp_all add: bit_simps)
  then have "?perm OR PTE_V \<noteq> PTE_V" by (metis bit_or_iff)
  then show ?thesis
    using uvmalloc_loop_spec [OF assms(1) grown_refl PGROUNDUP_aligned bound _ _ refl perm _ r] assms(2,5)
    by (simp add: uvmalloc_def Let_def not_less [symmetric])
qed

section \<open>A small machine\<close>

text \<open>
  An empty table needs no ghost tables but its root.  \<open>small_state\<close> is a machine with a zeroed root
  table and four free pages, on which the properties are exercised.
\<close>

lemma vm_ok_empty:
  assumes "kmem_inv s xs" "page_ok s root" "root \<notin> set xs" "ram_end s \<le> 2 ^ 56"
    and "\<And>x. in_page root x \<Longrightarrow> pmem s x = 0"
  shows "vm_ok s root [[] \<mapsto> root] xs" "leaf (pmem s) [[] \<mapsto> root] v = 0"
proof -
  have "read64 (pmem s) (pte_addr root i) = 0" if "unat i < 512" for i
    using assms(5) that by (intro read64_zero_page) auto
  moreover have "page_aligned root" using assms(2) by (simp add: page_ok_def)
  ultimately show "vm_ok s root [[] \<mapsto> root] xs"
    using assms by (auto simp: vm_ok_def tree_ok_def entries_ok_def child_ok_def valid_pte_def split: if_splits)
  show "leaf (pmem s) [[] \<mapsto> root] v = 0" by (simp add: leaf_def pathof_def)
qed

definition small_mem :: mem where
  "small_mem = write64 (write64 (write64 (\<lambda>_. 0) 0x80005000 0x80004000) 0x80004000 0x80003000) 0x80003000 0x80002000"

definition small_state :: kmem_state where
  "small_state = \<lparr>pmem = small_mem, freelist = 0x80005000, ram_end = 0x80006000, kend = 0x80001000\<rparr>"

lemma read64_page_other:
  assumes "page_aligned p" "page_aligned q" "p \<noteq> q"
  shows "read64 (write64 m p v) q = read64 m q"
  using pte_addr_read_other [OF assms(1,2), of 0 0 m v] assms(3) by (simp add: pte_addr_def)

lemma small_ok:
  "vm_ok small_state 0x80001000 [[] \<mapsto> 0x80001000] [0x80005000, 0x80004000, 0x80003000, 0x80002000]"
  "leaf (pmem small_state) [[] \<mapsto> 0x80001000] v = 0"
proof -
  have zero: "read64 (\<lambda>_. 0) p = 0" for p
    using read64_zero_page [of p "\<lambda>_. 0" 0] by (simp add: pte_addr_def)
  have al: "page_aligned 0x80001000" "page_aligned 0x80002000" "page_aligned 0x80003000"
      "page_aligned 0x80004000" "page_aligned 0x80005000"
    by (simp_all add: page_aligned_def)
  have "kmem_inv small_state [0x80005000, 0x80004000, 0x80003000, 0x80002000]"
    by (simp add: kmem_inv_def small_state_def small_mem_def read64_page_other al zero page_ok_def)
  moreover have "pmem small_state x = 0" if x: "in_page 0x80001000 x" for x
  proof -
    have "\<not> in_page p x" if "page_aligned p" "p \<noteq> 0x80001000" for p
      using in_page_unique [OF al(1) that(1) x] that(2) by blast
    then show ?thesis using al by (simp add: small_state_def small_mem_def write64_page_out)
  qed
  moreover have "page_ok small_state 0x80001000" "ram_end small_state \<le> 2 ^ 56"
    by (simp_all add: page_ok_def small_state_def al)
  ultimately show
    "vm_ok small_state 0x80001000 [[] \<mapsto> 0x80001000] [0x80005000, 0x80004000, 0x80003000, 0x80002000]"
    "leaf (pmem small_state) [[] \<mapsto> 0x80001000] v = 0"
    using vm_ok_empty [of small_state _ "0x80001000"] by simp_all
qed

text \<open>C4: growing an address space from \<open>oldsz\<close> to \<open>newsz\<close> either returns \<open>newsz\<close>, with every new page
  mapped user-readable with the extra permissions to its own zeroed frame, or returns 0 with no
  mapping changed; in both cases every page is still a table, a new frame or on the free list,
  and no memory outside the old tables and the free pages has changed.\<close>

theorem uvmalloc_correct:
  assumes "vm_ok s root T xs" "oldsz \<le> newsz" "unat newsz \<le> 2 ^ 38 - 8192" "xperm < 1024"
    and "\<forall>v \<in> vpages (PGROUNDUP oldsz) (npg newsz - npg oldsz). leaf (pmem s) T v = 0"
  shows "\<exists>ret s' T' xs'. uvmalloc root oldsz newsz xperm s = Inr (ret, s') \<and> vm_ok s' root T' xs' \<and>
    (ret = newsz \<and> grown s T xs (PGROUNDUP oldsz) (npg newsz - npg oldsz) (PTE_R OR PTE_U OR xperm) s' T' xs'
     \<or> ret = 0 \<and> grown s T xs (PGROUNDUP oldsz) 0 (PTE_R OR PTE_U OR xperm) s' T' xs')"
  using uvmalloc_spec [OF assms(1-4)] assms(5) by blast

theorem uvmalloc_correct_witness:
  "\<exists>ret s' T' xs'. uvmalloc 0x80001000 0 4096 PTE_W small_state = Inr (ret, s') \<and> vm_ok s' 0x80001000 T' xs' \<and>
    (ret = 4096 \<and> grown small_state [[] \<mapsto> 0x80001000] [0x80005000, 0x80004000, 0x80003000, 0x80002000]
       (PGROUNDUP 0) (npg 4096 - npg 0) (PTE_R OR PTE_U OR PTE_W) s' T' xs'
     \<or> ret = 0 \<and> grown small_state [[] \<mapsto> 0x80001000] [0x80005000, 0x80004000, 0x80003000, 0x80002000]
       (PGROUNDUP 0) 0 (PTE_R OR PTE_U OR PTE_W) s' T' xs')"
  by (rule uvmalloc_correct [OF small_ok(1)]) (simp_all add: small_ok(2))

lemma mappages_spec:
  fixes s :: "'a kmem_state_scheme"
  assumes "vm_ok s root T xs" "page_aligned va" "unat va + 4096 * n \<le> 2 ^ 38" "0 < n"
    and "sz = of_nat (4096 * n)"
    and "\<And>v. v \<in> vpages va n \<Longrightarrow> \<not> valid_pte (leaf (pmem s) T v)"
  shows "\<exists>r s' T' xs' k. mappages root va sz pa perm s = Inr (r, s') \<and> vm_ok s' root T' xs'
    \<and> extends s T xs s' T' xs' \<and> mapped (pmem s) T va k pa perm (pmem s') T'
    \<and> (r = 0 \<and> k = n \<or> r = - 1 \<and> k < n \<and> xs' = [])"
proof -
  obtain n' where n: "n = Suc n'" using assms(4) by (cases n) auto
  have usz: "unat sz = 4096 * n" using assms(3,5) unat_add_of_nat [of 0 "4096 * n"] by simp
  have "unat (sz mod PGSIZE) = 0" using usz by (simp add: unat_mod)
  then have "sz mod PGSIZE = 0" by (simp add: unat_eq_0)
  moreover have "sz \<noteq> 0" using usz assms(4) by (auto simp: unat_eq_0 [symmetric] simp del: unat_eq_0)
  moreover have "va + sz - PGSIZE = va + of_nat (4096 * n')" by (simp add: assms(5) n)
  ultimately have "mappages root va sz pa perm s = mappages_loop root va (va + of_nat (4096 * n')) pa perm s"
    using assms(2) by (simp only: mappages_def page_aligned_def not_True_eq_False if_False simp_thms)
  moreover have "\<And>v. page_aligned v \<Longrightarrow> in_range va (4096 * Suc n') v \<Longrightarrow> \<not> valid_pte (leaf (pmem s) T v)"
    using assms(6) n by (auto simp: vpages_def)
  ultimately show ?thesis
    using mappages_loop_spec [OF assms(1,2), of n'] assms(3) n less_Suc_eq_le by metis
qed

text \<open>C25: mapping \<open>n\<close> unmapped pages gives each its entry, with the next frame and the permissions,
  and changes no other entry; it returns -1 only when the free list ran out, and then a prefix of
  the range is mapped.  Memory outside the tables is unchanged.\<close>

theorem mappages_correct:
  assumes "vm_ok s root T xs" "page_aligned va" "unat va + 4096 * n \<le> 2 ^ 38" "0 < n"
    and "sz = of_nat (4096 * n)"
    and "\<forall>v \<in> vpages va n. \<not> valid_pte (leaf (pmem s) T v)"
  shows "\<exists>r s' T' xs' k. mappages root va sz pa perm s = Inr (r, s') \<and> vm_ok s' root T' xs'
    \<and> extends s T xs s' T' xs' \<and> mapped (pmem s) T va k pa perm (pmem s') T'
    \<and> (r = 0 \<and> k = n \<or> r = - 1 \<and> k < n \<and> xs' = [])"
  using mappages_spec [OF assms(1-5)] assms(6) by blast

theorem mappages_correct_witness:
  "\<exists>r s' T' xs' k. mappages 0x80001000 0x1000 0x2000 0x10000000 (PTE_R OR PTE_W) small_state = Inr (r, s')
    \<and> vm_ok s' 0x80001000 T' xs'
    \<and> extends small_state [[] \<mapsto> 0x80001000] [0x80005000, 0x80004000, 0x80003000, 0x80002000] s' T' xs'
    \<and> mapped (pmem small_state) [[] \<mapsto> 0x80001000] 0x1000 k 0x10000000 (PTE_R OR PTE_W) (pmem s') T'
    \<and> (r = 0 \<and> k = 2 \<or> r = - 1 \<and> k < 2 \<and> xs' = [])"
  by (rule mappages_correct [OF small_ok(1)]) (simp_all add: small_ok(2) valid_pte_def page_aligned_def)

end
