(* ===== verification/VmCopy.thy ===== *)
theory VmCopy
  imports VmUser
begin

text \<open>
  \<open>copyin\<close>, \<open>copyinstr\<close> and \<open>copyout\<close> of \<^verbatim>\<open>kernel/vm.c\<close> against the process's view of its memory: the
  byte at every user address.  The copies succeed exactly when the whole range is accessible,
  move exactly its bytes, and touch nothing else the process can see.
\<close>

unbundle bit_operations_syntax

section \<open>The view of a process\<close>

definition user_pte :: "u64 \<Rightarrow> bool" where
  "user_pte e \<longleftrightarrow> e AND PTE_V \<noteq> 0 \<and> e AND PTE_U \<noteq> 0"

definition uget :: "mem \<Rightarrow> ptree \<Rightarrow> u64 \<Rightarrow> byte option" where
  "uget m T va =
     (let va0 = PGROUNDDOWN va; e = leaf m T va0
      in if va0 < MAXVA \<and> user_pte e then Some (m (PTE2PA e + (va - va0))) else None)"

definition uwritable :: "mem \<Rightarrow> ptree \<Rightarrow> u64 \<Rightarrow> bool" where
  "uwritable m T va \<longleftrightarrow>
     (let va0 = PGROUNDDOWN va; e = leaf m T va0 in va0 < MAXVA \<and> user_pte e \<and> e AND PTE_W \<noteq> 0)"

text \<open>The pages a process can reach.\<close>

definition user_pages :: "mem \<Rightarrow> ptree \<Rightarrow> u64 set" where
  "user_pages m T = {v. page_aligned v \<and> v < MAXVA \<and> user_pte (leaf m T v)}"

lemma same_page:
  assumes "i < page_rest va"
  shows "PGROUNDDOWN (va + of_nat i) = PGROUNDDOWN va"
    "va + of_nat i - PGROUNDDOWN va = (va - PGROUNDDOWN va) + of_nat i"
    "unat (va - PGROUNDDOWN va) + i < 4096"
proof -
  let ?o = "va - PGROUNDDOWN va"
  have lt: "unat ?o + i < 4096" using assms page_rest_eq(1,2) [of va] by simp
  have "unat (?o + of_nat i) = unat ?o + i" using lt by (intro unat_add_of_nat) simp
  then have "in_page (PGROUNDDOWN va) (va + of_nat i)"
    using lt by (simp add: in_page_def in_range_def algebra_simps)
  then show "PGROUNDDOWN (va + of_nat i) = PGROUNDDOWN va"
    using in_page_PGROUNDDOWN in_page_unique PGROUNDDOWN_aligned by blast
  show "va + of_nat i - PGROUNDDOWN va = ?o + of_nat i" by simp
  show "unat ?o + i < 4096" by (rule lt)
qed

lemma page_rest_next: "va + of_nat (page_rest va) = PGROUNDDOWN va + PGSIZE"
proof -
  have "of_nat (page_rest va) = PGSIZE - (va - PGROUNDDOWN va)" by (simp add: page_rest_def)
  then show ?thesis by simp
qed

lemma uget_same_page:
  "i < page_rest va \<Longrightarrow> uget m T (va + of_nat i) =
    (if PGROUNDDOWN va < MAXVA \<and> user_pte (leaf m T (PGROUNDDOWN va))
     then Some (m (PTE2PA (leaf m T (PGROUNDDOWN va)) + (va - PGROUNDDOWN va) + of_nat i)) else None)"
  by (simp add: uget_def same_page(1) Let_def algebra_simps)

lemma walkaddr_aligned:
  assumes ok: "vm_ok s root T xs" and v: "page_aligned v"
  shows "walkaddr root v s =
    Inr (if v < MAXVA \<and> user_pte (leaf (pmem s) T v) then PTE2PA (leaf (pmem s) T v) else 0)"
proof (cases "v < MAXVA")
  case True
  have low: "v AND 0xfff = 0"
  proof (rule bit_word_eqI)
    fix k assume "k < LENGTH(64)"
    show "bit (v AND 0xfff) k \<longleftrightarrow> bit (0 :: u64) k"
      using bit_less_exp [of "0xfff" 12 k] v by (auto simp: bit_and_iff page_aligned_bits)
  qed
  show ?thesis
  proof (cases "T (pathof v)")
    case None
    then show ?thesis
      using walk_lookup [OF ok, of v] True
      by (simp add: walkaddr_def walk_def leaf_def user_pte_def)
  next
    case (Some t)
    then show ?thesis
      using walk_valid [OF ok True Some] True low
      by (auto simp: walkaddr_def user_pte_def Let_def)
  qed
qed (auto simp: walkaddr_def)

lemmas walkaddr_page = walkaddr_aligned [OF _ PGROUNDDOWN_aligned]

section \<open>copyin\<close>

text \<open>No page a process can reach is at physical address 0.\<close>

definition frames_nonzero :: "mem \<Rightarrow> ptree \<Rightarrow> bool" where
  "frames_nonzero m T \<longleftrightarrow> (\<forall>v \<in> user_pages m T. frame_of m T v \<noteq> 0)"

lemma copyin_spec:
  assumes ok: "vm_ok s root T xs" and nz: "frames_nonzero (pmem s) T"
  shows "\<exists>r bs. copyin root va len s = Inr (r, bs) \<and>
    (if \<forall>i < len. uget (pmem s) T (va + of_nat i) \<noteq> None
     then r = 0 \<and> length bs = len \<and> (\<forall>i < len. uget (pmem s) T (va + of_nat i) = Some (bs ! i))
     else r = - 1)"
proof (induction len arbitrary: va rule: less_induct)
  case (less len)
  let ?v = "PGROUNDDOWN va" and ?e = "leaf (pmem s) T (PGROUNDDOWN va)"
  let ?n = "min len (page_rest va)"
  show ?case
  proof (cases "len = 0")
    case True
    then show ?thesis by (subst copyin.simps) simp
  next
    case pos: False
    show ?thesis
    proof (cases "?v < MAXVA \<and> user_pte ?e")
      case False
      then have "uget (pmem s) T (va + of_nat 0) = None" by (simp add: uget_def Let_def)
      then have "\<not> (\<forall>i < len. uget (pmem s) T (va + of_nat i) \<noteq> None)" using pos by blast
      moreover have "copyin root va len s = Inr (- 1, [])"
        using pos False walkaddr_page [OF ok, of va] by (subst copyin.simps) auto
      ultimately show ?thesis by (simp only: if_False) blast
    next
      case True
      let ?p = "PTE2PA ?e + (va - ?v)"
      have nz': "PTE2PA ?e \<noteq> 0" using nz True by (simp add: frames_nonzero_def user_pages_def frame_of_def)
      have n: "?n > 0" "?n \<le> len" using pos page_rest_eq(3) [of va] by auto
      have step: "copyin root va len s =
          bnd (copyin root (?v + PGSIZE) (len - ?n) s) (\<lambda>(r, rest). Inr (r, read_bytes (pmem s) ?p ?n @ rest))"
        using pos True nz' walkaddr_page [OF ok, of va] by (subst copyin.simps) (simp add: min_def Let_def)
      have lt: "len - ?n < len" using n by simp
      obtain r bs where ih: "copyin root (?v + PGSIZE) (len - ?n) s = Inr (r, bs)"
          "if \<forall>i < len - ?n. uget (pmem s) T (?v + PGSIZE + of_nat i) \<noteq> None
           then r = 0 \<and> length bs = len - ?n \<and> (\<forall>i < len - ?n. uget (pmem s) T (?v + PGSIZE + of_nat i) = Some (bs ! i))
           else r = - 1"
        using less.IH [OF lt, of "?v + PGSIZE"] by blast
      have here: "uget (pmem s) T (va + of_nat i) = Some (pmem s (?p + of_nat i))" if "i < ?n" for i
        using uget_same_page [of i va "pmem s" T] that True by simp
      have there: "uget (pmem s) T (va + of_nat (?n + j)) = uget (pmem s) T (?v + PGSIZE + of_nat j)"
        if "j < len - ?n" for j
      proof -
        have "?n = page_rest va" using that by simp
        then have "va + of_nat (?n + j) = va + of_nat (page_rest va) + of_nat j" by (simp add: add.assoc)
        then show ?thesis by (simp only: page_rest_next)
      qed
      have split: "i < ?n \<or> (\<exists>j < len - ?n. i = ?n + j)" if "i < len" for i
        using that by (metis add_diff_inverse_nat diff_less_mono not_less)
      have all: "(\<forall>i < len. uget (pmem s) T (va + of_nat i) \<noteq> None)
          \<longleftrightarrow> (\<forall>i < len - ?n. uget (pmem s) T (?v + PGSIZE + of_nat i) \<noteq> None)"
        (is "?L \<longleftrightarrow> ?R")
      proof
        assume ?L
        moreover have "?n + j < len" if "j < len - ?n" for j using that by simp
        ultimately show ?R using there by metis
      next
        assume R: ?R
        show ?L
        proof (intro allI impI)
          fix i assume "i < len"
          then show "uget (pmem s) T (va + of_nat i) \<noteq> None"
            using split [of i] here [of i] there R by (metis option.distinct(1))
        qed
      qed
      let ?bs = "read_bytes (pmem s) ?p ?n @ bs"
      have "uget (pmem s) T (va + of_nat i) = Some (?bs ! i)" if R: "?R" and i: "i < len" for i
        using split [OF i]
      proof
        assume "i < ?n"
        then show ?thesis using here by (simp add: nth_append)
      next
        assume "\<exists>j < len - ?n. i = ?n + j"
        then obtain j where j: "j < len - ?n" "i = ?n + j" by blast
        have "uget (pmem s) T (?v + PGSIZE + of_nat j) = Some (bs ! j)" using ih(2) R j(1) by simp
        moreover have "?bs ! i = bs ! j"
          unfolding j(2) using nth_append_length_plus [of "read_bytes (pmem s) ?p ?n" bs j] by (simp only: length_read_bytes)
        ultimately show ?thesis using there [OF j(1)] unfolding j(2) by simp
      qed
      note got = this
      have eq: "copyin root va len s = Inr (r, ?bs)" using step ih(1) by simp
      show ?thesis
      proof (cases ?R)
        case True
        then have "r = 0" "length ?bs = len" using ih(2) n by (simp_all only: if_True) simp_all
        moreover have ?L using True all by blast
        ultimately show ?thesis using eq got [OF True] unfolding if_P [OF \<open>?L\<close>] by blast
      next
        case False
        then have "r = - 1" using ih(2) by (simp only: if_False)
        moreover have "\<not> ?L" using False all by blast
        ultimately show ?thesis using eq unfolding if_not_P [OF \<open>\<not> ?L\<close>] by blast
      qed
    qed
  qed
qed

section \<open>copyinstr\<close>

text \<open>Byte by byte: the string in a user's memory, as far as \<open>mx\<close> bytes hold it and the memory is there.\<close>

fun user_str :: "(u64 \<Rightarrow> byte option) \<Rightarrow> u64 \<Rightarrow> nat \<Rightarrow> int \<times> byte list" where
  "user_str g va 0 = (- 1, [])"
| "user_str g va (Suc mx) =
     (case g va of
        None \<Rightarrow> (- 1, [])
      | Some b \<Rightarrow> if b = 0 then (0, [0]) else case user_str g (va + 1) mx of (r, bs) \<Rightarrow> (r, b # bs))"

lemma user_str_bounds:
  "user_str g va mx = (r, bs) \<Longrightarrow> length bs \<le> mx \<and> (\<forall>i < length bs. g (va + of_nat i) = Some (bs ! i)) \<and>
     (if r = 0 then \<exists>str. bs = str @ [0] \<and> 0 \<notin> set str
      else r = - 1 \<and> 0 \<notin> set bs \<and> (length bs = mx \<or> g (va + of_nat (length bs)) = None))"
proof (induction mx arbitrary: va r bs)
  case (Suc mx)
  show ?case
  proof (cases "g va")
    case (Some b)
    show ?thesis
    proof (cases "b = 0")
      case False
      obtain r' bs' where rec: "user_str g (va + 1) mx = (r', bs')" by (cases "user_str g (va + 1) mx")
      have eq: "r = r'" "bs = b # bs'" using Suc.prems Some False rec by simp_all
      have "g (va + of_nat i) = Some (bs ! i)" if "i < length bs" for i
        using Suc.IH [OF rec] that Some by (cases i) (simp_all add: eq algebra_simps)
      moreover have "\<exists>str. bs = str @ [0] \<and> 0 \<notin> set str" if "r = 0"
      proof -
        have "r' = 0" using that eq(1) by simp
        then obtain str where "bs' = str @ [0]" "0 \<notin> set str" using Suc.IH [OF rec] by auto
        then show ?thesis using False by (intro exI [of _ "b # str"]) (simp add: eq)
      qed
      ultimately show ?thesis using Suc.IH [OF rec] False by (auto simp: eq algebra_simps)
    qed (use Suc.prems Some in auto)
  qed (use Suc.prems in auto)
qed simp

lemma copyinstr_page_str:
  assumes "copyinstr_page m p n = (bs, null)" "\<And>i. i < n \<Longrightarrow> g (va + of_nat i) = Some (m (p + of_nat i))"
  shows "user_str g va (n + k) =
    (if null then (0, bs) else case user_str g (va + of_nat n) k of (r, rest) \<Rightarrow> (r, bs @ rest))"
  using assms
proof (induction n arbitrary: p va bs)
  case (Suc n)
  have g0: "g va = Some (m p)" using Suc.prems(2) [of 0] by simp
  show ?case
  proof (cases "m p = 0")
    case False
    obtain bs' where bs: "copyinstr_page m (p + 1) n = (bs', null)" "bs = m p # bs'"
      using Suc.prems(1) False by (auto split: prod.splits)
    have "g (va + 1 + of_nat i) = Some (m (p + 1 + of_nat i))" if "i < n" for i
      using Suc.prems(2) [of "Suc i"] that by (simp add: algebra_simps)
    from Suc.IH [OF bs(1) this] show ?thesis
      using g0 False by (simp add: bs(2) algebra_simps split: prod.splits)
  qed (use Suc.prems(1) g0 in auto)
qed (auto split: prod.splits)

lemma copyinstr_spec:
  assumes ok: "vm_ok s root T xs" and nz: "frames_nonzero (pmem s) T"
  shows "copyinstr root va mx s = Inr (user_str (uget (pmem s) T) va mx)"
proof (induction mx arbitrary: va rule: less_induct)
  case (less mx)
  let ?v = "PGROUNDDOWN va" and ?e = "leaf (pmem s) T (PGROUNDDOWN va)"
  show ?case
  proof (cases "mx = 0 \<or> \<not> (?v < MAXVA \<and> user_pte ?e)")
    case True
    then show ?thesis
      using walkaddr_page [OF ok, of va] by (subst copyinstr.simps) (cases mx; auto simp: uget_def Let_def)
  next
    case False
    let ?p = "PTE2PA ?e + (va - ?v)"
    define n where "n = min mx (page_rest va)"
    have n: "n > 0" "n \<le> mx" "n \<le> page_rest va" using False page_rest_eq(3) [of va] by (auto simp: n_def)
    have nz': "PTE2PA ?e \<noteq> 0" using nz False by (simp add: frames_nonzero_def user_pages_def frame_of_def)
    have neq: "(if page_rest va > mx then mx else page_rest va) = n" by (simp add: n_def)
    obtain bs null where pg: "copyinstr_page (pmem s) ?p n = (bs, null)" by fastforce
    have "uget (pmem s) T (va + of_nat i) = Some (pmem s (?p + of_nat i))" if "i < n" for i
      using uget_same_page [of i va "pmem s" T] that n(3) False by simp
    note str = copyinstr_page_str [OF pg this, of "mx - n"]
    have step: "copyinstr root va mx s =
        (if null then Inr (0, bs)
         else bnd (copyinstr root (?v + PGSIZE) (mx - n) s) (\<lambda>(r, rest). Inr (r, bs @ rest)))"
      using False nz' walkaddr_page [OF ok, of va] pg neq by (subst copyinstr.simps) (simp add: Let_def)
    have "user_str g (?v + PGSIZE) (mx - n) = user_str g (va + of_nat n) (mx - n)" for g
    proof (cases "mx - n = 0")
      case False
      then have "n = page_rest va" by (simp add: n_def)
      then show ?thesis by (simp add: page_rest_next)
    qed simp
    then show ?thesis
      using step str less.IH [of "mx - n" "?v + PGSIZE"] n by (auto split: prod.splits)
  qed
qed

section \<open>copyout\<close>

text \<open>A user address space: every page a process can reach is its own.\<close>

definition user_ok :: "'a kmem_state_scheme \<Rightarrow> ptree \<Rightarrow> addr list \<Rightarrow> bool" where
  "user_ok s T xs \<longleftrightarrow> leaves_ok s T xs (user_pages (pmem s) T)"

lemma user_ok_nonzero: "vm_ok s root T xs \<Longrightarrow> user_ok s T xs \<Longrightarrow> frames_nonzero (pmem s) T"
  using page_ok_nonzero vm_okD(1)
  by (fastforce simp: frames_nonzero_def user_ok_def leaves_ok_def leaf_ok_def kmem_inv_def)

text \<open>Writing part of a user page changes the view of the process there and nowhere else.\<close>

lemma user_write:
  fixes s :: "'a kmem_state_scheme"
  assumes ok: "vm_ok s root T xs" "user_ok s T xs"
    and v: "PGROUNDDOWN va < MAXVA" "user_pte (leaf (pmem s) T (PGROUNDDOWN va))"
    and bs: "length bs \<le> page_rest va"
    and s': "s' = s\<lparr>pmem := write_bytes (pmem s)
      (PTE2PA (leaf (pmem s) T (PGROUNDDOWN va)) + (va - PGROUNDDOWN va)) bs\<rparr>"
  shows "vm_ok s' root T xs" "user_ok s' T xs" "\<And>w. leaf (pmem s') T w = leaf (pmem s) T w"
    "uget (pmem s') T w = (if in_range va (length bs) w then Some (bs ! unat (w - va)) else uget (pmem s) T w)"
    "touches T (frame_of (pmem s) T ` user_pages (pmem s) T) s s'"
proof -
  let ?v = "PGROUNDDOWN va"
  let ?f = "PTE2PA (leaf (pmem s) T ?v)" and ?o = "va - ?v"
  have vu: "?v \<in> user_pages (pmem s) T" using v by (simp add: user_pages_def)
  have f: "page_ok s ?f" "?f \<notin> set xs" "\<And>p. T p \<noteq> Some ?f"
    using ok(2) vu by (auto simp: user_ok_def leaves_ok_def leaf_ok_def frame_of_def)
  have sub: "in_page ?f x" if "in_range (?f + ?o) (length bs) x" for x
  proof -
    have lt: "unat ?o + unat (x - (?f + ?o)) < 4096"
      using that bs page_rest_eq(1,2) [of va] by (simp add: in_range_def)
    have "x - ?f = ?o + (x - (?f + ?o))" by simp
    moreover have "unat (?o + (x - (?f + ?o))) = unat ?o + unat (x - (?f + ?o))"
      using lt by (intro unat_add_lem [THEN iffD1]) simp
    ultimately show ?thesis using lt by (simp only: in_page_def in_range_def)
  qed
  have out: "write_bytes (pmem s) (?f + ?o) bs x = pmem s x" if "\<not> in_page ?f x" for x
    using that sub by (intro write_bytes_out) blast
  show vm: "vm_ok s' root T xs" and lf: "\<And>w. leaf (pmem s') T w = leaf (pmem s) T w"
    using vm_ok_write_page [OF ok(1) f out] by (auto simp: s')
  have up: "user_pages (pmem s') T = user_pages (pmem s) T" "frame_of (pmem s') T = frame_of (pmem s) T"
    by (auto simp: user_pages_def lf frame_of_def)
  show "user_ok s' T xs"
    using ok(2) by (simp add: user_ok_def leaves_ok_def leaf_ok_def up lf) (simp add: s' page_ok_def)
  show "touches T (frame_of (pmem s) T ` user_pages (pmem s) T) s s'"
    using out vu by (auto simp: touches_def s' kmem_only_pmem frame_of_def)
  show "uget (pmem s') T w = (if in_range va (length bs) w then Some (bs ! unat (w - va)) else uget (pmem s) T w)"
  proof (cases "PGROUNDDOWN w = ?v")
    case True
    have "?f + (w - ?v) - (?f + ?o) = w - va" by simp
    then have "pmem s' (?f + (w - ?v)) = (if in_range va (length bs) w then bs ! unat (w - va) else pmem s (?f + (w - ?v)))"
      by (simp add: s' write_bytes_def in_range_def)
    then show ?thesis using True v lf by (simp add: uget_def Let_def)
  next
    case False
    have nr: "\<not> in_range va (length bs) w"
    proof
      assume "in_range va (length bs) w"
      then have "unat (w - va) < page_rest va" using bs by (simp add: in_range_def)
      from same_page(1) [OF this] False show False by simp
    qed
    let ?w = "PGROUNDDOWN w"
    show ?thesis
    proof (cases "?w < MAXVA \<and> user_pte (leaf (pmem s) T ?w)")
      case user: True
      then have "?w \<in> user_pages (pmem s) T" by (simp add: user_pages_def)
      then have "frame_of (pmem s) T ?w \<noteq> frame_of (pmem s) T ?v"
        using ok(2) vu False by (auto simp: user_ok_def leaves_ok_def dest: inj_onD)
      then have ne: "PTE2PA (leaf (pmem s) T ?w) \<noteq> ?f" by (simp add: frame_of_def)
      have "in_page (PTE2PA (leaf (pmem s) T ?w)) (PTE2PA (leaf (pmem s) T ?w) + (w - ?w))"
        using page_rest_eq(2) [of w] by (simp add: in_page_def in_range_def)
      then have "\<not> in_page ?f (PTE2PA (leaf (pmem s) T ?w) + (w - ?w))"
        using ne in_page_unique PTE2PA_aligned by blast
      then show ?thesis using nr user lf out by (simp add: uget_def Let_def s')
    next
      case False
      then show ?thesis using nr lf by (auto simp: uget_def Let_def)
    qed
  qed
qed

lemma copyout_page:
  assumes ok: "vm_ok s root T xs" and "src \<noteq> []"
  shows "copyout root va src s =
    (if uwritable (pmem s) T va
     then copyout root (PGROUNDDOWN va + PGSIZE) (drop (page_rest va) src)
       (s\<lparr>pmem := write_bytes (pmem s) (PTE2PA (leaf (pmem s) T (PGROUNDDOWN va)) + (va - PGROUNDDOWN va))
         (take (page_rest va) src)\<rparr>)
     else Inr (- 1, s))"
proof (cases "PGROUNDDOWN va < MAXVA")
  case False
  then have "copyout root va src s = Inr (- 1, s)" using assms(2) by (subst copyout.simps) (simp add: not_less Let_def)
  with False show ?thesis by (simp add: uwritable_def Let_def)
next
  case True
  show ?thesis
  proof (cases "T (pathof (PGROUNDDOWN va))")
    case None
    then have "copyout root va src s = Inr (- 1, s)"
      using walk_lookup [OF ok, of "PGROUNDDOWN va"] True assms(2)
      by (subst copyout.simps) (auto simp: walk_def Let_def)
    with None show ?thesis by (simp add: uwritable_def Let_def leaf_def user_pte_def)
  next
    case (Some t)
    have "length src \<noteq> 0" using assms(2) by simp
    then show ?thesis
      using walk_valid [OF ok True Some] True
      by (subst copyout.simps) (auto simp: uwritable_def Let_def user_pte_def)
  qed
qed

lemma copyout_spec:
  fixes s :: "'a kmem_state_scheme"
  assumes "vm_ok s root T xs" "user_ok s T xs" "length src < 2 ^ 64"
  shows "\<exists>r s'. copyout root va src s = Inr (r, s') \<and> vm_ok s' root T xs \<and> user_ok s' T xs
    \<and> (\<forall>v. leaf (pmem s') T v = leaf (pmem s) T v)
    \<and> touches T (frame_of (pmem s) T ` user_pages (pmem s) T) s s'
    \<and> (if \<forall>i < length src. uwritable (pmem s) T (va + of_nat i)
       then r = 0 \<and> (\<forall>w. uget (pmem s') T w =
         (if in_range va (length src) w then Some (src ! unat (w - va)) else uget (pmem s) T w))
       else r = - 1)"
  using assms
proof (induction "length src" arbitrary: src va s rule: less_induct)
  case less
  show ?case
  proof (cases "src = []")
    case True
    then have "copyout root va src s = Inr (0, s)" by (subst copyout.simps) simp
    with True less.prems show ?thesis by (simp add: in_range_def)
  next
    case ne: False
    show ?thesis
    proof (cases "uwritable (pmem s) T va")
      case False
      then have "\<not> (\<forall>i < length src. uwritable (pmem s) T (va + of_nat i))" using ne by auto
      moreover have "copyout root va src s = Inr (- 1, s)" using copyout_page [OF less.prems(1) ne] False by simp
      ultimately show ?thesis using less.prems by (simp only: if_False) auto
    next
      case True
      let ?n = "page_rest va" and ?v = "PGROUNDDOWN va"
      define s1 where
        "s1 = s\<lparr>pmem := write_bytes (pmem s) (PTE2PA (leaf (pmem s) T ?v) + (va - ?v)) (take ?n src)\<rparr>"
      have v: "?v < MAXVA" "user_pte (leaf (pmem s) T ?v)" using True by (auto simp: uwritable_def Let_def)
      have take: "length (take ?n src) \<le> ?n" by simp
      note w = user_write [OF less.prems(1,2) v take s1_def]
      have step: "copyout root va src s = copyout root (?v + PGSIZE) (drop ?n src) s1"
        using copyout_page [OF less.prems(1) ne] True by (simp add: s1_def)
      have uw: "uwritable (pmem s1) T x = uwritable (pmem s) T x" for x
        using w(3) by (simp add: uwritable_def)
      have here: "uwritable (pmem s) T (va + of_nat i)" if "i < ?n" for i
        using True same_page(1) [OF that] by (simp add: uwritable_def)
      show ?thesis
      proof (cases "length src \<le> ?n")
        case all: True
        then have "copyout root va src s = Inr (0, s1)" using step by (subst (asm) (2) copyout.simps) simp
        moreover have "\<forall>i < length src. uwritable (pmem s) T (va + of_nat i)" using here all by simp
        ultimately show ?thesis using w all by simp
      next
        case False
        let ?k = "length src - ?n" and ?src = "drop ?n src"
        have next_page: "va + of_nat ?n = ?v + PGSIZE" by (rule page_rest_next)
        have "length ?src < length src" using ne page_rest_eq(3) [of va] by simp
        moreover have "length ?src < 2 ^ 64" using less.prems(3) by simp
        ultimately obtain r s' where ih: "copyout root (?v + PGSIZE) ?src s1 = Inr (r, s')"
            "vm_ok s' root T xs" "user_ok s' T xs" "\<And>v. leaf (pmem s') T v = leaf (pmem s) T v"
            "touches T (frame_of (pmem s1) T ` user_pages (pmem s1) T) s1 s'"
            "if \<forall>i < ?k. uwritable (pmem s) T (?v + PGSIZE + of_nat i)
             then r = 0 \<and> (\<forall>w. uget (pmem s') T w = (if in_range (?v + PGSIZE) ?k w
               then Some (?src ! unat (w - (?v + PGSIZE))) else uget (pmem s1) T w))
             else r = - 1"
          using less.hyps [OF _ w(1,2), of ?src "?v + PGSIZE"] unfolding w(3) uw length_drop by blast
        have all: "(\<forall>i < length src. uwritable (pmem s) T (va + of_nat i))
            \<longleftrightarrow> (\<forall>i < ?k. uwritable (pmem s) T (?v + PGSIZE + of_nat i))" (is "?L \<longleftrightarrow> ?R")
        proof
          assume L: ?L
          show ?R
          proof (intro allI impI)
            fix i assume "i < ?k"
            then have "?n + i < length src" by simp
            then have "uwritable (pmem s) T (va + of_nat (?n + i))" using L by blast
            then show "uwritable (pmem s) T (?v + PGSIZE + of_nat i)"
              using next_page by (simp add: add.assoc [symmetric])
          qed
        next
          assume R: ?R
          show ?L
          proof (intro allI impI)
            fix i assume i: "i < length src"
            show "uwritable (pmem s) T (va + of_nat i)"
            proof (cases "i < ?n")
              case False
              then obtain j where "i = ?n + j" using le_Suc_ex not_less by blast
              then show ?thesis using R i next_page by (simp add: add.assoc [symmetric])
            qed (rule here)
          qed
        qed
        have "touches T (frame_of (pmem s) T ` user_pages (pmem s) T) s s'"
          using touches_trans [OF w(5) ih(5)] w(3) by (simp add: user_pages_def frame_of_def)
        moreover have "uget (pmem s') T x =
            (if in_range va (length src) x then Some (src ! unat (x - va)) else uget (pmem s) T x)" if ?R for x
        proof -
          have len: "?n + ?k = length src" "length (take ?n src) = ?n" using False by auto
          have lt: "?n + ?k < 2 ^ 64" using less.prems(3) len by simp
          note r = in_range_append [OF lt, of va x, unfolded next_page len(1)]
          have "uget (pmem s') T x = (if in_range (?v + PGSIZE) ?k x
              then Some (?src ! unat (x - (?v + PGSIZE))) else uget (pmem s1) T x)"
            using ih(6) that by (simp only: if_True)
          moreover have "uget (pmem s1) T x =
              (if in_range va ?n x then Some (src ! unat (x - va)) else uget (pmem s) T x)"
            using w(4) [of x] len(2) by (auto simp: in_range_def)
          moreover have "?src ! unat (x - (?v + PGSIZE)) = src ! unat (x - va)" if "in_range (?v + PGSIZE) ?k x"
            using r(2) [OF that] False by simp
          ultimately show ?thesis using r(1) by simp
        qed
        ultimately show ?thesis using step ih all by (cases ?R) auto
      qed
    qed
  qed
qed

section \<open>A machine with one user page\<close>

text \<open>One page at user address 0, readable and writable, in the frame at \<open>0x80004000\<close>.\<close>

definition one_page_mem :: mem where
  "one_page_mem =
     write64 (write64 (write64 (\<lambda>_. 0) (pte_addr 0x80001000 0) (PA2PTE 0x80002000 OR PTE_V))
       (pte_addr 0x80002000 0) (PA2PTE 0x80003000 OR PTE_V))
       (pte_addr 0x80003000 0) (PA2PTE 0x80004000 OR (PTE_R OR PTE_W OR PTE_U) OR PTE_V)"

definition one_page_state :: kmem_state where
  "one_page_state = \<lparr>pmem = one_page_mem, freelist = 0, ram_end = 0x80005000, kend = 0x80001000\<rparr>"

definition one_page_tree :: ptree where
  "one_page_tree = [[] \<mapsto> 0x80001000, [0] \<mapsto> 0x80002000, [0, 0] \<mapsto> 0x80003000]"

lemma one_page_entry:
  assumes "unat i < 512" "t \<in> {0x80001000, 0x80002000, 0x80003000}"
  shows "read64 one_page_mem (pte_addr t i) =
    (if i = 0 then (if t = 0x80001000 then PA2PTE 0x80002000 OR PTE_V
       else if t = 0x80002000 then PA2PTE 0x80003000 OR PTE_V
       else PA2PTE 0x80004000 OR (PTE_R OR PTE_W OR PTE_U) OR PTE_V) else 0)"
proof -
  have zero: "read64 (\<lambda>_. 0) (pte_addr p i) = 0" for p
    using assms(1) by (intro read64_zero_page) simp
  have al: "page_aligned 0x80001000" "page_aligned 0x80002000" "page_aligned 0x80003000"
    by (simp_all add: page_aligned_def)
  show ?thesis
    using assms by (auto simp: one_page_mem_def pte_addr_read_other al zero)
qed

lemma one_page_ok: "vm_ok one_page_state 0x80001000 one_page_tree []"
proof -
  have T: "one_page_tree p = Some t \<longleftrightarrow> p = [] \<and> t = 0x80001000 \<or> p = [0] \<and> t = 0x80002000
      \<or> p = [0, 0] \<and> t = 0x80003000" for p t
    by (auto simp: one_page_tree_def)
  have al: "page_aligned 0x80001000" "page_aligned 0x80002000" "page_aligned 0x80003000"
    by (simp_all add: page_aligned_def)
  have "tree_ok 0x80001000 one_page_tree"
    unfolding tree_ok_def
  proof (intro conjI allI impI)
    show "one_page_tree [] = Some 0x80001000" by (simp add: T)
    show "length p \<le> 2" if "one_page_tree p \<noteq> None" for p
      using that T [of p "the (one_page_tree p)"] by auto
    show "one_page_tree p \<noteq> None" if pi: "one_page_tree (p @ [i]) \<noteq> None" for p i
    proof -
      have "p @ [i] = [0] \<or> p @ [i] = [0, 0]"
        using pi T [of "p @ [i]" "the (one_page_tree (p @ [i]))"] by auto
      then have "p = [] \<or> p = [0]" by (auto simp: append_eq_Cons_conv)
      then show ?thesis by (auto simp: one_page_tree_def)
    qed
    show "p = q" if "one_page_tree p = Some t" "one_page_tree q = Some t" for p q t
      using that unfolding T by (elim disjE conjE) simp_all
    show "page_aligned t" if "one_page_tree p = Some t" for p t
      using that al unfolding T by blast
  qed
  moreover have "entries_ok (pmem one_page_state) one_page_tree"
    unfolding entries_ok_def
  proof (intro allI impI)
    fix p t and i :: u64 assume t: "one_page_tree p = Some t" "length p < 2" "unat i < 512"
    have "one_page_tree [i] = (if i = 0 then Some 0x80002000 else None)"
      "one_page_tree [0, i] = (if i = 0 then Some 0x80003000 else None)"
      by (simp_all add: one_page_tree_def)
    moreover have "p = [] \<and> t = 0x80001000 \<or> p = [0] \<and> t = 0x80002000"
      using t(1,2) unfolding T by auto
    ultimately show "child_ok (read64 (pmem one_page_state) (pte_addr t i)) (one_page_tree (p @ [i]))"
      using one_page_entry [OF t(3), of t] al
      by (elim disjE conjE) (simp_all add: one_page_state_def child_ok_def valid_pte_def)
  qed
  moreover have "page_ok one_page_state t" if "one_page_tree p = Some t" for p t
    using that al unfolding T by (elim disjE conjE) (simp_all add: page_ok_def one_page_state_def)
  ultimately show ?thesis
    by (simp add: vm_ok_def kmem_inv_def one_page_state_def)
qed

lemma one_page_leaf:
  assumes "page_aligned v" "v < MAXVA"
  shows "leaf (pmem one_page_state) one_page_tree v =
    (if v = 0 then PA2PTE 0x80004000 OR (PTE_R OR PTE_W OR PTE_U) OR PTE_V else 0)"
proof -
  have 0: "pathof 0 = [0, 0]" "PX 0 0 = 0" by (simp_all add: pathof_def PX_def)
  have none: "one_page_tree (pathof v) = (if pathof v = [0, 0] then Some 0x80003000 else None)"
    by (auto simp: one_page_tree_def pathof_def)
  show ?thesis
  proof (cases "v = 0")
    case True
    then show ?thesis using 0 none one_page_entry [of 0 "0x80003000"]
      by (simp add: leaf_def one_page_state_def)
  next
    case False
    then have "pathof v \<noteq> [0, 0] \<or> PX 0 v \<noteq> 0"
      using pathof_PX0_inject [of 0 v] assms 0 by (auto simp: MAXVA_eq)
    then show ?thesis using False none one_page_entry [of "PX 0 v" "0x80003000"]
      by (auto simp: leaf_def one_page_state_def)
  qed
qed

lemma one_page_user: "user_ok one_page_state one_page_tree []" "uwritable (pmem one_page_state) one_page_tree 0"
proof -
  have e: "PA2PTE 0x80004000 OR (PTE_R OR PTE_W OR PTE_U) OR PTE_V = (0x20001017 :: u64)"
    by (simp add: PA2PTE_def)
  have "user_pages (pmem one_page_state) one_page_tree \<subseteq> {0}"
    by (auto simp: user_pages_def one_page_leaf user_pte_def split: if_splits)
  moreover have "leaf_ok one_page_state one_page_tree [] 0"
    unfolding leaf_ok_def frame_of_def one_page_leaf [OF page_aligned_0, simplified MAXVA_eq, simplified]
    by (simp add: PA2PTE_def valid_pte_def PTE_FLAGS_def PTE2PA_def page_ok_def page_aligned_def
        one_page_state_def one_page_tree_def)
  ultimately show "user_ok one_page_state one_page_tree []"
    by (auto simp: user_ok_def leaves_ok_def MAXVA_eq inj_on_def)
  show "uwritable (pmem one_page_state) one_page_tree 0"
    using one_page_leaf [OF page_aligned_0] e by (simp add: uwritable_def PGROUNDDOWN_def MAXVA_eq user_pte_def)
qed

section \<open>The contract of the copy routines\<close>

text \<open>C6: bytes that \<open>copyout\<close> has stored are the bytes \<open>copyin\<close> then fetches from the same user
  address; no other byte the process can see has changed, and no memory outside the process's
  page tables and its own frames.\<close>

theorem copyout_copyin:
  assumes "vm_ok s root T xs" "user_ok s T xs" "length src < 2 ^ 64" "copyout root va src s = Inr (0, s')"
  shows "copyin root va (length src) s' = Inr (0, src)
    \<and> (\<forall>w. \<not> in_range va (length src) w \<longrightarrow> uget (pmem s') T w = uget (pmem s) T w)
    \<and> touches T (frame_of (pmem s) T ` user_pages (pmem s) T) s s'"
proof -
  from copyout_spec [OF assms(1-3), of va] assms(4) have o: "vm_ok s' root T xs" "user_ok s' T xs"
      "touches T (frame_of (pmem s) T ` user_pages (pmem s) T) s s'"
      "\<And>w. uget (pmem s') T w =
        (if in_range va (length src) w then Some (src ! unat (w - va)) else uget (pmem s) T w)"
    by (auto split: if_splits)
  have got: "uget (pmem s') T (va + of_nat i) = Some (src ! i)" if "i < length src" for i
    using o(4) [of "va + of_nat i"] that assms(3) by (simp add: in_range_def unat_of_nat)
  obtain r bs where c: "copyin root va (length src) s' = Inr (r, bs)"
      "if \<forall>i < length src. uget (pmem s') T (va + of_nat i) \<noteq> None
       then r = 0 \<and> length bs = length src \<and> (\<forall>i < length src. uget (pmem s') T (va + of_nat i) = Some (bs ! i))
       else r = - 1"
    using copyin_spec [OF o(1) user_ok_nonzero [OF o(1,2)], of va "length src"] by blast
  have "\<forall>i < length src. uget (pmem s') T (va + of_nat i) \<noteq> None" using got by simp
  then have "r = 0" "length bs = length src" "\<And>i. i < length src \<Longrightarrow> bs ! i = src ! i"
    using c(2) got by auto
  then have "r = 0 \<and> bs = src" by (simp add: nth_equalityI)
  with c(1) o show ?thesis by simp
qed

theorem copyout_copyin_witness:
  "\<exists>s'. copyout 0x80001000 0 [1, 2, 3] one_page_state = Inr (0, s') \<and> copyin 0x80001000 0 3 s' = Inr (0, [1, 2, 3])"
proof -
  have w: "uwritable (pmem one_page_state) one_page_tree (0 + of_nat i)" if "i < 3" for i
  proof -
    have "i < page_rest 0" using that by (simp add: page_rest_def PGROUNDDOWN_def)
    from same_page(1) [OF this] one_page_user(2) show ?thesis by (simp add: uwritable_def)
  qed
  then obtain s' where s': "copyout 0x80001000 0 [1, 2, 3] one_page_state = Inr (0, s')"
    using copyout_spec [OF one_page_ok one_page_user(1), of "[1, 2, 3]" 0] by (auto split: if_splits)
  with copyout_copyin [OF one_page_ok one_page_user(1) _ s'] show ?thesis
    by (simp add: numeral_3_eq_3)
qed


text \<open>C7: \<open>copyinstr\<close> never stores more than \<open>mx\<close> bytes, and only bytes the process can see, one after the other.  It
  returns 0 exactly when the terminating zero is among them, and then what is stored is the string with
  that zero; otherwise it returns -1, and either the buffer is full or the next byte is not accessible.\<close>

theorem copyinstr_bounded:
  assumes "vm_ok s root T xs" "user_ok s T xs"
  shows "\<exists>r bs. copyinstr root va mx s = Inr (r, bs) \<and> length bs \<le> mx
    \<and> (\<forall>i < length bs. uget (pmem s) T (va + of_nat i) = Some (bs ! i))
    \<and> (if r = 0 then \<exists>str. bs = str @ [0] \<and> 0 \<notin> set str
       else r = - 1 \<and> 0 \<notin> set bs \<and> (length bs = mx \<or> uget (pmem s) T (va + of_nat (length bs)) = None))"
  using copyinstr_spec [OF assms(1) user_ok_nonzero [OF assms], of va mx]
    user_str_bounds [of "uget (pmem s) T" va mx] by (metis surj_pair)

lemma one_page_zero: "uget (pmem one_page_state) one_page_tree 0 = Some 0"
proof -
  have e: "leaf (pmem one_page_state) one_page_tree 0 = 0x20001017"
    using one_page_leaf [OF page_aligned_0] by (simp add: MAXVA_eq PA2PTE_def)
  have z: "pmem one_page_state 0x80004000 = 0"
    by (simp add: one_page_state_def one_page_mem_def in_range_def pte_addr_def)
  show ?thesis by (simp add: uget_def Let_def PGROUNDDOWN_def e z MAXVA_eq user_pte_def PTE2PA_def)
qed

theorem copyinstr_bounded_witness: "copyinstr 0x80001000 0 5 one_page_state = Inr (0, [0])"
proof -
  obtain r bs where c: "copyinstr 0x80001000 0 5 one_page_state = Inr (r, bs)"
      "\<forall>i < length bs. uget (pmem one_page_state) one_page_tree (0 + of_nat i) = Some (bs ! i)"
      "if r = 0 then \<exists>str. bs = str @ [0] \<and> 0 \<notin> set str
       else r = - 1 \<and> 0 \<notin> set bs
         \<and> (length bs = 5 \<or> uget (pmem one_page_state) one_page_tree (0 + of_nat (length bs)) = None)"
    using copyinstr_bounded [OF one_page_ok one_page_user(1), of 0 5] by blast
  have "bs \<noteq> []" using c(3) one_page_zero by (auto split: if_splits)
  then obtain rest where bs: "bs = 0 # rest" using c(2) one_page_zero by (cases bs) auto
  then have "r = 0" using c(3) by (auto split: if_splits)
  then show ?thesis using c(1,3) bs by (auto simp: Cons_eq_append_conv)
qed

end
