(* ===== verification/VmFrame.thy ===== *)
theory VmFrame
  imports Vm
begin

text \<open>
  Whatever their arguments, the operations of \<^verbatim>\<open>kernel/kalloc.c\<close> and \<^verbatim>\<open>kernel/vm.c\<close> change nothing
  of the machine but memory and the free list.  The layers above use this to know that their own
  state survives a call.
\<close>

unbundle bit_operations_syntax

lemma kmem_only_upd: "kmem_only s t \<Longrightarrow> kmem_only s (t\<lparr>pmem := m\<rparr>)"
  using kmem_only_trans kmem_only_pmem by blast

lemma kmem_only_freelist: "kmem_only s (s\<lparr>freelist := f\<rparr>)"
  using kmem_onlyI [where s = s and f = f and m = "pmem s"] by simp

lemma kalloc_frame: "kalloc s = (p, s') \<Longrightarrow> kmem_only s s'"
  using kmem_only_upd [OF kmem_only_freelist] by (auto simp: kalloc_def Let_def split: if_splits)

lemma kfree_frame: "kfree p s = Inr s' \<Longrightarrow> kmem_only s s'"
  by (auto simp: kfree_def Let_def kmem_only_def split: if_splits)

lemma walk_loop_frame: "walk_loop l pt va alloc s = (p, s') \<Longrightarrow> kmem_only s s'"
proof (induction l arbitrary: pt s)
  case (Suc l)
  show ?case
  proof (cases "read64 (pmem s) (pte_addr pt (PX (Suc l) va)) AND PTE_V \<noteq> 0 \<or> \<not> alloc")
    case True
    with Suc show ?thesis by (auto simp: Let_def split: if_splits)
  next
    case False
    obtain c s1 where k: "kalloc s = (c, s1)" by (cases "kalloc s")
    note k1 = kalloc_frame [OF k]
    show ?thesis
    proof (cases "c = 0")
      case True
      with False k k1 Suc.prems show ?thesis by (auto simp: Let_def)
    next
      case nz: False
      have "kmem_only (s1\<lparr>pmem := write64 (memset (pmem s1) c 0 4096)
          (pte_addr pt (PX (Suc l) va)) (PA2PTE c OR PTE_V)\<rparr>) s'"
        using Suc.IH False k nz Suc.prems by (auto simp: Let_def)
      then show ?thesis using kmem_only_trans [OF kmem_only_upd [OF k1]] by blast
    qed
  qed
qed simp

lemma walk_frame: "walk pt va alloc s = Inr (p, s') \<Longrightarrow> kmem_only s s'"
  by (auto simp: walk_def split: if_splits intro: walk_loop_frame)

lemma walk_noalloc: "walk pt va False s = Inr (p, s') \<Longrightarrow> s' = s"
proof -
  have "walk_loop l pt va False s = (p, s') \<Longrightarrow> s' = s" for l pt
    by (induction l arbitrary: pt) (auto simp: Let_def split: if_splits)
  then show "walk pt va False s = Inr (p, s') \<Longrightarrow> s' = s"
    by (auto simp: walk_def split: if_splits)
qed

lemma mappages_loop_frame: "mappages_loop pt a lst pa perm s = Inr (r, s') \<Longrightarrow> kmem_only s s'"
proof (induction pt a lst pa perm s rule: mappages_loop.induct)
  case (1 pt a lst pa perm s)
  from "1.prems" obtain pte s1 where w: "walk pt a True s = Inr (pte, s1)"
    by (subst (asm) mappages_loop.simps) (auto simp: bnd_eq_Inr)
  note w1 = walk_frame [OF w]
  let ?s2 = "s1\<lparr>pmem := write64 (pmem s1) pte (PA2PTE pa OR perm OR PTE_V)\<rparr>"
  have w2: "kmem_only s ?s2" by (rule kmem_only_upd [OF w1])
  show ?case
  proof (cases "pte = 0 \<or> a = lst")
    case True
    with "1.prems" w w1 w2 show ?thesis
      by (subst (asm) mappages_loop.simps) (auto simp: Let_def split: if_splits)
  next
    case False
    then have ok: "read64 (pmem s1) pte AND PTE_V = 0"
        "mappages_loop pt (a + PGSIZE) lst (pa + PGSIZE) perm ?s2 = Inr (r, s')"
      using "1.prems" w by (subst (asm) mappages_loop.simps, auto simp: Let_def split: if_splits)+
    have "kmem_only ?s2 s'"
      by (rule "1.IH" [OF w refl _ _ refl _ ok(2)]) (use False ok(1) in auto)
    then show ?thesis by (rule kmem_only_trans [OF w2])
  qed
qed

lemma mappages_frame: "mappages pt va n pa perm s = Inr (r, s') \<Longrightarrow> kmem_only s s'"
  by (auto simp: mappages_def split: if_splits intro: mappages_loop_frame)

lemma uvmunmap_loop_frame: "uvmunmap_loop pt a lim fr s = Inr s' \<Longrightarrow> kmem_only s s'"
proof (induction pt a lim fr s rule: uvmunmap_loop.induct)
  case (1 pt a lim fr s)
  show ?case
  proof (cases "a < lim")
    case False
    with "1.prems" show ?thesis by (subst (asm) uvmunmap_loop.simps) auto
  next
    case True
    with "1.prems" obtain pte s1 s2 where w: "walk pt a False s = Inr (pte, s1)"
        "pte \<noteq> 0" "read64 (pmem s1) pte AND PTE_V \<noteq> 0" "PTE_FLAGS (read64 (pmem s1) pte) \<noteq> PTE_V"
        "(if fr then kfree (PTE2PA (read64 (pmem s1) pte)) s1 else Inr s1) = Inr s2"
        "uvmunmap_loop pt (a + PGSIZE) lim fr (s2\<lparr>pmem := write64 (pmem s2) pte 0\<rparr>) = Inr s'"
      by (subst (asm) uvmunmap_loop.simps) (auto simp: bnd_eq_Inr split: if_splits)
    have "kmem_only s1 s2" using w(5) kfree_frame by (auto split: if_splits)
    then have "kmem_only s (s2\<lparr>pmem := write64 (pmem s2) pte 0\<rparr>)"
      using kmem_only_trans [OF walk_frame [OF w(1)]] kmem_only_upd by blast
    moreover have "kmem_only (s2\<lparr>pmem := write64 (pmem s2) pte 0\<rparr>) s'"
      by (rule "1.IH" [OF True w(1) refl w(2) _ w(4) w(5,6)]) (use w(3) in simp)
    ultimately show ?thesis by (rule kmem_only_trans)
  qed
qed

lemma uvmunmap_frame: "uvmunmap pt va n fr s = Inr s' \<Longrightarrow> kmem_only s s'"
  by (auto simp: uvmunmap_def split: if_splits intro: uvmunmap_loop_frame)

lemma uvmcreate_frame: "uvmcreate s = (p, s') \<Longrightarrow> kmem_only s s'"
  using kalloc_frame [of s] kmem_only_upd [of s]
  by (cases "kalloc s") (auto simp: uvmcreate_def split: if_splits)

lemma uvmdealloc_frame: "uvmdealloc pt a b s = Inr (r, s') \<Longrightarrow> kmem_only s s'"
  by (auto simp: uvmdealloc_def Let_def bnd_eq_Inr split: if_splits intro: uvmunmap_frame)

lemma freewalk_frame:
  fixes s s' :: "'a kmem_state_scheme"
  shows "freewalk d pt s = Inr s' \<Longrightarrow> kmem_only s s'"
proof (induction d arbitrary: pt s s')
  case (Suc d)
  have loop: "freewalk_loop (freewalk d) is pt s = Inr t \<Longrightarrow> kmem_only s t"
    for "is" and s t :: "'a kmem_state_scheme"
  proof (induction "is" arbitrary: s)
    case (Cons i "is")
    show ?case
    proof (cases "\<exists>t1. freewalk d (PTE2PA (read64 (pmem s) (pte_addr pt i))) s = Inr t1 \<and>
        freewalk_loop (freewalk d) is pt (t1\<lparr>pmem := write64 (pmem t1) (pte_addr pt i) 0\<rparr>) = Inr t")
      case True
      then obtain t1 where t1: "freewalk d (PTE2PA (read64 (pmem s) (pte_addr pt i))) s = Inr t1"
          "freewalk_loop (freewalk d) is pt (t1\<lparr>pmem := write64 (pmem t1) (pte_addr pt i) 0\<rparr>) = Inr t" by blast
      show ?thesis
        by (rule kmem_only_trans [OF kmem_only_upd [OF Suc.IH [OF t1(1)]] Cons.IH [OF t1(2)]])
    next
      case False
      with Cons show ?thesis by (auto simp: Let_def bnd_eq_Inr split: if_splits)
    qed
  qed simp
  from Suc.prems obtain t where "freewalk_loop (freewalk d) (map of_nat [0..<512]) pt s = Inr t" "kfree pt t = Inr s'"
    by (auto simp: bnd_eq_Inr)
  then show ?case using loop kfree_frame kmem_only_trans by blast
qed simp

lemma uvmfree_frame: "uvmfree pt n s = Inr s' \<Longrightarrow> kmem_only s s'"
  unfolding uvmfree_def bnd_eq_Inr
  using uvmunmap_frame freewalk_frame kmem_only_trans by (auto split: if_splits) blast

lemma uvmalloc_loop_frame: "uvmalloc_loop pt a b n xp s = Inr (r, s') \<Longrightarrow> kmem_only s s'"
proof (induction pt a b n xp s rule: uvmalloc_loop.induct)
  case (1 pt a b n xp s)
  obtain c s1 where k: "kalloc s = (c, s1)" by (cases "kalloc s")
  note k1 = kalloc_frame [OF k]
  let ?s2 = "s1\<lparr>pmem := memset (pmem s1) c 0 4096\<rparr>"
  show ?case
  proof (cases "a < n \<and> c \<noteq> 0")
    case False
    with "1.prems" k k1 show ?thesis
      by (subst (asm) uvmalloc_loop.simps)
        (auto simp: bnd_eq_Inr split: if_splits dest!: uvmdealloc_frame intro: kmem_only_trans)
  next
    case True
    with "1.prems" k obtain r1 s3 where m: "mappages pt a PGSIZE c (PTE_R OR PTE_U OR xp) ?s2 = Inr (r1, s3)"
      by (subst (asm) uvmalloc_loop.simps) (auto simp: bnd_eq_Inr Let_def)
    have k3: "kmem_only s s3" by (rule kmem_only_trans [OF kmem_only_upd [OF k1] mappages_frame [OF m]])
    show ?thesis
    proof (cases "r1 = 0")
      case False
      with "1.prems" True k m obtain s4 r4 where "kfree c s3 = Inr s4" "uvmdealloc pt a b s4 = Inr (r4, s')"
        by (subst (asm) uvmalloc_loop.simps) (auto simp: bnd_eq_Inr Let_def)
      then show ?thesis
        using kmem_only_trans [OF kmem_only_trans [OF k3 kfree_frame] uvmdealloc_frame] by blast
    next
      case zero: True
      have l: "uvmalloc_loop pt (a + PGSIZE) b n xp s3 = Inr (r, s')"
        using "1.prems" True k m zero by (subst (asm) uvmalloc_loop.simps) (auto simp: Let_def)
      have "kmem_only s3 s'"
        by (rule "1.IH" [OF _ k [symmetric] _ refl m refl _ l]) (use True zero in auto)
      then show ?thesis by (rule kmem_only_trans [OF k3])
    qed
  qed
qed

lemma uvmalloc_frame: "uvmalloc pt a n xp s = Inr (r, s') \<Longrightarrow> kmem_only s s'"
  by (auto simp: uvmalloc_def Let_def split: if_splits intro: uvmalloc_loop_frame)

lemma copyout_frame: "copyout pt va src s = Inr (r, s') \<Longrightarrow> kmem_only s s'"
proof (induction pt va src s rule: copyout.induct)
  case (1 pt va src s)
  show ?case
  proof (cases "src = [] \<or> PGROUNDDOWN va \<ge> MAXVA")
    case True
    with "1.prems" show ?thesis by (subst (asm) copyout.simps) (auto simp: Let_def split: if_splits)
  next
    case False
    then obtain pte s1 where w: "walk pt (PGROUNDDOWN va) False s = Inr (pte, s1)"
      using "1.prems" by (subst (asm) copyout.simps) (auto simp: Let_def bnd_eq_Inr)
    then have s1: "s1 = s" by (rule walk_noalloc)
    let ?bad = "pte = 0 \<or> read64 (pmem s) pte AND PTE_V = 0 \<or> read64 (pmem s) pte AND PTE_U = 0
      \<or> read64 (pmem s) pte AND PTE_W = 0"
    let ?n = "if page_rest va > length src then length src else page_rest va"
    let ?s2 = "s\<lparr>pmem := write_bytes (pmem s) (PTE2PA (read64 (pmem s) pte) + (va - PGROUNDDOWN va)) (take ?n src)\<rparr>"
    show ?thesis
    proof (cases ?bad)
      case True
      with "1.prems" w s1 False show ?thesis by (subst (asm) copyout.simps) (auto simp: Let_def)
    next
      case good: False
      then have l: "copyout pt (PGROUNDDOWN va + PGSIZE) (drop ?n src) ?s2 = Inr (r, s')"
        using "1.prems" w s1 False by (subst (asm) copyout.simps) (simp add: Let_def)
      have "kmem_only ?s2 s'"
        by (rule "1.IH" [OF _ refl _ w [unfolded s1] refl good refl refl refl l]) (use False in auto)
      then show ?thesis by (rule kmem_only_trans [OF kmem_only_pmem])
    qed
  qed
qed

text \<open>Reads through a page table depend on memory only.\<close>

lemma walk_loop_cong:
  fixes s :: "'a kmem_state_scheme" and t :: "'b kmem_state_scheme"
  assumes "pmem s = pmem t"
  shows "fst (walk_loop l pt va False s) = fst (walk_loop l pt va False t)"
  using assms by (induction l arbitrary: pt) (auto simp: Let_def)

lemma walkaddr_cong:
  fixes s :: "'a kmem_state_scheme" and t :: "'b kmem_state_scheme"
  assumes "pmem s = pmem t"
  shows "walkaddr pt va s = walkaddr pt va t"
proof -
  have w: "walk pt va False s = (if va \<ge> MAXVA then panic ''walk'' else Inr (fst (walk_loop 2 pt va False s), s))"
    for s :: "'c kmem_state_scheme"
    using walk_noalloc [of pt va s] by (cases "walk_loop 2 pt va False s") (auto simp: walk_def)
  have l: "fst (walk_loop 2 pt va False s) = fst (walk_loop 2 pt va False t)" using assms by (rule walk_loop_cong)
  show ?thesis unfolding walkaddr_def w using assms l by simp
qed

lemma copyin_cong:
  fixes s :: "'a kmem_state_scheme" and t :: "'b kmem_state_scheme"
  assumes "pmem s = pmem t"
  shows "copyin pt va len s = copyin pt va len t"
proof (induction len arbitrary: va rule: less_induct)
  case (less len)
  have "copyin pt (PGROUNDDOWN va + PGSIZE) (len - n) s = copyin pt (PGROUNDDOWN va + PGSIZE) (len - n) t" if "0 < n" "0 < len" for n
    using that by (intro less.IH) simp
  then show ?case
    using page_rest_eq(3) [of va]
    by (subst (1 2) copyin.simps) (simp add: walkaddr_cong [OF assms] assms Let_def cong: if_cong)
qed

end
