(* ===== verification/Proc.thy ===== *)
theory Proc
  imports VmCopy VmFrame
begin

text \<open>
  \<^verbatim>\<open>kernel/proc.h\<close> and the part of \<^verbatim>\<open>kernel/proc.c\<close> that does not need the file system: the process
  table, allocation and release of a process, its page table, \<open>growproc\<close>, \<open>sleep\<close> and \<open>wakeup\<close>,
  \<open>kill\<close>, and the copies to and from the current process.  Processes are named by their index in
  \<^verbatim>\<open>proc[]\<close>.  The spin locks \<^verbatim>\<open>p->lock\<close> and \<^verbatim>\<open>pid_lock\<close> make each routine one step of its CPU.
\<close>

unbundle bit_operations_syntax

section \<open>The process table\<close>

datatype procstate = UNUSED | USED | SLEEPING | RUNNABLE | RUNNING | ZOMBIE

text \<open>Saved registers of a kernel thread; the callee-saved ones by number.\<close>

record kcontext =
  ctx_ra :: u64
  ctx_sp :: u64
  ctx_s :: "nat \<Rightarrow> u64"

record proc =
  p_state :: procstate
  p_chan :: "chan option"
  p_killed :: bool
  p_xstate :: int
  p_pid :: int
  p_parent :: "nat option"
  p_kstack :: u64
  p_sz :: u64
  p_pagetable :: addr
  p_trapframe :: addr
  p_context :: kcontext
  p_ofile :: "nat \<Rightarrow> nat option"
  p_cwd :: "nat option"
  p_name :: "byte list"

text \<open>
  \<^verbatim>\<open>struct trapframe\<close> lives in a page of its own.  Its fields by offset: the kernel words, the
  integer registers \<open>x1\<close> to \<open>x31\<close> (\<open>ra, sp, gp, tp, t0-2, s0-1, a0-7, s2-11, t3-6\<close>), the
  floating-point registers and the control-flow words.
\<close>

datatype tfield =
    Kernel_satp | Kernel_sp | Kernel_trap | Epc | Kernel_hartid
  | XReg nat | FReg nat | Fscr | Pelp | Ssp

fun tf_offset :: "tfield \<Rightarrow> u64" where
  "tf_offset Kernel_satp = 0"
| "tf_offset Kernel_sp = 8"
| "tf_offset Kernel_trap = 16"
| "tf_offset Epc = 24"
| "tf_offset Kernel_hartid = 32"
| "tf_offset (XReg n) = 32 + 8 * of_nat n"
| "tf_offset (FReg n) = 288 + 8 * of_nat n"
| "tf_offset Fscr = 544"
| "tf_offset Pelp = 552"
| "tf_offset Ssp = 560"

abbreviation tf_size :: nat where "tf_size \<equiv> 568"

text \<open>The register \<open>a\<close>\<^emph>\<open>n\<close> of the calling convention is \<open>x\<close>\<^emph>\<open>(10 + n)\<close>.\<close>

abbreviation AReg :: "nat \<Rightarrow> tfield" where "AReg n \<equiv> XReg (10 + n)"

definition tf_get :: "addr \<Rightarrow> tfield \<Rightarrow> 'a kmem_state_scheme \<Rightarrow> u64" where
  "tf_get tf f s = read64 (pmem s) (tf + tf_offset f)"

definition tf_set :: "addr \<Rightarrow> tfield \<Rightarrow> u64 \<Rightarrow> 'a kmem_state_scheme \<Rightarrow> 'a kmem_state_scheme" where
  "tf_set tf f v s = s\<lparr>pmem := write64 (pmem s) (tf + tf_offset f) v\<rparr>"

text \<open>
  \<open>curproc\<close> is \<^verbatim>\<open>mycpu()->proc\<close> of the CPU that runs the routine.
\<close>

record proc_state = vm_state +
  procs :: "nat \<Rightarrow> proc"
  initproc :: "nat option"
  nextpid :: int
  curproc :: "nat option"
  ticks :: u32
  forkret_addr :: u64

definition upd_proc :: "nat \<Rightarrow> (proc \<Rightarrow> proc) \<Rightarrow> 'a proc_state_scheme \<Rightarrow> 'a proc_state_scheme" where
  "upd_proc i f s = s\<lparr>procs := (procs s)(i := f (procs s i))\<rparr>"

definition myproc :: "'a proc_state_scheme \<Rightarrow> nat" where
  "myproc s = the (curproc s)"

definition mp :: "'a proc_state_scheme \<Rightarrow> proc" where
  "mp s = procs s (myproc s)"

definition procinit :: "'a proc_state_scheme \<Rightarrow> 'a proc_state_scheme" where
  "procinit s = fold (\<lambda>i. upd_proc i (\<lambda>p. p\<lparr>p_state := UNUSED, p_kstack := KSTACK (of_nat i)\<rparr>)) [0..<NPROC] s"

definition allocpid :: "'a proc_state_scheme \<Rightarrow> int \<times> 'a proc_state_scheme" where
  "allocpid s = (let pid = nextpid s in (pid, s\<lparr>nextpid := nextpid s + 1\<rparr>))"

section \<open>Page tables of processes\<close>

text \<open>
  The configuration is the one of \<^verbatim>\<open>config.mk\<close>: landing pads on, shadow stack in hardware.
\<close>

definition proc_pagetable :: "nat \<Rightarrow> 'a proc_state_scheme \<Rightarrow> (addr \<times> 'a proc_state_scheme) res" where
  "proc_pagetable p s =
     (case uvmcreate s of (pagetable, s) \<Rightarrow>
      if pagetable = 0 then Inr (0, s)
      else bnd (mappages pagetable TRAMPOLINE PGSIZE (trampoline s) (PTE_R OR PTE_X) s) (\<lambda>(r, s).
        if r < 0 then bnd (uvmfree pagetable 0 s) (\<lambda>s. Inr (0, s))
        else bnd (mappages pagetable TRAPFRAME PGSIZE (p_trapframe (procs s p)) (PTE_R OR PTE_W) s) (\<lambda>(r, s).
          if r < 0 then
            bnd (uvmunmap pagetable TRAMPOLINE 1 False s) (\<lambda>s.
            bnd (uvmfree pagetable 0 s) (\<lambda>s. Inr (0, s)))
          else case kalloc s of (shadow_stack, s) \<Rightarrow>
            bnd (mappages pagetable SHADOW_STACK 0x1000 shadow_stack PTE_W s) (\<lambda>(r, s).
              if r < 0 then
                bnd (uvmunmap pagetable TRAMPOLINE 1 False s) (\<lambda>s.
                bnd (uvmunmap pagetable TRAPFRAME 1 False s) (\<lambda>s.
                bnd (uvmunmap pagetable SHADOW_STACK 1 True s) (\<lambda>s. Inr (0, s))))
              else Inr (pagetable, s)))))"

definition proc_freepagetable :: "addr \<Rightarrow> u64 \<Rightarrow> 'a proc_state_scheme \<Rightarrow> 'a proc_state_scheme res" where
  "proc_freepagetable pagetable sz s =
     bnd (uvmunmap pagetable TRAMPOLINE 1 False s) (\<lambda>s.
     bnd (uvmunmap pagetable TRAPFRAME 1 False s) (\<lambda>s.
     bnd (uvmunmap pagetable SHADOW_STACK 1 True s) (\<lambda>s.
     uvmfree pagetable sz s)))"

definition freeproc :: "nat \<Rightarrow> 'a proc_state_scheme \<Rightarrow> 'a proc_state_scheme res" where
  "freeproc p s =
     bnd (if p_trapframe (procs s p) \<noteq> 0 then kfree (p_trapframe (procs s p)) s else Inr s) (\<lambda>s.
     let s = upd_proc p (\<lambda>q. q\<lparr>p_trapframe := 0\<rparr>) s in
     bnd (if p_pagetable (procs s p) \<noteq> 0
          then proc_freepagetable (p_pagetable (procs s p)) (p_sz (procs s p)) s else Inr s) (\<lambda>s.
     Inr (upd_proc p (\<lambda>q. q\<lparr>p_pagetable := 0, p_sz := 0, p_pid := 0, p_parent := None,
       p_name := (p_name q)[0 := 0], p_chan := None, p_killed := False, p_xstate := 0,
       p_state := UNUSED\<rparr>) s)))"

fun find_unused :: "nat list \<Rightarrow> 'a proc_state_scheme \<Rightarrow> nat option" where
  "find_unused [] s = None"
| "find_unused (p # ps) s = (if p_state (procs s p) = UNUSED then Some p else find_unused ps s)"

definition allocproc :: "'a proc_state_scheme \<Rightarrow> (nat option \<times> 'a proc_state_scheme) res" where
  "allocproc s =
     (case find_unused [0..<NPROC] s of
        None \<Rightarrow> Inr (None, s)
      | Some p \<Rightarrow>
        (case allocpid s of (pid, s) \<Rightarrow>
         let s = upd_proc p (\<lambda>q. q\<lparr>p_pid := pid, p_state := USED\<rparr>) s in
         case kalloc s of (tf, s) \<Rightarrow>
         let s = upd_proc p (\<lambda>q. q\<lparr>p_trapframe := tf\<rparr>) s in
         if tf = 0 then bnd (freeproc p s) (\<lambda>s. Inr (None, s))
         else
           let s = tf_set tf Pelp 0 s; s = tf_set tf Ssp 0 s in
           bnd (proc_pagetable p s) (\<lambda>(pt, s).
             let s = upd_proc p (\<lambda>q. q\<lparr>p_pagetable := pt\<rparr>) s in
             if pt = 0 then bnd (freeproc p s) (\<lambda>s. Inr (None, s))
             else Inr (Some p, upd_proc p (\<lambda>q. q\<lparr>p_context :=
               \<lparr>ctx_ra = forkret_addr s, ctx_sp = p_kstack q + PGSIZE, ctx_s = (\<lambda>_. 0)\<rparr>\<rparr>) s))))"

definition growproc :: "int \<Rightarrow> 'a proc_state_scheme \<Rightarrow> (int \<times> 'a proc_state_scheme) res" where
  "growproc n s =
     (let p = myproc s; sz = p_sz (procs s p); pt = p_pagetable (procs s p) in
      if n > 0 then
        bnd (uvmalloc pt sz (sz + word_of_int n) PTE_W s) (\<lambda>(sz, s).
          if sz = 0 then Inr (- 1, s) else Inr (0, upd_proc p (\<lambda>q. q\<lparr>p_sz := sz\<rparr>) s))
      else if n < 0 then
        bnd (uvmdealloc pt sz (sz + word_of_int n) s) (\<lambda>(sz, s). Inr (0, upd_proc p (\<lambda>q. q\<lparr>p_sz := sz\<rparr>) s))
      else Inr (0, upd_proc p (\<lambda>q. q\<lparr>p_sz := sz\<rparr>) s))"

section \<open>Sleeping, waking, killing\<close>

text \<open>
  A routine that calls \<open>sleep\<close> stops there: its thread is marked \<open>SLEEPING\<close> on the channel and the
  CPU goes to the scheduler.  \<open>sleep_mark\<close> is the change \<open>sleep\<close> makes to the process table.
\<close>

definition sleep_mark :: "chan \<Rightarrow> 'a proc_state_scheme \<Rightarrow> 'a proc_state_scheme" where
  "sleep_mark ch s = upd_proc (myproc s) (\<lambda>p. p\<lparr>p_chan := Some ch, p_state := SLEEPING\<rparr>) s"

definition wakeup_one :: "chan \<Rightarrow> nat \<Rightarrow> 'a proc_state_scheme \<Rightarrow> 'a proc_state_scheme" where
  "wakeup_one ch i s =
     (if curproc s \<noteq> Some i \<and> p_state (procs s i) = SLEEPING \<and> p_chan (procs s i) = Some ch
      then upd_proc i (\<lambda>p. p\<lparr>p_state := RUNNABLE\<rparr>) s else s)"

definition wakeup :: "chan \<Rightarrow> 'a proc_state_scheme \<Rightarrow> 'a proc_state_scheme" where
  "wakeup ch s = fold (wakeup_one ch) [0..<NPROC] s"

fun kill_loop :: "int \<Rightarrow> nat list \<Rightarrow> 'a proc_state_scheme \<Rightarrow> int \<times> 'a proc_state_scheme" where
  "kill_loop pid [] s = (- 1, s)"
| "kill_loop pid (i # is) s =
     (if p_pid (procs s i) = pid
      then (0, upd_proc i (\<lambda>p. p\<lparr>p_killed := True,
              p_state := (if p_state p = SLEEPING then RUNNABLE else p_state p)\<rparr>) s)
      else kill_loop pid is s)"

definition kill :: "int \<Rightarrow> 'a proc_state_scheme \<Rightarrow> int \<times> 'a proc_state_scheme" where
  "kill pid s = kill_loop pid [0..<NPROC] s"

definition setkilled :: "nat \<Rightarrow> 'a proc_state_scheme \<Rightarrow> 'a proc_state_scheme" where
  "setkilled p s = upd_proc p (\<lambda>q. q\<lparr>p_killed := True\<rparr>) s"

definition killed :: "nat \<Rightarrow> 'a proc_state_scheme \<Rightarrow> bool" where
  "killed p s = p_killed (procs s p)"

section \<open>Copies for the current process\<close>

definition either_copyout ::
    "bool \<Rightarrow> u64 \<Rightarrow> byte list \<Rightarrow> 'a proc_state_scheme \<Rightarrow> (int \<times> 'a proc_state_scheme) res" where
  "either_copyout user_dst dst src s =
     (if user_dst then copyout (p_pagetable (mp s)) dst src s
      else Inr (0, s\<lparr>pmem := write_bytes (pmem s) dst src\<rparr>))"

definition either_copyin ::
    "bool \<Rightarrow> u64 \<Rightarrow> nat \<Rightarrow> 'a proc_state_scheme \<Rightarrow> (int \<times> byte list) res" where
  "either_copyin user_src src len s =
     (if user_src then copyin (p_pagetable (mp s)) src len s
      else Inr (0, read_bytes (pmem s) src len))"

section \<open>Wakeup and kill\<close>

text \<open>The process that \<open>wakeup\<close> leaves behind in slot \<open>i\<close>.\<close>

definition woken :: "chan \<Rightarrow> nat option \<Rightarrow> nat \<Rightarrow> proc \<Rightarrow> proc" where
  "woken ch cur i p =
     (if cur \<noteq> Some i \<and> p_state p = SLEEPING \<and> p_chan p = Some ch then p\<lparr>p_state := RUNNABLE\<rparr> else p)"

lemma wakeup_one_eq: "wakeup_one ch i s = s\<lparr>procs := (procs s)(i := woken ch (curproc s) i (procs s i))\<rparr>"
  by (simp add: wakeup_one_def woken_def upd_proc_def)

lemma wakeup_fold:
  "distinct is \<Longrightarrow> fold (wakeup_one ch) is s =
    s\<lparr>procs := (\<lambda>i. if i \<in> set is then woken ch (curproc s) i (procs s i) else procs s i)\<rparr>"
proof (induction "is" arbitrary: s)
  case (Cons i "is")
  let ?s = "s\<lparr>procs := (procs s)(i := woken ch (curproc s) i (procs s i))\<rparr>"
  have "fold (wakeup_one ch) (i # is) s = ?s\<lparr>procs := \<lambda>j. if j \<in> set is then woken ch (curproc ?s) j (procs ?s j) else procs ?s j\<rparr>"
    using Cons.IH [of ?s] Cons.prems unfolding fold_Cons o_apply wakeup_one_eq [of ch i s] by (simp only: distinct.simps)
  moreover have "(\<lambda>j. if j \<in> set is then woken ch (curproc ?s) j (procs ?s j) else procs ?s j)
      = (\<lambda>j. if j \<in> set (i # is) then woken ch (curproc s) j (procs s j) else procs s j)"
    using Cons.prems by (auto simp: fun_eq_iff)
  ultimately show ?case by simp
qed simp

lemma wakeup_eq:
  "wakeup ch s = s\<lparr>procs := (\<lambda>i. if i < NPROC then woken ch (curproc s) i (procs s i) else procs s i)\<rparr>"
  by (simp add: wakeup_def wakeup_fold)

lemma wakeup_fields [simp]:
  "pmem (wakeup ch s) = pmem s" "curproc (wakeup ch s) = curproc s" "initproc (wakeup ch s) = initproc s"
  "proc_state.more (wakeup ch s) = proc_state.more s" "nextpid (wakeup ch s) = nextpid s"
  by (simp_all add: wakeup_eq)

text \<open>Waking changes nothing but states, and never takes a process out of its slot.\<close>

lemma woken_fields [simp]:
  "p_pid (woken ch c i p) = p_pid p" "p_parent (woken ch c i p) = p_parent p"
  "p_pagetable (woken ch c i p) = p_pagetable p" "p_trapframe (woken ch c i p) = p_trapframe p"
  "p_sz (woken ch c i p) = p_sz p" "p_ofile (woken ch c i p) = p_ofile p" "p_cwd (woken ch c i p) = p_cwd p"
  "p_killed (woken ch c i p) = p_killed p" "p_state (woken ch c i p) = UNUSED \<longleftrightarrow> p_state p = UNUSED"
  "p_state (woken ch c i p) = ZOMBIE \<longleftrightarrow> p_state p = ZOMBIE"
  by (simp_all add: woken_def)

lemma wakeup_no_sleeper:
  "i < NPROC \<Longrightarrow> curproc s \<noteq> Some i \<Longrightarrow>
    \<not> (p_state (procs (wakeup ch s) i) = SLEEPING \<and> p_chan (procs (wakeup ch s) i) = Some ch)"
  by (simp add: wakeup_eq woken_def)

lemma wakeup_idem: "wakeup ch (wakeup ch s) = wakeup ch s"
  by (auto simp: wakeup_eq woken_def fun_eq_iff)

lemma kill_loop_spec:
  "kill_loop pid is s =
    (case find (\<lambda>i. p_pid (procs s i) = pid) is of
       None \<Rightarrow> (- 1, s)
     | Some i \<Rightarrow> (0, upd_proc i (\<lambda>p. p\<lparr>p_killed := True,
         p_state := (if p_state p = SLEEPING then RUNNABLE else p_state p)\<rparr>) s))"
  by (induction "is") auto

section \<open>Process identifiers\<close>

text \<open>Live processes have distinct positive identifiers below \<open>nextpid\<close>; free slots have none.\<close>

definition pids_ok :: "'a proc_state_scheme \<Rightarrow> bool" where
  "pids_ok s \<longleftrightarrow> 0 < nextpid s \<and>
     (\<forall>i < NPROC. p_state (procs s i) \<noteq> UNUSED \<longrightarrow> 0 < p_pid (procs s i) \<and> p_pid (procs s i) < nextpid s) \<and>
     (\<forall>i < NPROC. \<forall>j < NPROC. p_state (procs s i) \<noteq> UNUSED \<longrightarrow> p_state (procs s j) \<noteq> UNUSED \<longrightarrow>
        p_pid (procs s i) = p_pid (procs s j) \<longrightarrow> i = j)"

lemma find_unused_Some:
  "find_unused ps s = Some p \<Longrightarrow> p \<in> set ps \<and> p_state (procs s p) = UNUSED"
  by (induction ps) (auto split: if_splits)

lemma find_unused_None: "find_unused ps s = None \<longleftrightarrow> (\<forall>p \<in> set ps. p_state (procs s p) \<noteq> UNUSED)"
  by (induction ps) auto

lemma kmem_only_proc:
  assumes "kmem_only s s'"
  shows "procs s' = procs s" "nextpid s' = nextpid s" "curproc s' = curproc s" "initproc s' = initproc s"
    "proc_state.more s' = proc_state.more s" "ticks s' = ticks s" "forkret_addr s' = forkret_addr s"
  using assms by (auto simp: kmem_only_def)

lemma proc_pagetable_frame:
  assumes "proc_pagetable p s = Inr (pt, s')"
  shows "kmem_only s s'"
proof -
  obtain c s1 where c: "uvmcreate s = (c, s1)" by (cases "uvmcreate s")
  note f = mappages_frame uvmunmap_frame uvmfree_frame kalloc_frame
  have "c = 0 \<Longrightarrow> ?thesis" using assms c uvmcreate_frame [OF c] by (simp add: proc_pagetable_def)
  moreover have ?thesis if nz: "c \<noteq> 0"
  proof -
    from assms c nz obtain r2 s2 where 2: "mappages c TRAMPOLINE PGSIZE (trampoline s1) (PTE_R OR PTE_X) s1 = Inr (r2, s2)"
      by (auto simp: proc_pagetable_def bnd_eq_Inr)
    note k2 = kmem_only_trans [OF uvmcreate_frame [OF c] mappages_frame [OF 2]]
    show ?thesis
    proof (cases "r2 < 0")
      case True
      with assms c nz 2 obtain "uvmfree c 0 s2 = Inr s'" by (auto simp: proc_pagetable_def bnd_eq_Inr)
      then show ?thesis by (rule kmem_only_trans [OF k2 uvmfree_frame])
    next
      case False
      with assms c nz 2 obtain r3 s3 where
          3: "mappages c TRAPFRAME PGSIZE (p_trapframe (procs s2 p)) (PTE_R OR PTE_W) s2 = Inr (r3, s3)"
        by (auto simp: proc_pagetable_def bnd_eq_Inr)
      note k3 = kmem_only_trans [OF k2 mappages_frame [OF 3]]
      show ?thesis
      proof (cases "r3 < 0")
        case True
        with assms c nz 2 3 False obtain s4 where "uvmunmap c TRAMPOLINE 1 False s3 = Inr s4" "uvmfree c 0 s4 = Inr s'"
          by (auto simp: proc_pagetable_def bnd_eq_Inr)
        then show ?thesis
          using kmem_only_trans [OF kmem_only_trans [OF k3 uvmunmap_frame] uvmfree_frame] by blast
      next
        case ok3: False
        obtain sh s4 where k: "kalloc s3 = (sh, s4)" by (cases "kalloc s3")
        from assms c nz 2 3 False ok3 k obtain r5 s5 where
            5: "mappages c SHADOW_STACK 0x1000 sh PTE_W s4 = Inr (r5, s5)"
          by (auto simp: proc_pagetable_def bnd_eq_Inr)
        note k5 = kmem_only_trans [OF kmem_only_trans [OF k3 kalloc_frame [OF k]] mappages_frame [OF 5]]
        from assms c nz 2 3 False ok3 k 5 have "s' = s5 \<or> (\<exists>s6 s7. uvmunmap c TRAMPOLINE 1 False s5 = Inr s6
            \<and> uvmunmap c TRAPFRAME 1 False s6 = Inr s7 \<and> uvmunmap c SHADOW_STACK 1 True s7 = Inr s')"
          by (auto simp: proc_pagetable_def bnd_eq_Inr split: if_splits)
        then show ?thesis using k5 kmem_only_trans uvmunmap_frame by metis
      qed
    qed
  qed
  ultimately show ?thesis by blast
qed

lemma proc_freepagetable_frame: "proc_freepagetable pt n s = Inr s' \<Longrightarrow> kmem_only s s'"
proof -
  assume "proc_freepagetable pt n s = Inr s'"
  then obtain s1 s2 s3 where u: "uvmunmap pt TRAMPOLINE 1 False s = Inr s1" "uvmunmap pt TRAPFRAME 1 False s1 = Inr s2"
      "uvmunmap pt SHADOW_STACK 1 True s2 = Inr s3" "uvmfree pt n s3 = Inr s'"
    by (auto simp: proc_freepagetable_def bnd_eq_Inr)
  show ?thesis
    by (rule kmem_only_trans [OF kmem_only_trans [OF kmem_only_trans [OF uvmunmap_frame [OF u(1)]
      uvmunmap_frame [OF u(2)]] uvmunmap_frame [OF u(3)]] uvmfree_frame [OF u(4)]])
qed

definition cleared :: "proc \<Rightarrow> proc" where
  "cleared q = q\<lparr>p_trapframe := 0, p_pagetable := 0, p_sz := 0, p_pid := 0, p_parent := None,
     p_name := (p_name q)[0 := 0], p_chan := None, p_killed := False, p_xstate := 0, p_state := UNUSED\<rparr>"

lemma freeproc_procs:
  assumes "freeproc p s = Inr s'"
  shows "procs s' = (procs s)(p := cleared (procs s p))" "nextpid s' = nextpid s" "curproc s' = curproc s"
    "initproc s' = initproc s"
proof -
  obtain s1 where s1: "(if p_trapframe (procs s p) \<noteq> 0 then kfree (p_trapframe (procs s p)) s else Inr s) = Inr s1"
    using assms by (auto simp: freeproc_def bnd_eq_Inr)
  then have k1: "kmem_only s s1" using kfree_frame by (auto split: if_splits)
  let ?s1 = "upd_proc p (\<lambda>q. q\<lparr>p_trapframe := 0\<rparr>) s1"
  obtain s2 where s2: "(if p_pagetable (procs ?s1 p) \<noteq> 0
      then proc_freepagetable (p_pagetable (procs ?s1 p)) (p_sz (procs ?s1 p)) ?s1 else Inr ?s1) = Inr s2"
    using assms s1 by (auto simp: freeproc_def bnd_eq_Inr Let_def)
  then have k2: "kmem_only ?s1 s2" using proc_freepagetable_frame by (auto split: if_splits)
  have "s' = upd_proc p (\<lambda>q. q\<lparr>p_pagetable := 0, p_sz := 0, p_pid := 0, p_parent := None,
       p_name := (p_name q)[0 := 0], p_chan := None, p_killed := False, p_xstate := 0,
       p_state := UNUSED\<rparr>) s2"
    using assms s1 s2 by (simp add: freeproc_def Let_def)
  then show "procs s' = (procs s)(p := cleared (procs s p))" "nextpid s' = nextpid s" "curproc s' = curproc s"
      "initproc s' = initproc s"
    using kmem_only_proc [OF k1] kmem_only_proc [OF k2] by (simp_all add: upd_proc_def cleared_def)
qed

lemma allocproc_cases:
  assumes "allocproc s = Inr (r, s')"
  obtains (full) "r = None" "s' = s" "\<And>p. p < NPROC \<Longrightarrow> p_state (procs s p) \<noteq> UNUSED"
    | (failed) p where "p < NPROC" "p_state (procs s p) = UNUSED" "r = None" "nextpid s' = nextpid s + 1"
        "\<And>j. j \<noteq> p \<Longrightarrow> procs s' j = procs s j" "p_state (procs s' p) = UNUSED"
    | (ok) p where "p < NPROC" "p_state (procs s p) = UNUSED" "r = Some p" "nextpid s' = nextpid s + 1"
        "\<And>j. j \<noteq> p \<Longrightarrow> procs s' j = procs s j" "p_state (procs s' p) = USED" "p_pid (procs s' p) = nextpid s"
        "p_trapframe (procs s' p) \<noteq> 0" "p_pagetable (procs s' p) \<noteq> 0"
proof (cases "find_unused [0..<NPROC] s")
  case None
  with assms show thesis by (intro full) (auto simp: allocproc_def find_unused_None)
next
  case (Some p)
  then have p: "p < NPROC" "p_state (procs s p) = UNUSED" using find_unused_Some [OF Some] by auto
  let ?s1 = "upd_proc p (\<lambda>q. q\<lparr>p_pid := nextpid s, p_state := USED\<rparr>) (s\<lparr>nextpid := nextpid s + 1\<rparr>)"
  obtain tf s2 where k: "kalloc ?s1 = (tf, s2)" by (cases "kalloc ?s1")
  note k2 = kmem_only_proc [OF kalloc_frame [OF k]]
  let ?s3 = "upd_proc p (\<lambda>q. q\<lparr>p_trapframe := tf\<rparr>) s2"
  show thesis
  proof (cases "tf = 0")
    case True
    with assms Some k obtain f: "freeproc p ?s3 = Inr s'" "r = None"
      by (auto simp: allocproc_def allocpid_def Let_def bnd_eq_Inr)
    show thesis
      using freeproc_procs [OF f(1)] f(2) p k2
      by (intro failed [of p]) (simp_all add: upd_proc_def cleared_def)
  next
    case False
    let ?s4 = "tf_set tf Ssp 0 (tf_set tf Pelp 0 ?s3)"
    from assms Some k False obtain pt s5 where pp: "proc_pagetable p ?s4 = Inr (pt, s5)"
      by (auto simp: allocproc_def allocpid_def Let_def bnd_eq_Inr)
    note k5 = kmem_only_proc [OF proc_pagetable_frame [OF pp]]
    let ?s6 = "upd_proc p (\<lambda>q. q\<lparr>p_pagetable := pt\<rparr>) s5"
    show thesis
    proof (cases "pt = 0")
      case True
      with assms Some k False pp obtain f: "freeproc p ?s6 = Inr s'" "r = None"
        by (auto simp: allocproc_def allocpid_def Let_def bnd_eq_Inr)
      show thesis
        using freeproc_procs [OF f(1)] f(2) p k2 k5
        by (intro failed [of p]) (simp_all add: upd_proc_def cleared_def tf_set_def)
    next
      case nz: False
      with assms Some k False pp have "r = Some p" "s' = upd_proc p (\<lambda>q. q\<lparr>p_context :=
          \<lparr>ctx_ra = forkret_addr ?s6, ctx_sp = p_kstack q + PGSIZE, ctx_s = (\<lambda>_. 0)\<rparr>\<rparr>) ?s6"
        by (auto simp: allocproc_def allocpid_def Let_def)
      then show thesis
        using p k2 k5 nz False by (intro ok [of p]) (simp_all add: upd_proc_def tf_set_def)
    qed
  qed
qed


text \<open>A table with one live process, and no free page.\<close>

definition no_proc :: proc where
  "no_proc = \<lparr>p_state = UNUSED, p_chan = None, p_killed = False, p_xstate = 0, p_pid = 0, p_parent = None,
     p_kstack = 0, p_sz = 0, p_pagetable = 0, p_trapframe = 0,
     p_context = \<lparr>ctx_ra = 0, ctx_sp = 0, ctx_s = \<lambda>_. 0\<rparr>, p_ofile = \<lambda>_. None, p_cwd = None,
     p_name = replicate 16 0\<rparr>"

definition one_proc_state :: proc_state where
  "one_proc_state = \<lparr>pmem = (\<lambda>_. 0), freelist = 0, ram_end = 0x80005000, kend = 0x80001000,
     uart0 = 0x10000000, virtio0 = 0x10001000, plic = 0x0c000000, uart0_irq = 10, virtio0_irq = 1,
     etext = 0x80200000, trampoline = 0x80200000, kernel_pagetable = 0, satp = 0,
     procs = (\<lambda>_. no_proc)(0 := no_proc\<lparr>p_state := RUNNING, p_pid := 1\<rparr>), initproc = Some 0,
     nextpid = 2, curproc = Some 0, ticks = 0, forkret_addr = 0\<rparr>"

lemma NPROC_Cons: "[0..<NPROC] = 0 # 1 # [2..<NPROC]"
  by (simp add: NPROC_def upt_rec)


end
