(* ===== verification/Sched.thy ===== *)
theory Sched
  imports Spinlock Proc
begin

text \<open>
  The scheduler, \<open>scheduler\<close>, \<open>sched\<close> and the ways into them (\<^verbatim>\<open>kernel/proc.c\<close>): what a CPU does with one slot of the
  process table, and the same code on any number of CPUs, interleaved at every access to the lock or the
  state of a process.  A context switch moves the CPU from the scheduler's stack to the one of the
  process and back; the theorem is that no two CPUs are ever on the same process's stack.
\<close>

section \<open>One CPU\<close>

text \<open>The body of the inner loop of \<open>scheduler\<close> up to the switch, and what follows the switch back.\<close>

definition scheduler_try :: "nat \<Rightarrow> 'a proc_state_scheme \<Rightarrow> bool \<times> 'a proc_state_scheme" where
  "scheduler_try i s =
     (if p_state (procs s i) = RUNNABLE
      then (True, (upd_proc i (\<lambda>p. p\<lparr>p_state := RUNNING\<rparr>) s)\<lparr>curproc := Some i\<rparr>)
      else (False, s))"

definition scheduler_back :: "'a proc_state_scheme \<Rightarrow> 'a proc_state_scheme" where
  "scheduler_back s = s\<lparr>curproc := None\<rparr>"

text \<open>\<open>sched\<close> on CPU \<open>me\<close>: its guards, and the interrupt flag that it restores when it comes back.\<close>

definition sched :: "nat \<Rightarrow> cpu \<Rightarrow> spinlock \<Rightarrow> procstate \<Rightarrow> bool res" where
  "sched me c lk st =
     (if \<not> holding me lk then panic ''sched p->lock''
      else if c_noff c \<noteq> 1 then panic ''sched locks''
      else if st = RUNNING then panic ''sched running''
      else if c_ie c then panic ''sched interruptible''
      else Inr (c_intena c))"

section \<open>Interleaving CPUs\<close>

text \<open>
  Where a CPU is.  \<open>Loop k\<close> to \<open>Switch k\<close> is the scheduler on the way to slot \<open>k\<close>; \<open>Resumed k\<close> is the thread of \<open>k\<close>
  behind its \<open>swtch\<close> (in \<open>sched\<close> or at the start of \<open>forkret\<close>), still with the lock; \<open>Run k\<close> is the thread at work;
  \<open>GiveUp k\<close> to \<open>InSched k\<close> is \<open>yield\<close>, \<open>sleep\<close> or \<open>exit\<close> from the acquisition of the lock to the switch; \<open>Back k\<close> and
  \<open>Done k\<close> are the scheduler again.  A thread or an interrupt handler may also take the lock of a slot and
  change its state (\<open>wakeup\<close>, \<open>kill\<close>, \<open>allocproc\<close>, \<open>fork\<close>, \<open>wait\<close>): \<open>RemoteLock\<close> and \<open>Remote\<close>, with the place to return to.
\<close>

datatype cpc =
    Loop nat | Test nat | Switch nat | Resumed nat | Run nat | GiveUp nat | Mark nat | InSched nat | Back nat | Done nat
  | RemoteLock cpc nat | Remote cpc nat

record csys =
  cs_state :: "nat \<Rightarrow> procstate"
  cs_plock :: "nat \<Rightarrow> nat option"
  cs_proc :: "nat \<Rightarrow> nat option"
  cs_pc :: "nat \<Rightarrow> cpc"

definition goto_pc :: "nat \<Rightarrow> cpc \<Rightarrow> csys \<Rightarrow> csys" where
  "goto_pc c pc s = s\<lparr>cs_pc := (cs_pc s)(c := pc)\<rparr>"

definition lock_slot :: "nat \<Rightarrow> nat option \<Rightarrow> csys \<Rightarrow> csys" where
  "lock_slot k v s = s\<lparr>cs_plock := (cs_plock s)(k := v)\<rparr>"

definition put_state :: "nat \<Rightarrow> procstate \<Rightarrow> csys \<Rightarrow> csys" where
  "put_state k st s = s\<lparr>cs_state := (cs_state s)(k := st)\<rparr>"

definition put_proc :: "nat \<Rightarrow> nat option \<Rightarrow> csys \<Rightarrow> csys" where
  "put_proc c v s = s\<lparr>cs_proc := (cs_proc s)(c := v)\<rparr>"

text \<open>
  What others do to the state of a slot under its lock: \<open>allocproc\<close> and its failures, \<open>fork\<close> and \<open>userinit\<close>, \<open>wakeup\<close> and \<open>kill\<close>,
  \<open>wait\<close>; or nothing.
\<close>

fun remote :: "procstate \<Rightarrow> procstate \<Rightarrow> bool" where
  "remote UNUSED st \<longleftrightarrow> st = UNUSED \<or> st = USED"
| "remote USED st \<longleftrightarrow> st = USED \<or> st = UNUSED \<or> st = RUNNABLE"
| "remote SLEEPING st \<longleftrightarrow> st = SLEEPING \<or> st = RUNNABLE"
| "remote ZOMBIE st \<longleftrightarrow> st = ZOMBIE \<or> st = UNUSED"
| "remote st st' \<longleftrightarrow> st' = st"

text \<open>\<open>Loop k\<close> with \<open>k = NPROC\<close> is the end of the inner loop; \<open>st\<close> in \<open>mark\<close> is what \<open>yield\<close>, \<open>sleep\<close> and \<open>exit\<close> store.\<close>

inductive cstep :: "nat \<Rightarrow> csys \<Rightarrow> csys \<Rightarrow> bool" for c :: nat where
  again: "cs_pc s c = Loop k \<Longrightarrow> NPROC \<le> k \<Longrightarrow> cstep c s (goto_pc c (Loop 0) s)"
| lock: "cs_pc s c = Loop k \<Longrightarrow> k < NPROC \<Longrightarrow> cs_plock s k = None \<Longrightarrow>
    cstep c s (goto_pc c (Test k) (lock_slot k (Some c) s))"
| pick: "cs_pc s c = Test k \<Longrightarrow> cs_state s k = RUNNABLE \<Longrightarrow>
    cstep c s (goto_pc c (Switch k) (put_proc c (Some k) (put_state k RUNNING s)))"
| skip: "cs_pc s c = Test k \<Longrightarrow> cs_state s k \<noteq> RUNNABLE \<Longrightarrow> cstep c s (goto_pc c (Done k) s)"
| swtch_in: "cs_pc s c = Switch k \<Longrightarrow> cstep c s (goto_pc c (Resumed k) s)"
| resume: "cs_pc s c = Resumed k \<Longrightarrow> cstep c s (goto_pc c (Run k) (lock_slot k None s))"
| give_up: "cs_pc s c = Run k \<Longrightarrow> cstep c s (goto_pc c (GiveUp k) s)"
| own_lock: "cs_pc s c = GiveUp k \<Longrightarrow> cs_plock s k = None \<Longrightarrow>
    cstep c s (goto_pc c (Mark k) (lock_slot k (Some c) s))"
| mark: "cs_pc s c = Mark k \<Longrightarrow> st \<in> {RUNNABLE, SLEEPING, ZOMBIE} \<Longrightarrow>
    cstep c s (goto_pc c (InSched k) (put_state k st s))"
| swtch_out: "cs_pc s c = InSched k \<Longrightarrow> cstep c s (goto_pc c (Back k) s)"
| returned: "cs_pc s c = Back k \<Longrightarrow> cstep c s (goto_pc c (Done k) (put_proc c None s))"
| unlock: "cs_pc s c = Done k \<Longrightarrow> cstep c s (goto_pc c (Loop (Suc k)) (lock_slot k None s))"
| remote_start: "cs_pc s c = pc \<Longrightarrow> pc = Run j \<or> pc = Loop j \<Longrightarrow> cstep c s (goto_pc c (RemoteLock pc k) s)"
| remote_lock: "cs_pc s c = RemoteLock pc k \<Longrightarrow> cs_plock s k = None \<Longrightarrow>
    cstep c s (goto_pc c (Remote pc k) (lock_slot k (Some c) s))"
| remote_end: "cs_pc s c = Remote pc k \<Longrightarrow> remote (cs_state s k) st \<Longrightarrow>
    cstep c s (goto_pc c pc (lock_slot k None (put_state k st s)))"

text \<open>At the start the first process is ready and every CPU calls \<open>scheduler\<close>.\<close>

definition csys_init :: csys where
  "csys_init = \<lparr>cs_state = (\<lambda>k. if k = 0 then RUNNABLE else UNUSED), cs_plock = (\<lambda>_. None), cs_proc = (\<lambda>_. None),
     cs_pc = (\<lambda>_. Loop 0)\<rparr>"

inductive creach :: "csys \<Rightarrow> bool" where
  creach_init: "creach csys_init"
| creach_step: "creach s \<Longrightarrow> cstep c s s' \<Longrightarrow> creach s'"

section \<open>The invariant\<close>

text \<open>The slot whose lock a CPU holds, the process on whose stack it is, and the one it takes itself to run.\<close>

fun locks :: "cpc \<Rightarrow> nat option" where
  "locks (Loop k) = None" | "locks (Test k) = Some k" | "locks (Switch k) = Some k" | "locks (Resumed k) = Some k"
| "locks (Run k) = None" | "locks (GiveUp k) = None" | "locks (Mark k) = Some k" | "locks (InSched k) = Some k"
| "locks (Back k) = Some k" | "locks (Done k) = Some k" | "locks (RemoteLock pc k) = None" | "locks (Remote pc k) = Some k"

fun runs :: "cpc \<Rightarrow> nat option" where
  "runs (Switch k) = Some k" | "runs (Resumed k) = Some k" | "runs (Run k) = Some k" | "runs (GiveUp k) = Some k"
| "runs (Mark k) = Some k" | "runs (InSched k) = Some k" | "runs (RemoteLock pc k) = runs pc"
| "runs (Remote pc k) = runs pc" | "runs _ = None"

fun current :: "cpc \<Rightarrow> nat option" where
  "current (Back k) = Some k" | "current (RemoteLock pc k) = current pc" | "current (Remote pc k) = current pc"
| "current pc = runs pc"

text \<open>A CPU returns from work on another slot only to the loop or to a running thread.\<close>

fun pc_ok :: "cpc \<Rightarrow> bool" where
  "pc_ok (RemoteLock pc k) \<longleftrightarrow> (\<exists>j. pc = Run j \<or> pc = Loop j)"
| "pc_ok (Remote pc k) \<longleftrightarrow> (\<exists>j. pc = Run j \<or> pc = Loop j)"
| "pc_ok pc \<longleftrightarrow> True"

definition lock_inv :: "csys \<Rightarrow> bool" where
  "lock_inv s \<longleftrightarrow> (\<forall>c k. cs_plock s k = Some c \<longleftrightarrow> locks (cs_pc s c) = Some k)"

definition run_inv :: "csys \<Rightarrow> bool" where
  "run_inv s \<longleftrightarrow> (\<forall>c k. runs (cs_pc s c) = Some k \<longrightarrow>
     (cs_state s k = RUNNING \<longleftrightarrow> cs_pc s c \<noteq> InSched k))"

definition one_inv :: "csys \<Rightarrow> bool" where
  "one_inv s \<longleftrightarrow> (\<forall>c c' k. runs (cs_pc s c) = Some k \<longrightarrow> runs (cs_pc s c') = Some k \<longrightarrow> c = c')"

definition cur_inv :: "csys \<Rightarrow> bool" where
  "cur_inv s \<longleftrightarrow> (\<forall>c. cs_proc s c = current (cs_pc s c) \<and> pc_ok (cs_pc s c))"

definition busy_cpu :: "csys \<Rightarrow> bool" where
  "busy_cpu s \<longleftrightarrow> (\<forall>k. cs_state s k = RUNNING \<longrightarrow> (\<exists>c. runs (cs_pc s c) = Some k))"

lemmas cs_upd = goto_pc_def lock_slot_def put_state_def put_proc_def

lemma cur_invD: "cur_inv s \<Longrightarrow> cs_proc s c = current (cs_pc s c)" "cur_inv s \<Longrightarrow> pc_ok (cs_pc s c)"
  by (simp_all add: cur_inv_def)

lemma lock_invD: "lock_inv s \<Longrightarrow> cs_plock s k = Some c \<longleftrightarrow> locks (cs_pc s c) = Some k"
  by (simp add: lock_inv_def)

lemma cstep_other: "cstep c s s' \<Longrightarrow> c' \<noteq> c \<Longrightarrow> cs_pc s' c' = cs_pc s c'"
  by (erule cstep.cases) (simp_all add: cs_upd)

lemma lock_inv_upd:
  assumes "lock_inv s" "cstep c s s'"
  shows "locks (cs_pc s' c) = locks (cs_pc s c) \<Longrightarrow> cs_plock s' = cs_plock s \<Longrightarrow> lock_inv s'"
    "locks (cs_pc s c) = None \<Longrightarrow> cs_plock s k = None \<Longrightarrow> locks (cs_pc s' c) = Some k \<Longrightarrow>
       cs_plock s' = (cs_plock s)(k := Some c) \<Longrightarrow> lock_inv s'"
    "locks (cs_pc s c) = Some k \<Longrightarrow> locks (cs_pc s' c) = None \<Longrightarrow>
       cs_plock s' = (cs_plock s)(k := None) \<Longrightarrow> lock_inv s'"
proof -
  have own: "cs_plock s j = Some c' \<longleftrightarrow> locks (cs_pc s c') = Some j" for c' j
    using lock_invD [OF assms(1)] by simp
  have inv: "lock_inv s'" if "\<And>j. cs_plock s' j = Some c \<longleftrightarrow> locks (cs_pc s' c) = Some j"
      "\<And>c' j. c' \<noteq> c \<Longrightarrow> cs_plock s' j = Some c' \<longleftrightarrow> cs_plock s j = Some c'"
    unfolding lock_inv_def using that cstep_other [OF assms(2)] own by metis
  show "lock_inv s'" if "locks (cs_pc s' c) = locks (cs_pc s c)" "cs_plock s' = cs_plock s"
    using that by (intro inv) (simp_all add: own)
  show "lock_inv s'" if "locks (cs_pc s c) = None" "cs_plock s k = None" "locks (cs_pc s' c) = Some k"
      "cs_plock s' = (cs_plock s)(k := Some c)"
  proof -
    have "locks (cs_pc s c') \<noteq> Some k" for c' using that(2) own [of k c'] by simp
    then show ?thesis using that by (intro inv) (auto simp: own)
  qed
  show "lock_inv s'" if "locks (cs_pc s c) = Some k" "locks (cs_pc s' c) = None" "cs_plock s' = (cs_plock s)(k := None)"
  proof -
    have k: "cs_plock s k = Some c" using that(1) own by simp
    have "cs_plock s' j \<noteq> Some c" for j using that(1,3) own [of j c] by auto
    moreover have "cs_plock s' j = Some c' \<longleftrightarrow> cs_plock s j = Some c'" if "c' \<noteq> c" for c' j
      using that k \<open>cs_plock s' = (cs_plock s)(k := None)\<close> by auto
    ultimately show ?thesis using that(2) by (intro inv) simp_all
  qed
qed

lemma lock_inv_step:
  assumes "cstep c s s'" "lock_inv s" "cur_inv s"
  shows "lock_inv s'"
proof -
  note upd = lock_inv_upd [OF assms(2,1)]
  show ?thesis
    using assms(1)
  proof cases
    case (lock k)
    then show ?thesis by (intro upd(2) [of k]) (simp_all add: cs_upd)
  next
    case (own_lock k)
    then show ?thesis by (intro upd(2) [of k]) (simp_all add: cs_upd)
  next
    case (remote_lock pc k)
    then show ?thesis by (intro upd(2) [of k]) (simp_all add: cs_upd)
  next
    case (resume k)
    then show ?thesis by (intro upd(3) [of k]) (simp_all add: cs_upd)
  next
    case (unlock k)
    then show ?thesis by (intro upd(3) [of k]) (simp_all add: cs_upd)
  next
    case (remote_end pc k st)
    then show ?thesis using cur_invD(2) [OF assms(3), of c]
      by (intro upd(3) [of k]) (auto simp: cs_upd)
  qed (rule upd(1); force simp: cs_upd)+
qed

lemma run_invD:
  "run_inv s \<Longrightarrow> runs (cs_pc s c) = Some k \<Longrightarrow> cs_state s k = RUNNING \<longleftrightarrow> cs_pc s c \<noteq> InSched k"
  by (simp add: run_inv_def)

lemma cur_inv_step:
  assumes "cstep c s s'" "cur_inv s"
  shows "cur_inv s'"
proof -
  have "cs_proc s' c = current (cs_pc s' c) \<and> pc_ok (cs_pc s' c)"
    using assms(1) cur_invD [OF assms(2), of c] by cases (auto simp: cs_upd)
  moreover have "cs_proc s' c' = cs_proc s c'" "cs_pc s' c' = cs_pc s c'" if "c' \<noteq> c" for c'
    using assms(1) that by (cases; simp add: cs_upd)+
  ultimately show ?thesis using cur_invD [OF assms(2)] unfolding cur_inv_def by metis
qed

lemma running_locked:
  assumes "lock_inv s" "run_inv s" "runs (cs_pc s c') = Some k" "cs_state s k \<noteq> RUNNING" "locks (cs_pc s c) = Some k"
  shows "c' = c \<and> cs_pc s c = InSched k"
proof -
  have "cs_pc s c' = InSched k" using run_invD [OF assms(2,3)] assms(4) by simp
  moreover from this have "cs_plock s k = Some c'" "cs_plock s k = Some c" using assms(1,5) by (simp_all add: lock_inv_def)
  ultimately show ?thesis by simp
qed

lemma one_inv_step:
  assumes "cstep c s s'" "lock_inv s" "run_inv s" "one_inv s" "cur_inv s"
  shows "one_inv s'"
  using assms(1)
proof cases
  case (pick k)
  then have "runs (cs_pc s c') \<noteq> Some k" for c'
    using running_locked [OF assms(2,3), of c' k c] by auto
  then show ?thesis using pick assms(4) by (auto simp: one_inv_def cs_upd)
qed (use assms(4,5) in \<open>auto simp: one_inv_def cur_inv_def cs_upd\<close>)

lemma remote_running: "remote st st' \<Longrightarrow> st' = RUNNING \<longleftrightarrow> st = RUNNING"
  by (cases st) auto

lemma run_inv_upd:
  assumes "run_inv s" "cstep c s s'"
    and "\<And>k. runs (cs_pc s' c) = Some k \<Longrightarrow> cs_state s' k = RUNNING \<longleftrightarrow> cs_pc s' c \<noteq> InSched k"
    and "\<And>c' k. c' \<noteq> c \<Longrightarrow> runs (cs_pc s c') = Some k \<Longrightarrow> cs_state s' k = RUNNING \<longleftrightarrow> cs_state s k = RUNNING"
  shows "run_inv s'"
  unfolding run_inv_def
proof (intro allI impI)
  fix c' k assume r: "runs (cs_pc s' c') = Some k"
  show "cs_state s' k = RUNNING \<longleftrightarrow> cs_pc s' c' \<noteq> InSched k"
    using r assms(3,4) cstep_other [OF assms(2)] run_invD [OF assms(1)] by (cases "c' = c") auto
qed

lemma run_inv_step:
  assumes "cstep c s s'" "lock_inv s" "run_inv s" "one_inv s" "cur_inv s"
  shows "run_inv s'"
proof (rule run_inv_upd [OF assms(3,1)])
  show "cs_state s' k = RUNNING \<longleftrightarrow> cs_pc s' c \<noteq> InSched k" if "runs (cs_pc s' c) = Some k" for k
    using assms(1) that run_invD [OF assms(3), of c k] remote_running cur_invD(2) [OF assms(5), of c]
    by cases (auto simp: cs_upd)
  show "cs_state s' k = RUNNING \<longleftrightarrow> cs_state s k = RUNNING" if other: "c' \<noteq> c" "runs (cs_pc s c') = Some k" for c' k
    using assms(1)
  proof cases
    case (pick j)
    then show ?thesis using running_locked [OF assms(2,3) other(2), of c] other(1) by (auto simp: cs_upd)
  next
    case (mark j st)
    then have "k \<noteq> j" using assms(4) other unfolding one_inv_def by (metis runs.simps(5))
    with mark show ?thesis by (simp add: cs_upd)
  qed (auto simp: cs_upd remote_running)
qed

lemma busy_cpu_upd:
  assumes "busy_cpu s" "cstep c s s'"
    and "\<And>k. cs_state s' k = RUNNING \<Longrightarrow> cs_state s k = RUNNING \<and> (runs (cs_pc s c) = Some k \<longrightarrow> runs (cs_pc s' c) = Some k)
      \<or> runs (cs_pc s' c) = Some k"
  shows "busy_cpu s'"
  unfolding busy_cpu_def
proof (intro allI impI)
  fix k assume "cs_state s' k = RUNNING"
  from assms(3) [OF this] show "\<exists>c. runs (cs_pc s' c) = Some k"
    using assms(1) cstep_other [OF assms(2)] unfolding busy_cpu_def by metis
qed

lemma busy_cpu_step:
  assumes "cstep c s s'" "run_inv s" "busy_cpu s"
  shows "busy_cpu s'"
proof (rule busy_cpu_upd [OF assms(3,1)])
  fix k assume "cs_state s' k = RUNNING"
  with assms(1) show "cs_state s k = RUNNING \<and> (runs (cs_pc s c) = Some k \<longrightarrow> runs (cs_pc s' c) = Some k)
      \<or> runs (cs_pc s' c) = Some k"
    using run_invD [OF assms(2), of c k] remote_running
    by cases (auto simp: cs_upd split: if_splits)
qed

lemma creach_inv: "creach s \<Longrightarrow> lock_inv s \<and> run_inv s \<and> one_inv s \<and> cur_inv s \<and> busy_cpu s"
proof (induction rule: creach.induct)
  case creach_init
  then show ?case by (simp add: lock_inv_def run_inv_def one_inv_def cur_inv_def busy_cpu_def csys_init_def)
next
  case (creach_step s c s')
  then show ?case
    using lock_inv_step [of c s s'] run_inv_step [of c s s'] one_inv_step [of c s s'] cur_inv_step [of c s s']
      busy_cpu_step [of c s s'] by blast
qed

lemma runs_current: "pc_ok pc \<Longrightarrow> runs pc = Some k \<Longrightarrow> current pc = Some k"
  by (cases pc) auto


text \<open>CPU 1 has picked the first process and runs it.\<close>

definition csys_running :: csys where
  "csys_running = goto_pc 1 (Run 0) (lock_slot 0 None (goto_pc 1 (Resumed 0) (goto_pc 1 (Switch 0)
     (put_proc 1 (Some 0) (put_state 0 RUNNING (goto_pc 1 (Test 0) (lock_slot 0 (Some 1) csys_init)))))))"

lemma csys_running_reach: "creach csys_running"
proof -
  note r = creach_step [where c = 1]
  have "creach (goto_pc 1 (Test 0) (lock_slot 0 (Some 1) csys_init))"
    by (rule r [OF creach_init lock]) (simp_all add: csys_init_def NPROC_def)
  then have "creach (goto_pc 1 (Switch 0) (put_proc 1 (Some 0) (put_state 0 RUNNING
      (goto_pc 1 (Test 0) (lock_slot 0 (Some 1) csys_init)))))"
    by (rule r [OF _ pick]) (simp_all add: cs_upd csys_init_def)
  then show ?thesis
    unfolding csys_running_def by (intro r [OF r [OF _ swtch_in] resume]) (simp_all add: cs_upd)
qed


end
