(* ===== verification/Sleeplock.thy ===== *)
theory Sleeplock
  imports Proc
begin

text \<open>
  \<^verbatim>\<open>kernel/sleeplock.c\<close>.  The routines as steps of the thread that runs them, and then the same code
  interleaved: \<open>acquiresleep\<close> and \<open>releasesleep\<close> of all processes together with the \<open>sleep\<close> and
  \<open>wakeup\<close> of \<^verbatim>\<open>kernel/proc.c\<close> they are built on, down to every acquisition of \<^verbatim>\<open>lk->lk\<close> and
  \<^verbatim>\<open>p->lock\<close>.  In every reachable state at most one process is inside, and no wakeup is lost.
\<close>

section \<open>The routines\<close>

record sleeplock =
  sl_locked :: bool
  sl_pid :: int

definition initsleeplock :: sleeplock where
  "initsleeplock = \<lparr>sl_locked = False, sl_pid = 0\<rparr>"

text \<open>\<open>ch\<close> is the channel of the lock, its address in the source.\<close>

definition acquiresleep :: "chan \<Rightarrow> sleeplock \<Rightarrow> 'a proc_state_scheme \<Rightarrow> sleeplock res" where
  "acquiresleep ch lk s =
     (if sl_locked lk then Inl (Sleep ch) else Inr (lk\<lparr>sl_locked := True, sl_pid := p_pid (mp s)\<rparr>))"

definition releasesleep ::
    "chan \<Rightarrow> sleeplock \<Rightarrow> 'a proc_state_scheme \<Rightarrow> sleeplock \<times> 'a proc_state_scheme" where
  "releasesleep ch lk s = (lk\<lparr>sl_locked := False, sl_pid := 0\<rparr>, wakeup ch s)"

definition holdingsleep :: "sleeplock \<Rightarrow> 'a proc_state_scheme \<Rightarrow> bool" where
  "holdingsleep lk s \<longleftrightarrow> sl_locked lk \<and> sl_pid lk = p_pid (mp s)"

lemma acquiresleep_holding: "acquiresleep ch lk s = Inr lk' \<Longrightarrow> holdingsleep lk' s"
  by (auto simp: acquiresleep_def holdingsleep_def split: if_splits)

section \<open>Interleaving processes\<close>

text \<open>
  Program counters: \<open>AcqLk\<close> to \<open>AcqRel\<close> are in \<open>acquiresleep\<close>, \<open>SleepAcq\<close> to \<open>SleepRel\<close> in the
  \<open>sleep\<close> it calls (\<open>Asleep\<close> while the CPU runs somebody else), \<open>Inside\<close> holds the sleep lock,
  \<open>RelLk\<close> to \<open>WakeTest\<close> are in \<open>releasesleep\<close>, the last two in iteration \<open>k\<close> of the loop of
  \<open>wakeup\<close>.
\<close>

datatype spc =
    Away | AcqLk | AcqTest | AcqRel
  | SleepAcq | SleepRelLk | SleepMark | SleepSched | Asleep | SleepTidy | SleepRel
  | Inside | RelLk | RelClear | WakeLock nat | WakeTest nat

record ssys =
  ss_lk :: "nat option"
  ss_plock :: "nat \<Rightarrow> nat option"
  ss_locked :: bool
  ss_state :: "nat \<Rightarrow> procstate"
  ss_chan :: "nat \<Rightarrow> bool"
  ss_pc :: "nat \<Rightarrow> spc"

definition set_pc :: "nat \<Rightarrow> spc \<Rightarrow> ssys \<Rightarrow> ssys" where
  "set_pc i pc s = s\<lparr>ss_pc := (ss_pc s)(i := pc)\<rparr>"

definition set_plock :: "nat \<Rightarrow> nat option \<Rightarrow> ssys \<Rightarrow> ssys" where
  "set_plock k v s = s\<lparr>ss_plock := (ss_plock s)(k := v)\<rparr>"

definition set_state :: "nat \<Rightarrow> procstate \<Rightarrow> ssys \<Rightarrow> ssys" where
  "set_state k v s = s\<lparr>ss_state := (ss_state s)(k := v)\<rparr>"

definition set_chan :: "nat \<Rightarrow> bool \<Rightarrow> ssys \<Rightarrow> ssys" where
  "set_chan k v s = s\<lparr>ss_chan := (ss_chan s)(k := v)\<rparr>"

text \<open>One step of process \<open>i\<close>; a lock is taken only when it is free.\<close>

inductive sstep :: "nat \<Rightarrow> ssys \<Rightarrow> ssys \<Rightarrow> bool" for i :: nat where
  start: "ss_pc s i = Away \<Longrightarrow> i < NPROC \<Longrightarrow> sstep i s (set_pc i AcqLk s)"
| acq_lk: "ss_pc s i = AcqLk \<Longrightarrow> ss_lk s = None \<Longrightarrow> sstep i s (set_pc i AcqTest (s\<lparr>ss_lk := Some i\<rparr>))"
| busy: "ss_pc s i = AcqTest \<Longrightarrow> ss_locked s \<Longrightarrow> sstep i s (set_pc i SleepAcq s)"
| free: "ss_pc s i = AcqTest \<Longrightarrow> \<not> ss_locked s \<Longrightarrow> sstep i s (set_pc i AcqRel (s\<lparr>ss_locked := True\<rparr>))"
| acq_rel: "ss_pc s i = AcqRel \<Longrightarrow> sstep i s (set_pc i Inside (s\<lparr>ss_lk := None\<rparr>))"
| sleep_acq: "ss_pc s i = SleepAcq \<Longrightarrow> ss_plock s i = None \<Longrightarrow>
    sstep i s (set_pc i SleepRelLk (set_plock i (Some i) s))"
| sleep_rel_lk: "ss_pc s i = SleepRelLk \<Longrightarrow> sstep i s (set_pc i SleepMark (s\<lparr>ss_lk := None\<rparr>))"
| sleep_mark: "ss_pc s i = SleepMark \<Longrightarrow>
    sstep i s (set_pc i SleepSched (set_state i SLEEPING (set_chan i True s)))"
| sleep_sched: "ss_pc s i = SleepSched \<Longrightarrow> sstep i s (set_pc i Asleep (set_plock i None s))"
| scheduled: "ss_pc s i = Asleep \<Longrightarrow> ss_plock s i = None \<Longrightarrow> ss_state s i = RUNNABLE \<Longrightarrow>
    sstep i s (set_pc i SleepTidy (set_state i RUNNING (set_plock i (Some i) s)))"
| sleep_tidy: "ss_pc s i = SleepTidy \<Longrightarrow> sstep i s (set_pc i SleepRel (set_chan i False s))"
| sleep_rel: "ss_pc s i = SleepRel \<Longrightarrow> sstep i s (set_pc i AcqLk (set_plock i None s))"
| finish: "ss_pc s i = Inside \<Longrightarrow> sstep i s (set_pc i RelLk s)"
| rel_lk: "ss_pc s i = RelLk \<Longrightarrow> ss_lk s = None \<Longrightarrow> sstep i s (set_pc i RelClear (s\<lparr>ss_lk := Some i\<rparr>))"
| rel_clear: "ss_pc s i = RelClear \<Longrightarrow> sstep i s (set_pc i (WakeLock 0) (s\<lparr>ss_locked := False\<rparr>))"
| wake_skip: "ss_pc s i = WakeLock i \<Longrightarrow> i < NPROC \<Longrightarrow> sstep i s (set_pc i (WakeLock (Suc i)) s)"
| wake_lock: "ss_pc s i = WakeLock k \<Longrightarrow> k < NPROC \<Longrightarrow> k \<noteq> i \<Longrightarrow> ss_plock s k = None \<Longrightarrow>
    sstep i s (set_pc i (WakeTest k) (set_plock k (Some i) s))"
| wake_test: "ss_pc s i = WakeTest k \<Longrightarrow>
    sstep i s (set_pc i (WakeLock (Suc k)) (set_plock k None
      (if ss_state s k = SLEEPING \<and> ss_chan s k then set_state k RUNNABLE s else s)))"
| wake_end: "ss_pc s i = WakeLock k \<Longrightarrow> NPROC \<le> k \<Longrightarrow> sstep i s (set_pc i Away (s\<lparr>ss_lk := None\<rparr>))"

inductive sreach :: "ssys \<Rightarrow> bool" where
  sreach_init: "sreach \<lparr>ss_lk = None, ss_plock = (\<lambda>_. None), ss_locked = False,
    ss_state = (\<lambda>_. RUNNING), ss_chan = (\<lambda>_. False), ss_pc = (\<lambda>_. Away)\<rparr>"
| sreach_step: "sreach s \<Longrightarrow> sstep i s s' \<Longrightarrow> sreach s'"

section \<open>The invariant\<close>

fun has_lk :: "spc \<Rightarrow> bool" where
  "has_lk AcqTest = True" | "has_lk AcqRel = True" | "has_lk SleepAcq = True" | "has_lk SleepRelLk = True"
| "has_lk RelClear = True" | "has_lk (WakeLock k) = True" | "has_lk (WakeTest k) = True" | "has_lk _ = False"

definition has_own :: "spc \<Rightarrow> bool" where
  "has_own pc \<longleftrightarrow> pc \<in> {SleepRelLk, SleepMark, SleepSched, SleepTidy, SleepRel}"

definition inside :: "spc \<Rightarrow> bool" where
  "inside pc \<longleftrightarrow> pc \<in> {AcqRel, Inside, RelLk, RelClear}"

text \<open>Process \<open>k\<close> has decided to sleep and nothing has made it runnable since.\<close>

definition waiting :: "ssys \<Rightarrow> nat \<Rightarrow> bool" where
  "waiting s k \<longleftrightarrow> ss_pc s k \<in> {SleepMark, SleepSched} \<or> ss_pc s k = Asleep \<and> ss_state s k = SLEEPING"

text \<open>A \<open>wakeup\<close> is under way that has not yet passed process \<open>k\<close>.\<close>

definition coming :: "ssys \<Rightarrow> nat \<Rightarrow> bool" where
  "coming s k \<longleftrightarrow> (\<exists>j m. (ss_pc s j = WakeLock m \<or> ss_pc s j = WakeTest m) \<and> m \<le> k)"

definition st_ok :: "spc \<Rightarrow> procstate \<Rightarrow> bool \<Rightarrow> bool" where
  "st_ok pc st ch \<longleftrightarrow>
     (if pc = SleepSched then st = SLEEPING \<and> ch
      else if pc = Asleep then ch \<and> st \<in> {SLEEPING, RUNNABLE}
      else st = RUNNING)"

definition lk_inv :: "ssys \<Rightarrow> bool" where
  "lk_inv s \<longleftrightarrow> (\<forall>i. ss_lk s = Some i \<longleftrightarrow> has_lk (ss_pc s i))"

definition pl_inv :: "ssys \<Rightarrow> bool" where
  "pl_inv s \<longleftrightarrow> (\<forall>k j. ss_plock s k = Some j \<longleftrightarrow>
     j = k \<and> has_own (ss_pc s k) \<or> j \<noteq> k \<and> ss_pc s j = WakeTest k)"

definition in_inv :: "ssys \<Rightarrow> bool" where
  "in_inv s \<longleftrightarrow> (if ss_locked s then \<exists>i. {i. inside (ss_pc s i)} = {i} else {i. inside (ss_pc s i)} = {})"

definition st_inv :: "ssys \<Rightarrow> bool" where
  "st_inv s \<longleftrightarrow> (\<forall>k. st_ok (ss_pc s k) (ss_state s k) (ss_chan s k))"

definition busy_inv :: "ssys \<Rightarrow> bool" where
  "busy_inv s \<longleftrightarrow> (\<forall>k. ss_pc s k = SleepAcq \<or> ss_pc s k = SleepRelLk \<longrightarrow> ss_locked s)"

definition wake_inv :: "ssys \<Rightarrow> bool" where
  "wake_inv s \<longleftrightarrow> (\<forall>k. waiting s k \<longrightarrow> ss_locked s \<or> coming s k)"

definition idx_inv :: "ssys \<Rightarrow> bool" where
  "idx_inv s \<longleftrightarrow> (\<forall>k. ss_pc s k \<noteq> Away \<longrightarrow> k < NPROC) \<and> (\<forall>k. ss_pc s k \<noteq> WakeTest k)"

definition sinv :: "ssys \<Rightarrow> bool" where
  "sinv s \<longleftrightarrow> lk_inv s \<and> pl_inv s \<and> in_inv s \<and> st_inv s \<and> busy_inv s \<and> wake_inv s \<and> idx_inv s"

lemma upd_simps [simp]:
  "ss_pc (set_pc i pc s) = (ss_pc s)(i := pc)" "ss_lk (set_pc i pc s) = ss_lk s" "ss_plock (set_pc i pc s) = ss_plock s"
  "ss_locked (set_pc i pc s) = ss_locked s" "ss_state (set_pc i pc s) = ss_state s" "ss_chan (set_pc i pc s) = ss_chan s"
  "ss_pc (set_plock k v s) = ss_pc s" "ss_lk (set_plock k v s) = ss_lk s"
  "ss_plock (set_plock k v s) = (ss_plock s)(k := v)" "ss_locked (set_plock k v s) = ss_locked s"
  "ss_state (set_plock k v s) = ss_state s" "ss_chan (set_plock k v s) = ss_chan s"
  "ss_pc (set_state k st s) = ss_pc s" "ss_lk (set_state k st s) = ss_lk s"
  "ss_plock (set_state k st s) = ss_plock s" "ss_locked (set_state k st s) = ss_locked s"
  "ss_state (set_state k st s) = (ss_state s)(k := st)" "ss_chan (set_state k st s) = ss_chan s"
  "ss_pc (set_chan k b s) = ss_pc s" "ss_lk (set_chan k b s) = ss_lk s"
  "ss_plock (set_chan k b s) = ss_plock s" "ss_locked (set_chan k b s) = ss_locked s"
  "ss_state (set_chan k b s) = ss_state s" "ss_chan (set_chan k b s) = (ss_chan s)(k := b)"
  by (simp_all add: set_pc_def set_plock_def set_state_def set_chan_def)

lemma lk_uniq: "lk_inv s \<Longrightarrow> has_lk (ss_pc s i) \<Longrightarrow> has_lk (ss_pc s j) \<Longrightarrow> j = i"
  by (metis lk_inv_def option.inject)

lemma lk_inv_step:
  assumes "sstep i s s'" "lk_inv s"
  shows "lk_inv s'"
  using assms(1) assms(2) lk_uniq [OF assms(2), of i]
  by cases (auto simp: lk_inv_def)

lemma plock_held:
  assumes "pl_inv s" "idx_inv s"
  shows "has_own (ss_pc s k) \<Longrightarrow> ss_plock s k = Some k" "ss_pc s j = WakeTest k \<Longrightarrow> ss_plock s k = Some j"
    "ss_pc s j = WakeTest k \<Longrightarrow> \<not> has_own (ss_pc s k)"
    "ss_pc s i = WakeTest k \<Longrightarrow> ss_pc s j = WakeTest k \<Longrightarrow> i = j"
proof -
  show 1: "has_own (ss_pc s k) \<Longrightarrow> ss_plock s k = Some k" using assms(1) by (simp add: pl_inv_def)
  show 2: "ss_pc s j = WakeTest k \<Longrightarrow> ss_plock s k = Some j" for j
    using assms by (auto simp: pl_inv_def idx_inv_def)
  show "ss_pc s j = WakeTest k \<Longrightarrow> \<not> has_own (ss_pc s k)" using 1 2 [of j] assms(2) by (auto simp: idx_inv_def)
  show "ss_pc s i = WakeTest k \<Longrightarrow> ss_pc s j = WakeTest k \<Longrightarrow> i = j" using 2 [of i] 2 [of j] by simp
qed

lemma has_own_simps [simp]:
  "has_own SleepRelLk" "has_own SleepMark" "has_own SleepSched" "has_own SleepTidy" "has_own SleepRel"
  "\<not> has_own Away" "\<not> has_own AcqLk" "\<not> has_own AcqTest" "\<not> has_own AcqRel" "\<not> has_own SleepAcq"
  "\<not> has_own Asleep" "\<not> has_own Inside" "\<not> has_own RelLk" "\<not> has_own RelClear"
  "\<not> has_own (WakeLock k)" "\<not> has_own (WakeTest k)"
  by (simp_all add: has_own_def)

lemma inside_simps [simp]:
  "inside AcqRel" "inside Inside" "inside RelLk" "inside RelClear"
  "\<not> inside Away" "\<not> inside AcqLk" "\<not> inside AcqTest" "\<not> inside SleepAcq" "\<not> inside SleepRelLk"
  "\<not> inside SleepMark" "\<not> inside SleepSched" "\<not> inside Asleep" "\<not> inside SleepTidy" "\<not> inside SleepRel"
  "\<not> inside (WakeLock k)" "\<not> inside (WakeTest k)"
  by (simp_all add: inside_def)

lemma pl_inv_step:
  assumes "sstep i s s'" "pl_inv s" "idx_inv s"
  shows "pl_inv s'"
  using assms(1)
proof cases
  case (wake_test k)
  have only: "j = i" if "ss_pc s j = WakeTest k" for j
    using plock_held(4) [OF assms(2,3) that wake_test(2)] .
  have ki: "k \<noteq> i" using assms(3) wake_test(2) by (auto simp: idx_inv_def)
  have old: "ss_plock s m = Some j \<longleftrightarrow> j = m \<and> has_own (ss_pc s m) \<or> j \<noteq> m \<and> ss_pc s j = WakeTest m" for m j
    using assms(2) by (simp add: pl_inv_def)
  have "ss_plock s' m = Some j \<longleftrightarrow> j = m \<and> has_own (ss_pc s' m) \<or> j \<noteq> m \<and> ss_pc s' j = WakeTest m" for m j
  proof (cases "m = k")
    case True
    then show ?thesis
      using only ki plock_held(3) [OF assms(2,3) wake_test(2)] by (auto simp: wake_test(1))
  next
    case False
    then show ?thesis using old [of m j] wake_test(2) by (auto simp: wake_test(1))
  qed
  then show ?thesis by (simp add: pl_inv_def)
qed (use assms(2,3) in \<open>auto simp: pl_inv_def idx_inv_def dest: plock_held(1-3) [OF assms(2,3)]\<close>)

definition insiders :: "ssys \<Rightarrow> nat set" where
  "insiders s = {i. inside (ss_pc s i)}"

lemma insiders_simps [simp]:
  "insiders (s\<lparr>ss_lk := v\<rparr>) = insiders s" "insiders (s\<lparr>ss_locked := b\<rparr>) = insiders s"
  "insiders (set_plock k w s) = insiders s" "insiders (set_state k st s) = insiders s"
  "insiders (set_chan k b s) = insiders s"
  "insiders (set_pc i pc s) = (if inside pc then insert i (insiders s) else insiders s - {i})"
  by (auto simp: insiders_def)

lemma insiders_not: "\<not> inside (ss_pc s i) \<Longrightarrow> insiders s - {i} = insiders s"
  by (auto simp: insiders_def)

lemma in_inv_step:
  assumes "sstep i s s'" "in_inv s"
  shows "in_inv s'"
proof -
  have eq: "in_inv t \<longleftrightarrow> (if ss_locked t then \<exists>i. insiders t = {i} else insiders t = {})" for t
    by (simp add: in_inv_def insiders_def)
  have mem: "inside (ss_pc s i) \<Longrightarrow> insiders s = {i} \<and> ss_locked s"
    using assms(2) unfolding eq by (metis empty_iff insiders_def mem_Collect_eq singletonD)
  have non: "\<not> inside (ss_pc s i) \<Longrightarrow> insiders s - {i} = insiders s" by (rule insiders_not)
  from assms(1) assms(2) mem non show ?thesis
    unfolding eq by cases auto
qed

lemma st_inv_step:
  assumes "sstep i s s'" "st_inv s" "pl_inv s" "idx_inv s"
  shows "st_inv s'"
  using assms(1)
proof cases
  case (wake_test k)
  have st: "st_ok (ss_pc s j) (ss_state s j) (ss_chan s j)" for j using assms(2) by (simp add: st_inv_def)
  have ki: "k \<noteq> i" using assms(4) wake_test(2) by (auto simp: idx_inv_def)
  have asleep: "ss_pc s k = Asleep \<and> ss_chan s k" if "ss_state s k = SLEEPING"
    using st [of k] that plock_held(3) [OF assms(3,4) wake_test(2)]
    by (simp add: st_ok_def split: if_splits)
  have "st_ok (ss_pc s' j) (ss_state s' j) (ss_chan s' j)" for j
  proof -
    consider "j = i" | "j = k" "ss_state s k = SLEEPING" | "j = k" "ss_state s k \<noteq> SLEEPING" | "j \<noteq> i" "j \<noteq> k" by blast
    then show ?thesis
    proof cases
      case 1
      then show ?thesis using st [of i] ki wake_test(2) by (simp add: wake_test(1) st_ok_def)
    next
      case 2
      then show ?thesis using asleep ki by (simp add: wake_test(1) st_ok_def)
    next
      case 3
      then show ?thesis using st [of k] ki by (simp add: wake_test(1))
    next
      case 4
      then show ?thesis using st [of j] by (simp add: wake_test(1))
    qed
  qed
  then show ?thesis by (simp add: st_inv_def)
qed (use assms(2) in \<open>auto simp: st_inv_def st_ok_def split: if_splits\<close>)

lemma busy_inv_step:
  assumes "sstep i s s'" "busy_inv s" "lk_inv s"
  shows "busy_inv s'"
  using assms(1)
proof cases
  case rel_clear
  have "\<not> has_lk (ss_pc s k)" if "k \<noteq> i" for k
    using lk_uniq [OF assms(3), of i k] rel_clear that by auto
  then have "ss_pc s k \<noteq> SleepAcq \<and> ss_pc s k \<noteq> SleepRelLk" if "k \<noteq> i" for k
    using that by (metis has_lk.simps(3,4))
  with rel_clear show ?thesis by (simp add: busy_inv_def)
qed (use assms(2) in \<open>auto simp: busy_inv_def\<close>)

lemma idx_inv_step: "sstep i s s' \<Longrightarrow> idx_inv s \<Longrightarrow> idx_inv s'"
  by (erule sstep.cases) (auto simp: idx_inv_def)

definition waker :: "spc \<Rightarrow> nat \<Rightarrow> bool" where
  "waker pc k \<longleftrightarrow> (\<exists>m \<le> k. pc = WakeLock m \<or> pc = WakeTest m)"

lemma coming_iff: "coming s k \<longleftrightarrow> (\<exists>j. waker (ss_pc s j) k)"
  by (auto simp: coming_def waker_def)

lemma waker_simps [simp]:
  "waker (WakeLock m) k \<longleftrightarrow> m \<le> k" "waker (WakeTest m) k \<longleftrightarrow> m \<le> k"
  "\<not> waker Away k" "\<not> waker AcqLk k" "\<not> waker AcqTest k" "\<not> waker AcqRel k" "\<not> waker SleepAcq k"
  "\<not> waker SleepRelLk k" "\<not> waker SleepMark k" "\<not> waker SleepSched k" "\<not> waker Asleep k"
  "\<not> waker SleepTidy k" "\<not> waker SleepRel k" "\<not> waker Inside k" "\<not> waker RelLk k" "\<not> waker RelClear k"
  by (auto simp: waker_def)

lemma wake_inv_upd:
  assumes "wake_inv s" "ss_pc s' = (ss_pc s)(i := pc)" "ss_locked s \<Longrightarrow> ss_locked s'"
    and "\<And>k. waiting s' k \<Longrightarrow> waiting s k \<or> ss_locked s'"
    and "\<And>k. waiting s' k \<Longrightarrow> waker (ss_pc s i) k \<Longrightarrow> waker pc k"
  shows "wake_inv s'"
  unfolding wake_inv_def
proof (intro allI impI)
  fix k assume w: "waiting s' k"
  show "ss_locked s' \<or> coming s' k"
  proof (cases "ss_locked s'")
    case False
    then have "coming s k" using w assms(1,3,4) by (auto simp: wake_inv_def)
    then obtain j where j: "waker (ss_pc s j) k" by (auto simp: coming_iff)
    have "waker (ss_pc s' j) k" using j assms(2,5) w by (cases "j = i") auto
    then show ?thesis by (auto simp: coming_iff)
  qed simp
qed

lemma wake_inv_step:
  assumes "sstep i s s'" "wake_inv s" "busy_inv s" "st_inv s" "pl_inv s" "idx_inv s"
  shows "wake_inv s'"
  using assms(1)
proof cases
  case sleep_rel_lk
  have "ss_locked s" using assms(3) sleep_rel_lk by (simp add: busy_inv_def)
  then show ?thesis using sleep_rel_lk by (simp add: wake_inv_def)
next
  case rel_clear
  then have "waker (ss_pc s' i) k" for k by simp
  then show ?thesis unfolding wake_inv_def coming_iff by blast
next
  case (wake_test k)
  have notw: "\<not> waiting s' k"
  proof
    assume w: "waiting s' k"
    have ki: "k \<noteq> i" using assms(6) wake_test(2) by (auto simp: idx_inv_def)
    have "ss_pc s k \<noteq> SleepMark" "ss_pc s k \<noteq> SleepSched"
      using plock_held(3) [OF assms(5,6) wake_test(2)] by (metis has_own_simps(2), metis has_own_simps(3))
    then have "ss_pc s k = Asleep" "ss_state s' k = SLEEPING"
      using w ki by (auto simp: waiting_def wake_test(1) split: if_splits)
    moreover have "st_ok (ss_pc s k) (ss_state s k) (ss_chan s k)" using assms(4) by (simp add: st_inv_def)
    ultimately show False by (auto simp: wake_test(1) st_ok_def split: if_splits)
  qed
  show ?thesis
  proof (rule wake_inv_upd [OF assms(2), of _ i "WakeLock (Suc k)"])
    show "waiting s j \<or> ss_locked s'" if "waiting s' j" for j
      using that notw by (cases "j = k") (auto simp: wake_test(1) waiting_def split: if_splits)
    show "waker (WakeLock (Suc k)) j" if "waiting s' j" "waker (ss_pc s i) j" for j
      using that notw wake_test(2) by (cases "j = k") auto
  qed (simp_all add: wake_test(1))
next
  case wake_skip
  show ?thesis
  proof (rule wake_inv_upd [OF assms(2), of _ i "WakeLock (Suc i)"])
    show "waker (WakeLock (Suc i)) j" if "waiting s' j" "waker (ss_pc s i) j" for j
      using that wake_skip by (cases "j = i") (auto simp: waiting_def)
  qed (auto simp: wake_skip waiting_def split: if_splits)
next
  case (wake_end k)
  show ?thesis
  proof (rule wake_inv_upd [OF assms(2), of _ i Away])
    show "waker Away j" if "waiting s' j" "waker (ss_pc s i) j" for j
    proof -
      have "ss_pc s' j \<noteq> Away" using that(1) by (auto simp: waiting_def)
      then have "j \<noteq> i" "ss_pc s j \<noteq> Away" by (auto simp: wake_end(1) split: if_splits)
      then have "j < NPROC" using assms(6) by (simp add: idx_inv_def)
      with that(2) wake_end show ?thesis by simp
    qed
  qed (auto simp: wake_end waiting_def split: if_splits)
qed (rule wake_inv_upd [OF assms(2), of s' i "ss_pc s' i"]; auto simp: waiting_def split: if_splits)+

lemma sinv_step: "sstep i s s' \<Longrightarrow> sinv s \<Longrightarrow> sinv s'"
  unfolding sinv_def
  using lk_inv_step pl_inv_step in_inv_step st_inv_step busy_inv_step wake_inv_step idx_inv_step by metis

lemma sinv_reach: "sreach s \<Longrightarrow> sinv s"
proof (induction rule: sreach.induct)
  case sreach_init
  show ?case
    by (simp add: sinv_def lk_inv_def pl_inv_def in_inv_def st_inv_def st_ok_def busy_inv_def wake_inv_def
        waiting_def idx_inv_def)
next
  case (sreach_step s i s')
  then show ?case using sinv_step by blast
qed

section \<open>What the sleep lock promises\<close>

text \<open>A run in which process 1 goes to sleep on the lock process 0 holds.\<close>

definition idle :: ssys where
  "idle = \<lparr>ss_lk = None, ss_plock = (\<lambda>_. None), ss_locked = False,
     ss_state = (\<lambda>_. RUNNING), ss_chan = (\<lambda>_. False), ss_pc = (\<lambda>_. Away)\<rparr>"

definition entered :: ssys where
  "entered = set_pc 0 Inside ((set_pc 0 AcqRel ((set_pc 0 AcqTest ((set_pc 0 AcqLk idle)\<lparr>ss_lk := Some 0\<rparr>))
     \<lparr>ss_locked := True\<rparr>))\<lparr>ss_lk := None\<rparr>)"

definition blocked :: ssys where
  "blocked = set_pc 1 SleepMark ((set_pc 1 SleepRelLk (set_plock 1 (Some 1) (set_pc 1 SleepAcq
     (set_pc 1 AcqTest ((set_pc 1 AcqLk entered)\<lparr>ss_lk := Some 1\<rparr>)))))\<lparr>ss_lk := None\<rparr>)"

definition slept :: ssys where
  "slept = set_pc 1 Asleep (set_plock 1 None (set_pc 1 SleepSched (set_state 1 SLEEPING
     (set_chan 1 True blocked))))"

definition freed :: ssys where
  "freed = set_pc 0 (WakeLock 0) ((set_pc 0 RelClear ((set_pc 0 RelLk slept)\<lparr>ss_lk := Some 0\<rparr>))
     \<lparr>ss_locked := False\<rparr>)"

lemmas run_defs = idle_def entered_def blocked_def slept_def freed_def

lemma idle_reach: "sreach idle"
  unfolding idle_def by (rule sreach_init)

lemma entered_reach: "sreach entered"
  unfolding entered_def
  by (intro sreach_step [OF _ start] sreach_step [OF _ acq_lk] sreach_step [OF _ free]
      sreach_step [OF _ acq_rel] idle_reach) (simp_all add: run_defs NPROC_def)

lemma blocked_reach: "sreach blocked"
  unfolding blocked_def
  by (intro sreach_step [OF _ start] sreach_step [OF _ acq_lk] sreach_step [OF _ busy]
      sreach_step [OF _ sleep_acq] sreach_step [OF _ sleep_rel_lk] entered_reach)
    (simp_all add: run_defs NPROC_def)

lemma slept_reach: "sreach slept"
  unfolding slept_def
  by (intro sreach_step [OF _ sleep_mark] sreach_step [OF _ sleep_sched] blocked_reach)
    (simp_all add: run_defs)

lemma freed_reach: "sreach freed"
  unfolding freed_def
  by (intro sreach_step [OF _ finish] sreach_step [OF _ rel_lk] sreach_step [OF _ rel_clear] slept_reach)
    (simp_all add: run_defs)

text \<open>C22: In every interleaving of \<open>acquiresleep\<close>, \<open>releasesleep\<close>, \<open>sleep\<close> and \<open>wakeup\<close> at most one
  process is between a returned \<open>acquiresleep\<close> and its \<open>releasesleep\<close>, and while one is there the
  \<open>locked\<close> field is set.\<close>

theorem sleeplock_exclusion:
  assumes "sreach s" "ss_pc s i = Inside" "ss_pc s j = Inside"
  shows "i = j \<and> ss_locked s"
proof -
  have "in_inv s" using sinv_reach [OF assms(1)] by (simp add: sinv_def)
  moreover have mem: "i \<in> {i. inside (ss_pc s i)}" "j \<in> {i. inside (ss_pc s i)}"
    using assms(2,3) by (simp_all add: inside_def)
  ultimately obtain k where "{i. inside (ss_pc s i)} = {k}" "ss_locked s"
    unfolding in_inv_def by (metis empty_iff)
  with mem show ?thesis by (metis singletonD)
qed

theorem sleeplock_exclusion_witness: "sreach slept \<and> ss_pc slept 0 = Inside \<and> ss_locked slept"
  using sleeplock_exclusion [of slept 0 0, OF slept_reach] slept_reach by (simp add: run_defs)

text \<open>C8: No wakeup is lost.  A process that sleeps on the lock while the lock is free has a
  \<open>wakeup\<close> under way that has not yet reached its slot in the process table: however \<open>sleep\<close> is
  interleaved with \<open>releasesleep\<close>, the sleeper either sees the lock free or is found by the loop.\<close>

theorem no_lost_wakeup:
  assumes "sreach s" "ss_pc s k = Asleep" "ss_state s k = SLEEPING" "\<not> ss_locked s"
  shows "\<exists>j m. m \<le> k \<and> (ss_pc s j = WakeLock m \<or> ss_pc s j = WakeTest m)"
proof -
  have "wake_inv s" using sinv_reach [OF assms(1)] by (simp add: sinv_def)
  then have "coming s k" using assms(2-4) by (simp add: wake_inv_def waiting_def)
  then show ?thesis unfolding coming_def by blast
qed

theorem no_lost_wakeup_witness:
  "ss_pc freed 1 = Asleep \<and> ss_state freed 1 = SLEEPING \<and> \<not> ss_locked freed \<and>
   (\<exists>j m. m \<le> 1 \<and> (ss_pc freed j = WakeLock m \<or> ss_pc freed j = WakeTest m))"
proof -
  have h: "ss_pc freed 1 = Asleep" "ss_state freed 1 = SLEEPING" "\<not> ss_locked freed"
    by (simp_all add: run_defs)
  show ?thesis using no_lost_wakeup [OF freed_reach h] h by blast
qed

end
