(* ===== verification/Ring.thy ===== *)
theory Ring
  imports ZPrelude
begin

text \<open>
  Ring buffers with free-running counters.  The pipe, the console input buffer and the transmit
  buffer of the UART all keep two unsigned counters that are never reset, index an array with the
  counter modulo its size, and rely on the counters wrapping around together.  The locale states
  the one fact they need, that the size divides the range of the counter, and proves once that such
  a buffer is a queue; each of the three is an interpretation.
\<close>

text \<open>The number of bytes between the counters, and the bytes themselves, oldest first.\<close>

definition ring_used :: "'w::len word \<Rightarrow> 'w word \<Rightarrow> nat" where
  "ring_used r w = unat (w - r)"

definition ring_contents :: "'w::len word \<Rightarrow> (nat \<Rightarrow> byte) \<Rightarrow> 'w word \<Rightarrow> 'w word \<Rightarrow> byte list" where
  "ring_contents cap buf r w = map (\<lambda>i. buf (unat (r + of_nat i) mod unat cap)) [0..<ring_used r w]"

locale ring =
  fixes cap :: "'w::len word"
  assumes cap_pos: "0 < unat cap"
    and cap_dvd: "unat cap dvd 2 ^ LENGTH('w)"
begin

lemma length_contents [simp]: "length (ring_contents cap buf r w) = ring_used r w"
  by (simp add: ring_contents_def)

lemma mod_word: "unat ((r :: 'w word) + of_nat i) mod unat cap = (unat r + i) mod unat cap"
proof -
  have "unat (r + of_nat i) = (unat r + i) mod 2 ^ LENGTH('w)"
    by (simp add: unat_word_ariths unat_of_nat mod_simps take_bit_eq_mod)
  then show ?thesis using cap_dvd by (simp add: mod_mod_cancel)
qed

lemma used_put: "ring_used (r :: 'w word) w < unat cap \<Longrightarrow> ring_used r (w + 1) = Suc (ring_used r w)"
proof -
  assume a: "ring_used r w < unat cap"
  have "unat (w - r) + 1 < 2 ^ LENGTH('w)" using a unsigned_less [of cap, where 'a = nat] unfolding ring_used_def by linarith
  then have "unat ((w - r) + 1) = Suc (unat (w - r))" by (simp only: unat_word_ariths unsigned_1) simp
  moreover have "w + 1 - r = (w - r) + 1" by (simp add: algebra_simps)
  ultimately show ?thesis unfolding ring_used_def by (simp only:)
qed

lemma used_get: "(w :: 'w word) \<noteq> r \<Longrightarrow> ring_used r w = Suc (ring_used (r + 1) w)"
proof -
  assume "w \<noteq> r"
  then have "w - r \<noteq> 0" by simp
  then have "unat (w - r - 1) = unat (w - r) - 1" "0 < unat (w - r)" by (simp_all add: unat_minus_one unat_gt_0)
  then show ?thesis unfolding ring_used_def by (simp add: diff_diff_eq)
qed

lemma put_contents:
  assumes "ring_used r w < unat cap"
  shows "ring_contents cap (buf(unat w mod unat cap := c)) r (w + 1) = ring_contents cap buf r w @ [c]"
proof -
  let ?b = "buf(unat w mod unat cap := c)"
  have w: "w = r + of_nat (ring_used r w)" by (simp add: ring_used_def)
  have "?b (unat (r + of_nat i) mod unat cap) = buf (unat (r + of_nat i) mod unat cap)" if i: "i < ring_used r w" for i
  proof -
    have "(unat r + i) mod unat cap \<noteq> (unat r + ring_used r w) mod unat cap"
    proof
      assume "(unat r + i) mod unat cap = (unat r + ring_used r w) mod unat cap"
      then have "(ring_used r w - i) mod unat cap = 0" using i
        by (metis add_diff_cancel_left less_imp_le_nat mod_eq_dvd_iff_nat nat_add_left_cancel_le dvd_imp_mod_0)
      moreover have "0 < ring_used r w - i" "ring_used r w - i < unat cap" using i assms by simp_all
      ultimately show False by simp
    qed
    moreover have "unat w mod unat cap = (unat r + ring_used r w) mod unat cap" using mod_word [of r "ring_used r w"] w by simp
    ultimately show ?thesis by (simp add: mod_word)
  qed
  moreover have "?b (unat (r + of_nat (ring_used r w)) mod unat cap) = c" using w by simp
  ultimately show ?thesis unfolding ring_contents_def used_put [OF assms] by (simp add: upt_Suc)
qed

lemma get_contents:
  assumes "w \<noteq> r"
  shows "ring_contents cap buf r w = buf (unat r mod unat cap) # ring_contents cap buf (r + 1) w"
proof -
  have "[0..<Suc (ring_used (r + 1) w)] = 0 # map Suc [0..<ring_used (r + 1) w]"
    by (simp only: upt_conv_Cons map_Suc_upt zero_less_Suc)
  then have e: "ring_contents cap buf r w = map (\<lambda>i. buf (unat (r + of_nat i) mod unat cap)) (0 # map Suc [0..<ring_used (r + 1) w])"
    unfolding ring_contents_def used_get [OF assms] by (simp only:)
  have "r + of_nat (Suc i) = r + 1 + of_nat i" for i by (simp add: algebra_simps)
  then show ?thesis by (subst e) (simp only: ring_contents_def list.map map_map o_def, simp)
qed

lemma empty_iff: "ring_contents cap buf r w = [] \<longleftrightarrow> w = r"
  by (simp add: ring_contents_def ring_used_def unat_eq_0)

lemma full_iff: "ring_used (r :: 'w word) w \<le> unat cap \<Longrightarrow> w = r + cap \<longleftrightarrow> ring_used r w = unat cap"
  by (auto simp: ring_used_def) (metis diff_add_cancel add.commute word_unat_eq_iff)

lemma used_unput: "(e :: 'w word) \<noteq> w \<Longrightarrow> ring_used w e = Suc (ring_used w (e - 1))"
proof -
  assume "e \<noteq> w"
  then have "e - w \<noteq> 0" by simp
  then have "unat (e - w - 1) = unat (e - w) - 1" "0 < unat (e - w)" by (simp_all add: unat_minus_one unat_gt_0)
  moreover have "e - 1 - w = e - w - 1" by (simp add: algebra_simps)
  ultimately have "unat (e - 1 - w) = unat (e - w) - 1" "0 < unat (e - w)" by (simp_all only:)
  then show ?thesis unfolding ring_used_def by linarith
qed

lemma unput_contents:
  assumes "e \<noteq> w"
  shows "ring_contents cap buf w e = ring_contents cap buf w (e - 1) @ [buf (unat (e - 1) mod unat cap)]"
proof -
  have "w + of_nat (ring_used w (e - 1)) = e - 1" by (simp add: ring_used_def)
  then show ?thesis unfolding ring_contents_def used_unput [OF assms] by simp
qed

text \<open>A third counter between the two splits the contents.\<close>

lemma prefix_contents:
  assumes "ring_used r w \<le> ring_used r e"
  shows "ring_contents cap buf r w = take (ring_used r w) (ring_contents cap buf r e)"
  using assms by (simp add: ring_contents_def take_map)

lemma suffix_contents:
  assumes "ring_used r e = ring_used r w + ring_used w e"
  shows "ring_contents cap buf w e = drop (ring_used r w) (ring_contents cap buf r e)"
proof -
  have w: "w = r + of_nat (ring_used r w)" by (simp add: ring_used_def)
  have "w + of_nat i = r + of_nat (ring_used r w + i)" for i by (subst w) (simp add: algebra_simps)
  then have "buf (unat (w + of_nat i) mod unat cap) = buf (unat (r + of_nat (ring_used r w + i)) mod unat cap)" for i
    by (simp only:)
  moreover have "[ring_used r w..<ring_used r e] = map (\<lambda>i. ring_used r w + i) [0..<ring_used w e]"
    using assms map_add_upt [of "ring_used r w" "ring_used w e"] by (simp add: add.commute)
  ultimately show ?thesis by (simp add: ring_contents_def drop_map del: of_nat_add)
qed

lemma used_same [simp]: "ring_used r r = 0"
  by (simp add: ring_used_def)

lemma contents_same [simp]: "ring_contents cap buf r r = []"
  by (simp add: empty_iff)

end

end
