(* ===== verification/Uart.thy ===== *)
theory Uart
  imports Proc Ring
begin

text \<open>
  The driver of the 16550a UART, \<^verbatim>\<open>kernel/uart.c\<close>.  The device is the environment: \<open>uart_ev\<close> is the history
  of the accesses to its registers, newest first, and \<open>uart_dev\<close> is the answer it gives to a read
  after a history.  Nothing is assumed of the answers except where a theorem says so.  The lock
  \<^verbatim>\<open>uart_tx_lock\<close> makes \<open>uartputc\<close> and \<open>uartstart\<close> one step; \<^verbatim>\<open>push_off\<close> and \<^verbatim>\<open>pop_off\<close> are those of the
  theory on spin locks.
\<close>

unbundle bit_operations_syntax

section \<open>Registers\<close>

definition RHR :: nat where "RHR = 0"
definition THR :: nat where "THR = 0"
definition IER :: nat where "IER = 1"
definition IER_RX_ENABLE :: byte where "IER_RX_ENABLE = push_bit 0 1"
definition IER_TX_ENABLE :: byte where "IER_TX_ENABLE = push_bit 1 1"
definition FCR :: nat where "FCR = 2"
definition FCR_FIFO_ENABLE :: byte where "FCR_FIFO_ENABLE = push_bit 0 1"
definition FCR_FIFO_CLEAR :: byte where "FCR_FIFO_CLEAR = push_bit 1 3"
definition LCR :: nat where "LCR = 3"
definition LCR_EIGHT_BITS :: byte where "LCR_EIGHT_BITS = push_bit 0 3"
definition LCR_BAUD_LATCH :: byte where "LCR_BAUD_LATCH = push_bit 7 1"
definition LSR :: nat where "LSR = 5"
definition LSR_RX_READY :: byte where "LSR_RX_READY = push_bit 0 1"
definition LSR_TX_IDLE :: byte where "LSR_TX_IDLE = push_bit 5 1"
definition UART_TX_BUF_SIZE :: u64 where "UART_TX_BUF_SIZE = 32"

lemmas uart_regs = RHR_def THR_def IER_def FCR_def LCR_def LSR_def

datatype uev = URd nat | UWr nat byte

datatype devfn = Consoleread | Consolewrite

record dev_state = proc_state +
  uart_dev :: "uev list \<Rightarrow> nat \<Rightarrow> byte"
  uart_ev :: "uev list"
  uart_tx_buf :: "nat \<Rightarrow> byte"
  uart_tx_w :: u64
  uart_tx_r :: u64
  panicked :: bool
  pr_locking :: bool
  cons_buf :: "nat \<Rightarrow> byte"
  cons_r :: u32
  cons_w :: u32
  cons_e :: u32
  devsw_read :: "nat \<Rightarrow> devfn option"
  devsw_write :: "nat \<Rightarrow> devfn option"

definition ReadReg :: "nat \<Rightarrow> 'a dev_state_scheme \<Rightarrow> byte \<times> 'a dev_state_scheme" where
  "ReadReg reg s = (uart_dev s (uart_ev s) reg, s\<lparr>uart_ev := URd reg # uart_ev s\<rparr>)"

definition WriteReg :: "nat \<Rightarrow> byte \<Rightarrow> 'a dev_state_scheme \<Rightarrow> 'a dev_state_scheme" where
  "WriteReg reg v s = s\<lparr>uart_ev := UWr reg v # uart_ev s\<rparr>"

section \<open>The driver\<close>

definition uartinit :: "'a dev_state_scheme \<Rightarrow> 'a dev_state_scheme" where
  "uartinit s =
     (let s = WriteReg IER 0 s;
          s = WriteReg LCR LCR_BAUD_LATCH s;
          s = WriteReg 0 3 s;
          s = WriteReg 1 0 s;
          s = WriteReg LCR LCR_EIGHT_BITS s;
          s = WriteReg FCR (FCR_FIFO_ENABLE OR FCR_FIFO_CLEAR) s
      in WriteReg IER (IER_TX_ENABLE OR IER_RX_ENABLE) s)"

function uartstart :: "'a dev_state_scheme \<Rightarrow> 'a dev_state_scheme" where
  "uartstart s =
     (if uart_tx_w s = uart_tx_r s then s
      else
        let (v, s) = ReadReg LSR s in
        if v AND LSR_TX_IDLE = 0 then s
        else
          let c = uart_tx_buf s (unat (uart_tx_r s mod UART_TX_BUF_SIZE));
              s = s\<lparr>uart_tx_r := uart_tx_r s + 1\<rparr>;
              s = wakeup ChUart s;
              s = WriteReg THR c s
          in uartstart s)"
  by pat_completeness auto

lemma wakeup_dev [simp]:
  "uart_dev (wakeup ch s) = uart_dev s" "uart_ev (wakeup ch s) = uart_ev s" "uart_tx_buf (wakeup ch s) = uart_tx_buf s"
  "uart_tx_w (wakeup ch s) = uart_tx_w s" "uart_tx_r (wakeup ch s) = uart_tx_r s" "panicked (wakeup ch s) = panicked s"
  "pr_locking (wakeup ch s) = pr_locking s" "cons_buf (wakeup ch s) = cons_buf s" "cons_r (wakeup ch s) = cons_r s"
  "cons_w (wakeup ch s) = cons_w s" "cons_e (wakeup ch s) = cons_e s" "devsw_read (wakeup ch s) = devsw_read s"
  "devsw_write (wakeup ch s) = devsw_write s" "dev_state.more (wakeup ch s) = dev_state.more s"
  by (simp_all add: wakeup_eq)

termination uartstart
proof (relation "measure (\<lambda>s. unat (uart_tx_w s - uart_tx_r s))")
  fix s v and s' s1 s2 s3 :: "'a dev_state_scheme" and x c
  assume "uart_tx_w s \<noteq> uart_tx_r s" "x = ReadReg LSR s" "(v, s') = x" "s1 = s'\<lparr>uart_tx_r := uart_tx_r s' + 1\<rparr>"
    "s2 = wakeup ChUart s1" "s3 = WriteReg THR c s2"
  then have "uart_tx_w s3 - uart_tx_r s3 = uart_tx_w s - uart_tx_r s - 1" "uart_tx_w s - uart_tx_r s \<noteq> 0"
    by (simp_all add: ReadReg_def WriteReg_def)
  then show "(s3, s) \<in> measure (\<lambda>s. unat (uart_tx_w s - uart_tx_r s))"
    by (simp add: unat_minus_one unat_gt_0)
qed simp

declare uartstart.simps [simp del]

definition uartputc :: "byte \<Rightarrow> 'a dev_state_scheme \<Rightarrow> 'a dev_state_scheme res" where
  "uartputc c s =
     (if panicked s then Inl Diverge
      else if uart_tx_w s = uart_tx_r s + UART_TX_BUF_SIZE then Inl (Sleep ChUart)
      else
        let s = s\<lparr>uart_tx_buf := (uart_tx_buf s)(unat (uart_tx_w s mod UART_TX_BUF_SIZE) := c)\<rparr>;
            s = s\<lparr>uart_tx_w := uart_tx_w s + 1\<rparr>
        in Inr (uartstart s))"

partial_function (option) wait_idle :: "'a dev_state_scheme \<Rightarrow> 'a dev_state_scheme option" where
  "wait_idle s =
     (if fst (ReadReg LSR s) AND LSR_TX_IDLE = 0 then wait_idle (snd (ReadReg LSR s))
      else Some (snd (ReadReg LSR s)))"

definition uartputc_sync :: "u32 \<Rightarrow> 'a dev_state_scheme \<Rightarrow> 'a dev_state_scheme res" where
  "uartputc_sync c s =
     (if panicked s then Inl Diverge
      else case wait_idle s of None \<Rightarrow> Inl Diverge | Some s \<Rightarrow> Inr (WriteReg THR (ucast c) s))"

definition uartgetc :: "'a dev_state_scheme \<Rightarrow> int \<times> 'a dev_state_scheme" where
  "uartgetc s =
     (let (v, s) = ReadReg LSR s in
      if v AND 1 \<noteq> 0 then let (v, s) = ReadReg RHR s in (uint v, s) else (- 1, s))"

section \<open>Characters on the console\<close>

definition BACKSPACE :: u32 where "BACKSPACE = 0x100"

definition consputc :: "u32 \<Rightarrow> 'a dev_state_scheme \<Rightarrow> 'a dev_state_scheme res" where
  "consputc c s =
     (if c = BACKSPACE then
        bnd (uartputc_sync 8 s) (\<lambda>s. bnd (uartputc_sync 0x20 s) (\<lambda>s. uartputc_sync 8 s))
      else uartputc_sync c s)"

section \<open>The transmit queue\<close>

interpretation uq: ring UART_TX_BUF_SIZE
  by unfold_locales (simp_all add: UART_TX_BUF_SIZE_def)

text \<open>The bytes given to the device, oldest first, and those still waiting.\<close>

definition sent :: "'a dev_state_scheme \<Rightarrow> byte list" where
  "sent s = rev (concat (map (\<lambda>e. case e of UWr r v \<Rightarrow> if r = THR then [v] else [] | URd r \<Rightarrow> []) (uart_ev s)))"

definition pending :: "'a dev_state_scheme \<Rightarrow> byte list" where
  "pending s = ring_contents UART_TX_BUF_SIZE (uart_tx_buf s) (uart_tx_r s) (uart_tx_w s)"

definition tx_ok :: "'a dev_state_scheme \<Rightarrow> bool" where
  "tx_ok s = (ring_used (uart_tx_r s) (uart_tx_w s) \<le> unat UART_TX_BUF_SIZE)"

lemma length_pending: "length (pending s) = ring_used (uart_tx_r s) (uart_tx_w s)"
  by (simp add: pending_def)

lemma ReadReg_snd [simp]:
  "snd (ReadReg r s) = s\<lparr>uart_ev := URd r # uart_ev s\<rparr>" "fst (ReadReg r s) = uart_dev s (uart_ev s) r"
  by (simp_all add: ReadReg_def)

text \<open>What one round of the loop of \<open>uartstart\<close> leaves behind.\<close>

definition send_one :: "'a dev_state_scheme \<Rightarrow> 'a dev_state_scheme" where
  "send_one s = WriteReg THR (uart_tx_buf s (unat (uart_tx_r s mod UART_TX_BUF_SIZE)))
     (wakeup ChUart (s\<lparr>uart_ev := URd LSR # uart_ev s, uart_tx_r := uart_tx_r s + 1\<rparr>))"

lemma uartstart_rec:
  "uartstart s =
     (if uart_tx_w s = uart_tx_r s then s
      else if uart_dev s (uart_ev s) LSR AND LSR_TX_IDLE = 0 then s\<lparr>uart_ev := URd LSR # uart_ev s\<rparr>
      else uartstart (send_one s))"
  by (subst uartstart.simps) (simp add: ReadReg_def send_one_def Let_def)

lemma uartstart_induct [case_names step]:
  assumes "\<And>s. (uart_tx_w s \<noteq> uart_tx_r s \<Longrightarrow> uart_dev s (uart_ev s) LSR AND LSR_TX_IDLE \<noteq> 0 \<Longrightarrow> P (send_one s)) \<Longrightarrow> P s"
  shows "P s"
  by (induction s rule: uartstart.induct) (rule assms, simp add: ReadReg_def send_one_def)

lemma send_one_fields [simp]:
  "uart_tx_w (send_one s) = uart_tx_w s" "uart_tx_r (send_one s) = uart_tx_r s + 1"
  "uart_tx_buf (send_one s) = uart_tx_buf s" "uart_dev (send_one s) = uart_dev s"
  "panicked (send_one s) = panicked s" "cons_buf (send_one s) = cons_buf s" "cons_r (send_one s) = cons_r s"
  "cons_w (send_one s) = cons_w s" "cons_e (send_one s) = cons_e s" "dev_state.more (send_one s) = dev_state.more s"
  "pmem (send_one s) = pmem s" "curproc (send_one s) = curproc s" "pr_locking (send_one s) = pr_locking s"
  by (simp_all add: send_one_def WriteReg_def)

lemma send_one_queue:
  assumes "uart_tx_w s \<noteq> uart_tx_r s"
  shows "sent (send_one s) @ pending (send_one s) = sent s @ pending s"
proof -
  have "sent (send_one s) = sent s @ [uart_tx_buf s (unat (uart_tx_r s mod UART_TX_BUF_SIZE))]"
    by (simp add: sent_def send_one_def WriteReg_def)
  moreover have "pending s = uart_tx_buf s (unat (uart_tx_r s) mod unat UART_TX_BUF_SIZE) # pending (send_one s)"
    using uq.get_contents [OF assms] by (simp add: pending_def)
  ultimately show ?thesis by (simp add: unat_mod)
qed

lemma send_one_tx_ok: "uart_tx_w s \<noteq> uart_tx_r s \<Longrightarrow> tx_ok s \<Longrightarrow> tx_ok (send_one s)"
  using uq.used_get [of "uart_tx_w s" "uart_tx_r s"] by (simp add: tx_ok_def)

lemma uartstart_queue: "sent (uartstart s) @ pending (uartstart s) = sent s @ pending s"
proof (induction s rule: uartstart_induct)
  case (step s)
  show ?case
    using step.IH send_one_queue [of s] by (subst (1 2) uartstart_rec) (auto simp: sent_def pending_def)
qed

lemma uartstart_tx_ok: "tx_ok s \<Longrightarrow> tx_ok (uartstart s)"
proof (induction s rule: uartstart_induct)
  case (step s)
  then show ?case using send_one_tx_ok [of s] by (subst uartstart_rec) (auto simp: tx_ok_def)
qed

lemma uartstart_fields [simp]:
  "uart_tx_w (uartstart s) = uart_tx_w s" "panicked (uartstart s) = panicked s" "cons_buf (uartstart s) = cons_buf s"
  "cons_r (uartstart s) = cons_r s" "cons_w (uartstart s) = cons_w s" "cons_e (uartstart s) = cons_e s"
  "dev_state.more (uartstart s) = dev_state.more s" "uart_dev (uartstart s) = uart_dev s"
  "pmem (uartstart s) = pmem s" "curproc (uartstart s) = curproc s"
  by (induction s rule: uartstart_induct; subst uartstart_rec; simp)+

text \<open>A device that always has room empties the queue.\<close>

lemma uartstart_drains:
  assumes "\<And>ev. uart_dev s ev LSR AND LSR_TX_IDLE \<noteq> 0"
  shows "pending (uartstart s) = []"
  using assms
proof (induction s rule: uartstart_induct)
  case (step s)
  then show ?case by (subst uartstart_rec) (auto simp: pending_def)
qed

section \<open>Waiting for the device\<close>

lemma wait_idle_steps:
  assumes "\<And>i. i < n \<Longrightarrow> uart_dev s (replicate i (URd LSR) @ uart_ev s) LSR AND LSR_TX_IDLE = 0"
    and "uart_dev s (replicate n (URd LSR) @ uart_ev s) LSR AND LSR_TX_IDLE \<noteq> 0"
  shows "wait_idle s = Some (s\<lparr>uart_ev := replicate (Suc n) (URd LSR) @ uart_ev s\<rparr>)"
  using assms
proof (induction n arbitrary: s)
  case 0
  then show ?case by (subst wait_idle.simps) simp
next
  case (Suc n)
  let ?s = "s\<lparr>uart_ev := URd LSR # uart_ev s\<rparr>"
  have r: "replicate i (URd LSR) @ uart_ev ?s = replicate (Suc i) (URd LSR) @ uart_ev s" for i
    by (induction i) simp_all
  have uart_dev_upd: "uart_dev ?s = uart_dev s" by simp
  have "wait_idle ?s = Some (?s\<lparr>uart_ev := replicate (Suc n) (URd LSR) @ uart_ev ?s\<rparr>)"
    using Suc.prems(1) [of "Suc _"] Suc.prems(2) by (intro Suc.IH; unfold r) (simp_all only: Suc_less_eq uart_dev_upd)
  then show ?case using Suc.prems(1) [of 0] r [of "Suc n"] by (subst wait_idle.simps) simp
qed

lemma wait_idle_fields:
  assumes "wait_idle s = Some s'"
  shows "\<exists>n. s' = s\<lparr>uart_ev := replicate n (URd LSR) @ uart_ev s\<rparr>"
  using assms
proof (induction s s' rule: wait_idle.raw_induct [rotated 1, consumes 1, case_names step])
  case (step f s s')
  let ?s = "s\<lparr>uart_ev := URd LSR # uart_ev s\<rparr>"
  show ?case
  proof (cases "uart_dev s (uart_ev s) LSR AND LSR_TX_IDLE = 0")
    case True
    then obtain n where "s' = ?s\<lparr>uart_ev := replicate n (URd LSR) @ uart_ev ?s\<rparr>" using step by fastforce
    then have "s' = s\<lparr>uart_ev := replicate (Suc n) (URd LSR) @ uart_ev s\<rparr>"
      by (simp add: replicate_app_Cons_same)
    then show ?thesis by blast
  next
    case False
    then have "s' = s\<lparr>uart_ev := replicate 1 (URd LSR) @ uart_ev s\<rparr>" using step by simp
    then show ?thesis by blast
  qed
qed

text \<open>
  A device that becomes idle if it is asked often enough.  For such a device the polling loop of
  \<open>uartputc_sync\<close> ends; the driver then changes nothing but the history, and has sent the byte.
\<close>

definition responsive :: "'a dev_state_scheme \<Rightarrow> bool" where
  "responsive s = (\<forall>ev. \<exists>n. uart_dev s (replicate n (URd LSR) @ ev) LSR AND LSR_TX_IDLE \<noteq> 0)"

definition emits :: "byte list \<Rightarrow> 'a dev_state_scheme \<Rightarrow> 'a dev_state_scheme \<Rightarrow> bool" where
  "emits bs s s' = (sent s' = sent s @ bs \<and> s' = s\<lparr>uart_ev := uart_ev s'\<rparr>)"

lemma emitsI: "s' = s\<lparr>uart_ev := ev\<rparr> \<Longrightarrow> sent s' = sent s @ bs \<Longrightarrow> emits bs s s'"
  by (simp add: emits_def)

lemma emits_Nil [simp]: "emits [] s s"
  by (simp add: emits_def)

lemma emits_trans: "emits bs s s' \<Longrightarrow> emits cs s' s'' \<Longrightarrow> emits (bs @ cs) s s''"
  unfolding emits_def by (elim conjE, intro conjI) (simp, metis dev_state.surjective dev_state.update_convs(2))

lemma emits_fields:
  assumes "emits bs s s'"
  shows "panicked s' = panicked s" "uart_dev s' = uart_dev s" "procs s' = procs s" "curproc s' = curproc s" "pmem s' = pmem s"
    "cons_buf s' = cons_buf s" "cons_r s' = cons_r s" "cons_w s' = cons_w s" "cons_e s' = cons_e s"
    "uart_tx_r s' = uart_tx_r s" "uart_tx_w s' = uart_tx_w s" "uart_tx_buf s' = uart_tx_buf s" "dev_state.more s' = dev_state.more s"
    "responsive s' = responsive s"
proof -
  obtain ev where "s' = s\<lparr>uart_ev := ev\<rparr>" using assms unfolding emits_def by blast
  then show "panicked s' = panicked s" "uart_dev s' = uart_dev s" "procs s' = procs s" "curproc s' = curproc s" "pmem s' = pmem s"
    "cons_buf s' = cons_buf s" "cons_r s' = cons_r s" "cons_w s' = cons_w s" "cons_e s' = cons_e s"
    "uart_tx_r s' = uart_tx_r s" "uart_tx_w s' = uart_tx_w s" "uart_tx_buf s' = uart_tx_buf s" "dev_state.more s' = dev_state.more s"
    "responsive s' = responsive s"
    by (simp_all add: responsive_def)
qed

lemma sent_reads: "sent (s\<lparr>uart_ev := replicate n (URd r) @ uart_ev s\<rparr>) = sent s"
  by (induction n) (simp_all add: sent_def)

lemma responsive_wait:
  assumes "responsive s"
  obtains n where "wait_idle s = Some (s\<lparr>uart_ev := replicate n (URd LSR) @ uart_ev s\<rparr>)"
proof -
  let ?idle = "\<lambda>n. uart_dev s (replicate n (URd LSR) @ uart_ev s) LSR AND LSR_TX_IDLE \<noteq> 0"
  obtain m where "?idle m" using assms unfolding responsive_def by blast
  then have "?idle (LEAST n. ?idle n)" by (rule LeastI)
  moreover have "\<not> ?idle i" if "i < (LEAST n. ?idle n)" for i using that by (rule not_less_Least)
  ultimately show ?thesis using wait_idle_steps [of "LEAST n. ?idle n" s] that by blast
qed

lemma sent_WriteReg: "sent (WriteReg THR c s) = sent s @ [c]"
  by (simp add: sent_def WriteReg_def)

lemma uartputc_sync_emits:
  assumes "responsive s" "\<not> panicked s"
  obtains s' where "uartputc_sync c s = Inr s'" "emits [ucast c] s s'"
proof -
  obtain n where n: "wait_idle s = Some (s\<lparr>uart_ev := replicate n (URd LSR) @ uart_ev s\<rparr>)" (is "_ = Some ?s")
    using responsive_wait [OF assms(1)] by blast
  have "emits [ucast c] s (WriteReg THR (ucast c) ?s)"
    using sent_reads [of n LSR s] sent_WriteReg [of "ucast c" ?s] by (intro emitsI [where ev = "UWr THR (ucast c) # uart_ev ?s"]) (simp_all add: WriteReg_def)
  then show ?thesis using n assms(2) that by (simp add: uartputc_sync_def)
qed

lemma emits_ready:
  assumes "emits bs s s'" "responsive s" "\<not> panicked s" shows "responsive s'" "\<not> panicked s'"
  using emits_fields [OF assms(1)] assms(2,3) by simp_all

lemma consputc_emits:
  assumes "responsive s" "\<not> panicked s" "c \<noteq> BACKSPACE"
  obtains s' where "consputc c s = Inr s'" "emits [ucast c] s s'"
  using uartputc_sync_emits [OF assms(1,2)] assms(3) that by (metis consputc_def)

lemma consputc_backspace:
  assumes s: "responsive s" "\<not> panicked s"
  obtains s' where "consputc BACKSPACE s = Inr s'" "emits [8, 0x20, 8] s s'"
proof -
  obtain s1 where s1: "uartputc_sync 8 s = Inr s1" "emits [8] s s1" using uartputc_sync_emits [OF s, of 8] by auto
  obtain s2 where s2: "uartputc_sync 0x20 s1 = Inr s2" "emits [0x20] s1 s2"
    using uartputc_sync_emits [OF emits_ready [OF s1(2) s], of "0x20"] by auto
  obtain s3 where s3: "uartputc_sync 8 s2 = Inr s3" "emits [8] s2 s3"
    using uartputc_sync_emits [OF emits_ready [OF s2(2) emits_ready [OF s1(2) s]], of 8] by auto
  show ?thesis
    by (rule that [of s3]) (use s1 s2 s3 emits_trans [OF s1(2) emits_trans [OF s2(2) s3(2)]] in \<open>simp_all add: consputc_def\<close>)
qed

section \<open>Properties\<close>


text \<open>A UART that is always idle, next to a machine with one process.\<close>

definition idle_uart :: dev_state where
  "idle_uart = proc_state.extend one_proc_state
     (dev_state.fields (\<lambda>_ _. 0x20) [] (\<lambda>_. 0) 0 0 False False (\<lambda>_. 0) 0 0 0 (\<lambda>_. None) (\<lambda>_. None))"

lemma idle_uart_fields [simp]:
  "uart_dev idle_uart = (\<lambda>_ _. 0x20)" "uart_ev idle_uart = []" "uart_tx_buf idle_uart = (\<lambda>_. 0)"
  "uart_tx_w idle_uart = 0" "uart_tx_r idle_uart = 0" "panicked idle_uart = False" "cons_r idle_uart = 0"
  "cons_w idle_uart = 0" "cons_e idle_uart = 0" "cons_buf idle_uart = (\<lambda>_. 0)"
  by (simp_all add: idle_uart_def proc_state.extend_def dev_state.fields_def)

lemma idle_uart_ready: "tx_ok idle_uart" "responsive idle_uart" "sent idle_uart = []" "pending idle_uart = []"
  by (simp_all add: tx_ok_def responsive_def LSR_TX_IDLE_def sent_def pending_def)



text \<open>A device that is idle at every third poll only.\<close>

definition slow_uart :: dev_state where
  "slow_uart = idle_uart\<lparr>uart_dev := (\<lambda>ev _. if length ev mod 3 = 2 then 0x20 else 0)\<rparr>"


end
