(* ===== verification/Printf.thy ===== *)
theory Printf
  imports Uart
begin

text \<open>
  Formatted output, \<^verbatim>\<open>kernel/printf.c\<close>, and \<open>procdump\<close> of \<^verbatim>\<open>kernel/proc.c\<close>.  A format is its list of bytes; a variable argument is a
  register or a string.  \<^verbatim>\<open>pr.lock\<close> makes a call one step.  A store past the end of the local array of
  \<open>printint\<close>, or an argument of the wrong kind, is \<open>Undefined\<close>.
\<close>

unbundle bit_operations_syntax

section \<open>Numbers\<close>

definition digits :: "byte list" where
  "digits = bytes_of ''0123456789abcdef''"

function digit_loop :: "u64 \<Rightarrow> u64 \<Rightarrow> byte list \<Rightarrow> byte list res" where
  "digit_loop base x buf =
     (if length buf \<ge> 16 then Inl Undefined
      else
        let buf = buf @ [digits ! unat (x mod base)];
            x = x div base
        in if x \<noteq> 0 then digit_loop base x buf else Inr buf)"
  by pat_completeness auto

termination digit_loop
  by (relation "measure (\<lambda>(base, x, buf). 16 - length buf)") auto

declare digit_loop.simps [simp del]

fun cons_puts :: "byte list \<Rightarrow> 'a dev_state_scheme \<Rightarrow> 'a dev_state_scheme res" where
  "cons_puts [] s = Inr s"
| "cons_puts (c # cs) s = bnd (consputc (ucast c) s) (cons_puts cs)"

definition printint :: "u64 \<Rightarrow> u64 \<Rightarrow> bool \<Rightarrow> 'a dev_state_scheme \<Rightarrow> 'a dev_state_scheme res" where
  "printint xx base sign s =
     (let sign = (sign \<and> sint xx < 0);
          x = (if sign then - xx else xx)
      in bnd (digit_loop base x []) (\<lambda>buf.
         bnd (if sign then (if length buf \<ge> 16 then Inl Undefined else Inr (buf @ [0x2D])) else Inr buf) (\<lambda>buf.
         cons_puts (rev buf) s)))"

fun printptr_loop :: "nat \<Rightarrow> u64 \<Rightarrow> 'a dev_state_scheme \<Rightarrow> 'a dev_state_scheme res" where
  "printptr_loop 0 x s = Inr s"
| "printptr_loop (Suc i) x s =
     bnd (consputc (ucast (digits ! unat (drop_bit (8 * 8 - 4) x))) s) (printptr_loop i (push_bit 4 x))"

definition printptr :: "u64 \<Rightarrow> 'a dev_state_scheme \<Rightarrow> 'a dev_state_scheme res" where
  "printptr x s =
     bnd (consputc 0x30 s) (\<lambda>s. bnd (consputc 0x78 s) (\<lambda>s. printptr_loop (8 * 2) x s))"

section \<open>Formats\<close>

text \<open>
  The arguments of a call: \<^verbatim>\<open>va_arg(ap, int)\<close> is the low half of a register, sign-extended;
  \<^verbatim>\<open>va_arg(ap, char*)\<close> is a string or null.
\<close>

datatype parg = PNum u64 | PStr "byte list option"

definition va_int :: "parg list \<Rightarrow> (u64 \<times> parg list) res" where
  "va_int args = (case args of PNum x # args \<Rightarrow> Inr (scast (ucast x :: u32), args) | _ \<Rightarrow> Inl Undefined)"

definition va_uint64 :: "parg list \<Rightarrow> (u64 \<times> parg list) res" where
  "va_uint64 args = (case args of PNum x # args \<Rightarrow> Inr (x, args) | _ \<Rightarrow> Inl Undefined)"

definition va_str :: "parg list \<Rightarrow> (byte list \<times> parg list) res" where
  "va_str args = (case args of PStr (Some x) # args \<Rightarrow> Inr (x, args)
     | PStr None # args \<Rightarrow> Inr (bytes_of ''(null)'', args) | _ \<Rightarrow> Inl Undefined)"

abbreviation ascii :: "char \<Rightarrow> byte" where "ascii \<equiv> of_char"

function printf_loop :: "byte list \<Rightarrow> parg list \<Rightarrow> 'a dev_state_scheme \<Rightarrow> 'a dev_state_scheme res" where
  "printf_loop [] args s = Inr s"
| "printf_loop (cx # fmt) args s =
     (if cx = 0 then Inr s
      else if cx \<noteq> ascii CHR ''%'' then bnd (consputc (ucast cx) s) (printf_loop fmt args)
      else
        let c0 = head0 fmt;
            c1 = (if c0 \<noteq> 0 then head0 (drop 1 fmt) else 0);
            c2 = (if c1 \<noteq> 0 then head0 (drop 2 fmt) else 0)
        in
        if c0 = ascii CHR ''d'' then
          bnd (va_int args) (\<lambda>(x, args). bnd (printint x 10 True s) (printf_loop (drop 1 fmt) args))
        else if c0 = ascii CHR ''l'' \<and> c1 = ascii CHR ''d'' then
          bnd (va_uint64 args) (\<lambda>(x, args). bnd (printint x 10 True s) (printf_loop (drop 2 fmt) args))
        else if c0 = ascii CHR ''l'' \<and> c1 = ascii CHR ''l'' \<and> c2 = ascii CHR ''d'' then
          bnd (va_uint64 args) (\<lambda>(x, args). bnd (printint x 10 True s) (printf_loop (drop 3 fmt) args))
        else if c0 = ascii CHR ''u'' then
          bnd (va_int args) (\<lambda>(x, args). bnd (printint x 10 False s) (printf_loop (drop 1 fmt) args))
        else if c0 = ascii CHR ''l'' \<and> c1 = ascii CHR ''u'' then
          bnd (va_uint64 args) (\<lambda>(x, args). bnd (printint x 10 False s) (printf_loop (drop 2 fmt) args))
        else if c0 = ascii CHR ''l'' \<and> c1 = ascii CHR ''l'' \<and> c2 = ascii CHR ''u'' then
          bnd (va_uint64 args) (\<lambda>(x, args). bnd (printint x 10 False s) (printf_loop (drop 3 fmt) args))
        else if c0 = ascii CHR ''x'' then
          bnd (va_int args) (\<lambda>(x, args). bnd (printint x 16 False s) (printf_loop (drop 1 fmt) args))
        else if c0 = ascii CHR ''l'' \<and> c1 = ascii CHR ''x'' then
          bnd (va_uint64 args) (\<lambda>(x, args). bnd (printint x 16 False s) (printf_loop (drop 2 fmt) args))
        else if c0 = ascii CHR ''l'' \<and> c1 = ascii CHR ''l'' \<and> c2 = ascii CHR ''x'' then
          bnd (va_uint64 args) (\<lambda>(x, args). bnd (printint x 16 False s) (printf_loop (drop 3 fmt) args))
        else if c0 = ascii CHR ''p'' then
          bnd (va_uint64 args) (\<lambda>(x, args). bnd (printptr x s) (printf_loop (drop 1 fmt) args))
        else if c0 = ascii CHR ''s'' then
          bnd (va_str args) (\<lambda>(str, args). bnd (cons_puts str s) (printf_loop (drop 1 fmt) args))
        else if c0 = ascii CHR ''%'' then bnd (consputc 0x25 s) (printf_loop (drop 1 fmt) args)
        else if c0 = 0 then Inr s
        else bnd (consputc 0x25 s) (\<lambda>s. bnd (consputc (ucast c0) s) (printf_loop (drop 1 fmt) args)))"
  by pat_completeness auto

termination printf_loop
  by (relation "measure (\<lambda>(fmt, args, s). length fmt)") (simp_all add: less_Suc_eq_le)

definition printf :: "byte list \<Rightarrow> parg list \<Rightarrow> 'a dev_state_scheme \<Rightarrow> (int \<times> 'a dev_state_scheme) res" where
  "printf fmt args s = bnd (printf_loop fmt args s) (\<lambda>s. Inr (0, s))"

text \<open>
  \<open>panic_freeze\<close> is what \<^verbatim>\<open>panic\<close> does before it spins for ever; elsewhere a call of \<^verbatim>\<open>panic\<close> is the outcome
  \<open>Panic\<close>.
\<close>

definition panic_freeze :: "byte list \<Rightarrow> 'a dev_state_scheme \<Rightarrow> 'a dev_state_scheme res" where
  "panic_freeze msg s =
     (let s = s\<lparr>pr_locking := False\<rparr> in
      bnd (printf (bytes_of ''panic: '') [] s) (\<lambda>(_, s).
      bnd (printf (bytes_of ''%s'' @ [10]) [PStr (Some msg)] s) (\<lambda>(_, s).
      Inr (s\<lparr>panicked := True\<rparr>))))"

definition printfinit :: "'a dev_state_scheme \<Rightarrow> 'a dev_state_scheme" where
  "printfinit s = s\<lparr>pr_locking := True\<rparr>"

section \<open>The process listing\<close>

fun state_name :: "procstate \<Rightarrow> string" where
  "state_name UNUSED = ''unused''"
| "state_name USED = ''used''"
| "state_name SLEEPING = ''sleep ''"
| "state_name RUNNABLE = ''runble''"
| "state_name RUNNING = ''run     ''"
| "state_name ZOMBIE = ''zombie''"

definition cstr :: "byte list \<Rightarrow> byte list" where
  "cstr bs = takeWhile (\<lambda>c. c \<noteq> 0) bs"

fun procdump_loop :: "nat list \<Rightarrow> 'a dev_state_scheme \<Rightarrow> 'a dev_state_scheme res" where
  "procdump_loop [] s = Inr s"
| "procdump_loop (i # is) s =
     (let p = procs s i in
      if p_state p = UNUSED then procdump_loop is s
      else
        bnd (printf (bytes_of ''%d %s %s'')
               [PNum (word_of_int (p_pid p)), PStr (Some (bytes_of (state_name (p_state p)))), PStr (Some (cstr (p_name p)))] s) (\<lambda>(_, s).
        bnd (printf [10] [] s) (\<lambda>(_, s). procdump_loop is s)))"

definition procdump :: "'a dev_state_scheme \<Rightarrow> 'a dev_state_scheme res" where
  "procdump s = bnd (printf [10] [] s) (\<lambda>(_, s). procdump_loop [0..<NPROC] s)"

section \<open>What the numbers look like\<close>

text \<open>The usual numeral of a number, most significant digit first, and its value.\<close>

function numerals :: "nat \<Rightarrow> nat \<Rightarrow> byte list" where
  "numerals b n = (if n < b \<or> b < 2 then [digits ! n] else numerals b (n div b) @ [digits ! (n mod b)])"
  by pat_completeness auto

termination numerals
  by (relation "measure snd") auto

declare numerals.simps [simp del]

fun index_of :: "'a \<Rightarrow> 'a list \<Rightarrow> nat" where
  "index_of x [] = 0"
| "index_of x (y # ys) = (if x = y then 0 else Suc (index_of x ys))"

definition numeral_value :: "nat \<Rightarrow> byte list \<Rightarrow> nat" where
  "numeral_value b ds = foldl (\<lambda>v d. b * v + index_of d digits) 0 ds"

lemma index_of_nth: "distinct xs \<Longrightarrow> i < length xs \<Longrightarrow> index_of (xs ! i) xs = i"
proof (induction xs arbitrary: i)
  case (Cons x xs)
  then show ?case by (cases i) (auto simp: in_set_conv_nth)
qed simp

lemma digits_distinct: "distinct digits" "length digits = 16"
  by (simp_all add: digits_def bytes_of_def)

lemma numerals_value: "2 \<le> b \<Longrightarrow> b \<le> 16 \<Longrightarrow> numeral_value b (numerals b n) = n"
proof (induction b n rule: numerals.induct)
  case (1 b n)
  have d: "index_of (digits ! k) digits = k" if "k < b" for k
    using that "1.prems" index_of_nth [of digits k] digits_distinct by simp
  show ?case
  proof (cases "n < b")
    case True
    then show ?thesis using d [of n] by (subst numerals.simps) (simp add: numeral_value_def)
  next
    case False
    then have "numeral_value b (numerals b (n div b)) = n div b" using 1 by simp
    moreover have "n mod b < b" using "1.prems" by simp
    ultimately show ?thesis using False "1.prems" d by (subst numerals.simps) (simp add: numeral_value_def)
  qed
qed

lemma numerals_length: "2 \<le> b \<Longrightarrow> 0 < k \<Longrightarrow> length (numerals b n) \<le> k \<longleftrightarrow> n < b ^ k"
proof (induction k arbitrary: n)
  case (Suc k)
  show ?case
  proof (cases "n < b")
    case True
    moreover have "b \<le> b ^ Suc k" using Suc.prems by (intro self_le_power) simp_all
    ultimately have "n < b ^ Suc k" by linarith
    then show ?thesis using True by (subst numerals.simps) simp
  next
    case False
    have ne: "0 < length (numerals b (n div b))" by (subst numerals.simps) simp
    have "length (numerals b n) = Suc (length (numerals b (n div b)))" using False Suc.prems by (subst numerals.simps) simp
    moreover have "n < b ^ Suc k \<longleftrightarrow> n div b < b ^ k" using Suc.prems by (simp add: div_less_iff_less_mult mult.commute)
    ultimately show ?thesis using Suc.IH [of "n div b"] Suc.prems ne False by (cases "k = 0") auto
  qed
qed simp

lemma digit_loop_numerals:
  assumes "2 \<le> unat base" "unat base \<le> 16"
  shows "digit_loop base x buf =
    (if length buf + length (numerals (unat base) (unat x)) \<le> 16 then Inr (buf @ rev (numerals (unat base) (unat x))) else Inl Undefined)"
  using assms
proof (induction base x buf rule: digit_loop.induct)
  case (1 base x buf)
  let ?b = "unat base"
  have pos: "0 < length (numerals ?b n)" for n by (subst numerals.simps) simp
  show ?case
  proof (cases "length buf \<ge> 16")
    case True
    then have "\<not> length buf + length (numerals ?b (unat x)) \<le> 16" using pos [of "unat x"] by linarith
    then show ?thesis using True by (subst digit_loop.simps) simp
  next
    case False
    have z: "x div base = 0 \<longleftrightarrow> unat x < ?b" using "1.prems" by (auto simp: unat_eq_0 [symmetric] unat_div div_eq_0_iff)
    show ?thesis
    proof (cases "unat x < ?b")
      case True
      then have "numerals ?b (unat x) = [digits ! unat x]" by (subst numerals.simps) simp
      then show ?thesis using True False z by (subst digit_loop.simps) (simp add: unat_mod Let_def)
    next
      case ge: False
      have "numerals ?b (unat x) = numerals ?b (unat x div ?b) @ [digits ! (unat x mod ?b)]"
        using ge "1.prems" by (subst numerals.simps) simp
      then show ?thesis using ge False z 1
        by (subst digit_loop.simps) (simp add: unat_mod unat_div Let_def)
    qed
  qed
qed

lemma cons_puts_emits:
  assumes "responsive s" "\<not> panicked s"
  shows "\<exists>s'. cons_puts bs s = Inr s' \<and> emits bs s s'"
  using assms
proof (induction bs arbitrary: s)
  case (Cons c cs)
  have "ucast c \<noteq> BACKSPACE"
  proof
    assume "ucast c = BACKSPACE"
    then have "unat (ucast c :: u32) = 256" by (simp add: BACKSPACE_def)
    then have "unat c = 256" by (simp only: unat_ucast_byte)
    moreover have "unat c < 256" using unsigned_less [of c, where 'a = nat] by simp
    ultimately show False by linarith
  qed
  moreover have "ucast (ucast c :: u32) = c" by (simp add: ucast_ucast_byte)
  ultimately obtain s1 where s1: "consputc (ucast c) s = Inr s1" "emits [c] s s1"
    using consputc_emits [OF Cons.prems, of "ucast c"] by metis
  obtain s2 where s2: "cons_puts cs s1 = Inr s2" "emits cs s1 s2" using Cons.IH emits_ready [OF s1(2) Cons.prems] by blast
  have "emits (c # cs) s s2" using emits_trans [OF s1(2) s2(2)] by simp
  then show ?case using s1(1) s2(1) by simp
qed simp

text \<open>The text of a number as \<open>printint\<close> means to print it.\<close>

definition number_text :: "u64 \<Rightarrow> nat \<Rightarrow> bool \<Rightarrow> byte list" where
  "number_text x b sign =
     (let v = (if sign then sint x else uint x) in
      (if v < 0 then [0x2D] else []) @ numerals b (nat \<bar>v\<bar>))"

lemma unat_neg: "sint (x :: u64) < 0 \<Longrightarrow> unat (- x) = nat \<bar>sint x\<bar>"
proof -
  assume neg: "sint x < 0"
  have "- (2 ^ 63) \<le> sint x" using sint_ge [of x] by simp
  then have "take_bit 64 (- sint x) = - sint x" using neg by (intro take_bit_int_eq_self) simp_all
  moreover have "uint (- x) = take_bit 64 (- sint x)"
    using uint_word_of_int_eq [of "- sint x", where 'a = 64] unfolding of_int_minus of_int_sint len_bit0 len_num1 by simp
  ultimately show ?thesis using neg by (simp add: unat_eq_nat_uint)
qed
lemma unat_nonneg: "\<not> sint (x :: u64) < 0 \<Longrightarrow> unat x = nat \<bar>sint x\<bar>"
proof -
  assume a: "\<not> sint x < 0"
  have "sint x < 2 ^ 63" using sint_less [of x] by simp
  then have t: "take_bit 64 (sint x) = sint x" using a by (intro take_bit_int_eq_self) simp_all
  have "uint x = take_bit 64 (sint x)"
    using uint_word_of_int_eq [of "sint x", where 'a = 64] unfolding of_int_sint len_bit0 len_num1 by simp
  then show ?thesis using t a by (simp add: unat_eq_nat_uint)
qed
lemma printint_spec:
  assumes "responsive s" "\<not> panicked s" and b: "unat base = 10 \<or> unat base = 16"
  shows "if length (number_text xx (unat base) sign) \<le> 16
    then \<exists>s'. printint xx base sign s = Inr s' \<and> emits (number_text xx (unat base) sign) s s'
    else printint xx base sign s = Inl Undefined"
proof -
  let ?neg = "sign \<and> sint xx < 0" and ?x = "if sign \<and> sint xx < 0 then - xx else xx"
  let ?ds = "numerals (unat base) (unat ?x)"
  have t: "number_text xx (unat base) sign = (if ?neg then [0x2D] else []) @ ?ds"
  proof (cases sign)
    case True
    then show ?thesis
      unfolding number_text_def Let_def by (cases "sint xx < 0") (simp_all only: unat_neg unat_nonneg if_True if_False simp_thms)
  next
    case False
    have "\<not> uint xx < 0" "nat \<bar>uint xx\<bar> = unat xx" by simp_all
    then show ?thesis using False unfolding number_text_def Let_def by (simp only: if_False simp_thms)
  qed
  have dl: "digit_loop base x [] = (if length (numerals (unat base) (unat x)) \<le> 16
      then Inr (rev (numerals (unat base) (unat x))) else Inl Undefined)" for x
    using digit_loop_numerals [of base x "[]"] b by auto
  show ?thesis
  proof (cases "length (number_text xx (unat base) sign) \<le> 16")
    case True
    then have "printint xx base sign s = cons_puts (number_text xx (unat base) sign) s"
      unfolding t by (cases ?neg) (auto simp: printint_def Let_def dl)
    then show ?thesis using True cons_puts_emits [OF assms(1,2)] by simp
  next
    case False
    then have "printint xx base sign s = Inl Undefined"
      unfolding t by (cases ?neg) (auto simp: printint_def Let_def dl)
    then show ?thesis using False by simp
  qed
qed

text \<open>C26: \<open>printint\<close> on every input, in both bases.  It prints exactly the minus sign, if the number is
  negative and meant to be signed, and the digits of the number without leading zeros, provided
  this text fits the sixteen bytes of its local array; otherwise it stores past the array.\<close>

theorem printint_text:
  assumes "responsive s" "\<not> panicked s" and b: "unat base = 10 \<or> unat base = 16"
  shows "if length (number_text xx (unat base) sign) \<le> 16
    then \<exists>s'. printint xx base sign s = Inr s' \<and> emits (number_text xx (unat base) sign) s s'
    else printint xx base sign s = Inl Undefined"
  using assms by (rule printint_spec)

theorem printint_text_witness:
  "\<exists>s'. printint (- 42) 10 True idle_uart = Inr s' \<and> emits (bytes_of ''-42'') idle_uart s'"
proof -
  have "number_text (- 42) 10 True = bytes_of ''-42''"
    by (simp add: number_text_def numerals.simps digits_def bytes_of_def)
  then show ?thesis
    using printint_text [of idle_uart 10 "- 42" True] idle_uart_ready by (simp add: bytes_of_def)
qed

lemma sint_neg_uint: "sint (x :: u64) < 0 \<Longrightarrow> 2 ^ 63 \<le> uint x"
proof (rule ccontr)
  assume neg: "sint x < 0" and small: "\<not> 2 ^ 63 \<le> uint x"
  have "- (2 ^ 63) \<le> uint x" by (rule order_trans [OF _ uint_ge_0]) simp
  then have "signed_take_bit 63 (uint x) = uint x" using small by (intro signed_take_bit_int_eq_self) simp_all
  moreover have "sint x = signed_take_bit 63 (uint x)" unfolding sint_uint by simp
  ultimately show False using neg uint_ge_0 [of x] by linarith
qed

text \<open>C35: \<^verbatim>\<open>%u\<close> on every 32-bit argument.  It prints the numeral of an argument below \<open>2\<^sup>3\<^sup>1\<close>; it takes a larger
  one as a negative \<^verbatim>\<open>int\<close>, widens it to a 64-bit number of twenty digits and stores past the array of
  \<open>printint\<close>.\<close>

theorem printf_u_signed:
  assumes "responsive s" "\<not> panicked s"
  shows "if sint y < 0 then printf (bytes_of ''%u'') [PNum (ucast (y :: u32))] s = Inl Undefined
    else \<exists>s'. printf (bytes_of ''%u'') [PNum (ucast y)] s = Inr (0, s') \<and> emits (numerals 10 (unat y)) s s'"
proof -
  have pf: "printf (bytes_of ''%u'') [PNum (ucast y)] s = bnd (printint (scast y) 10 False s) (\<lambda>s. Inr (0, s))"
  proof -
    have "ucast (ucast y :: u64) = y" by (simp add: ucast_down_ucast_id is_down)
    then show ?thesis by (simp add: printf_def bytes_of_def va_int_def bnd_assoc)
  qed
  have t: "number_text (scast y) 10 False = numerals 10 (unat (scast y :: u64))"
    by (simp add: number_text_def)
  note sp = printint_spec [OF assms, of 10 "scast y" False]
  show ?thesis
  proof (cases "sint y < 0")
    case True
    then have "sint (scast y :: u64) < 0" by (simp add: sint_scast_u32)
    then have "2 ^ 63 \<le> uint (scast y :: u64)" by (rule sint_neg_uint)
    then have "nat (2 ^ 63) \<le> unat (scast y :: u64)" unfolding unat_eq_nat_uint [of "scast y"] by (rule nat_mono)
    then have "\<not> unat (scast y :: u64) < 10 ^ 16" by simp
    then have "\<not> length (numerals 10 (unat (scast y :: u64))) \<le> 16" using numerals_length [of 10 16] by simp
    then show ?thesis using True sp pf t by simp
  next
    case False
    then have "take_bit 32 (sint y) = sint y" using sint_less [of y] by (intro take_bit_int_eq_self) simp_all
    then have "nat (sint y) = unat y" unfolding unat_eq_nat_uint [of y] uint_sint [of y] by simp
    then have u: "unat (scast y :: u64) = unat y" using False unat_nonneg [of "scast y"] by (simp add: sint_scast_u32)
    have "unat y < 10 ^ 16" by (rule less_trans [OF unsigned_less]) simp
    then have "length (numerals 10 (unat y)) \<le> 16" using numerals_length [of 10 16] by simp
    then show ?thesis using False sp pf t u by auto
  qed
qed

theorem printf_u_signed_witness:
  "printf (bytes_of ''%u'') [PNum 0xFFFFFFFF] idle_uart = Inl Undefined \<and>
   (\<exists>s'. printf (bytes_of ''%u'') [PNum 42] idle_uart = Inr (0, s') \<and> emits (bytes_of ''42'') idle_uart s')"
  using printf_u_signed [of idle_uart "0xFFFFFFFF"] printf_u_signed [of idle_uart 42] idle_uart_ready
  by (simp add: numerals.simps digits_def bytes_of_def)

lemma printf_plain:
  assumes "responsive s" "\<not> panicked s" "0 \<notin> set bs" "ascii CHR ''%'' \<notin> set bs"
  shows "printf_loop bs args s = cons_puts bs s"
  using assms
proof (induction bs arbitrary: s)
  case (Cons c cs)
  obtain s' where s': "cons_puts [c] s = Inr s'" "emits [c] s s'" using cons_puts_emits [OF Cons.prems(1,2)] by blast
  have "printf_loop cs args s' = cons_puts cs s'" using Cons.IH emits_ready [OF s'(2) Cons.prems(1,2)] Cons.prems by auto
  then show ?case using s'(1) Cons.prems by (auto simp: bnd_eq_Inr)
qed simp

text \<open>After a panic no CPU can print: both ways to the UART spin.\<close>

lemma panic_silences:
  assumes "panic_freeze msg s = Inr s'"
  shows "uartputc c s' = Inl Diverge" "uartputc_sync c' s' = Inl Diverge"
proof -
  have "panicked s'" using assms by (auto simp: panic_freeze_def bnd_eq_Inr Let_def)
  then show "uartputc c s' = Inl Diverge" "uartputc_sync c' s' = Inl Diverge"
    by (simp_all add: uartputc_def uartputc_sync_def)
qed

text \<open>A process identifier, and any other 32-bit number printed with \<^verbatim>\<open>%d\<close>, fits.\<close>

lemma printint_int_emits:
  assumes "responsive s" "\<not> panicked s"
  shows "\<exists>s'. printint (scast (y :: u32)) 10 True s = Inr s' \<and> emits (number_text (scast y) 10 True) s s'"
proof -
  have "sint (scast y :: u64) = sint y" by (simp add: sint_scast_u32)
  moreover have "nat \<bar>sint y\<bar> < 10 ^ 15" using sint_ge [of y] sint_less [of y] by simp
  ultimately have "length (numerals 10 (nat \<bar>sint (scast y :: u64)\<bar>)) \<le> 15" using numerals_length [of 10 15] by simp
  moreover have "length (if sint (scast y :: u64) < 0 then [0x2D :: byte] else []) \<le> 1" by simp
  ultimately have "length (number_text (scast y) 10 True) \<le> 16"
    unfolding number_text_def Let_def if_True length_append by linarith
  then show ?thesis using printint_spec [OF assms, of 10 "scast y" True] by simp
qed

text \<open>\<open>runs f s\<close>: \<open>f\<close> returns from \<open>s\<close>, having changed nothing but what the UART has seen.\<close>

definition runs :: "'a dev_state_scheme res \<Rightarrow> 'a dev_state_scheme \<Rightarrow> bool" where
  "runs r s = (\<exists>s' bs. r = Inr s' \<and> emits bs s s')"

lemma runs_bnd:
  assumes "runs r s" "responsive s" "\<not> panicked s"
    and "\<And>s'. responsive s' \<Longrightarrow> \<not> panicked s' \<Longrightarrow> procs s' = procs s \<Longrightarrow> runs (f s') s'"
  shows "runs (bnd r f) s"
proof -
  obtain s' bs where s': "r = Inr s'" "emits bs s s'" using assms(1) unfolding runs_def by blast
  obtain s'' cs where "f s' = Inr s''" "emits cs s' s''"
    using assms(4) [OF emits_ready [OF s'(2) assms(2,3)] emits_fields(3) [OF s'(2)]] unfolding runs_def by blast
  then show ?thesis using s'(1) emits_trans [OF s'(2)] unfolding runs_def by auto
qed

lemma runs_basic:
  assumes "responsive s" "\<not> panicked s"
  shows "runs (Inr s) s" "runs (cons_puts bs s) s" "runs (printint (scast (y :: u32)) 10 True s) s"
    "runs (consputc (ucast (c :: byte)) s) s"
  using cons_puts_emits [OF assms] printint_int_emits [OF assms, of y] cons_puts_emits [OF assms, of "[c]"] emits_Nil
  unfolding runs_def by (blast, blast, blast, auto simp: bnd_eq_Inr)

lemma runs_chars:
  assumes "responsive s" "\<not> panicked s"
  shows "runs (consputc 10 s) s" "runs (consputc 0x20 s) s"
  using runs_basic(4) [OF assms, of 10] runs_basic(4) [OF assms, of "0x20"] by simp_all

lemma procdump_runs:
  assumes "responsive s" "\<not> panicked s"
  shows "runs (procdump s) s"
proof -
  have "runs (procdump_loop is s) s" if "responsive s" "\<not> panicked s" for "is" and s :: "'a dev_state_scheme"
    using that
  proof (induction "is" arbitrary: s)
    case (Cons i "is")
    show ?case
      unfolding procdump_loop.simps Let_def printf_def bytes_of_def
      using Cons
      by (auto simp: va_int_def va_str_def bnd_assoc intro!: runs_basic runs_chars runs_bnd)
  qed (simp add: runs_basic)
  then show ?thesis unfolding procdump_def printf_def using assms
    by (auto simp: bnd_assoc intro!: runs_chars runs_bnd)
qed

end
