(* ===== verification/Buf.thy ===== *)
theory Buf
  imports Sleeplock Printf
begin

text \<open>
  The state of the block layer: \<^verbatim>\<open>struct buf\<close> (\<^verbatim>\<open>kernel/buf.h\<close>), the virtio queue of
  \<^verbatim>\<open>kernel/virtio.h\<close>, and the disk.  Buffers are named by their index in \<^verbatim>\<open>bcache.buf\<close>; the list head
  \<^verbatim>\<open>bcache.head\<close> is the buffer \<open>NBUF\<close>.  Addresses the driver hands to the device name the object they
  point to.  The disk is a function from block numbers to blocks; \<open>dwrites\<close> is the history of the
  writes that reached it, in order, so that a crash between any two of them can be described.
\<close>

section \<open>Buffers\<close>

definition NBUF :: nat where "NBUF = 30"
definition BSIZE :: nat where "BSIZE = 1024"

record buf =
  b_valid :: bool
  b_disk :: bool
  b_dev :: u32
  b_blockno :: u32
  b_lock :: sleeplock
  b_refcnt :: u32
  b_prev :: nat
  b_next :: nat
  b_data :: "byte list"

section \<open>The virtio queue\<close>

definition NUM :: nat where "NUM = 8"

datatype dma = DmaNull | DmaOps nat | DmaData nat | DmaStatus nat

record virtq_desc =
  vd_addr :: dma
  vd_len :: u32
  vd_flags :: u16
  vd_next :: u16

record virtio_blk_req =
  br_type :: u32
  br_reserved :: u32
  br_sector :: u64

text \<open>
  \<^verbatim>\<open>struct disk\<close> with the three areas shared with the device: the descriptor table, the ring of
  available chains and the ring of used ones (of whose entries the driver reads the \<open>id\<close>).
  \<open>vq_mmio\<close> are the writes to the device's registers so far.
\<close>

record vdisk =
  vq_desc_at :: addr
  vq_avail_at :: addr
  vq_used_at :: addr
  vq_desc :: "nat \<Rightarrow> virtq_desc"
  vq_avail_idx :: u16
  vq_avail_ring :: "nat \<Rightarrow> u16"
  vq_used_idx :: u16
  vq_used_ring :: "nat \<Rightarrow> u32"
  vk_free :: "nat \<Rightarrow> bool"
  vk_used_idx :: u16
  vk_info_b :: "nat \<Rightarrow> nat option"
  vk_info_status :: "nat \<Rightarrow> byte"
  vk_ops :: "nat \<Rightarrow> virtio_blk_req"
  vq_mmio :: "(u32 \<times> u32) list"

section \<open>The state\<close>

record disk_state = dev_state +
  bufs :: "nat \<Rightarrow> buf"
  vdk :: vdisk
  disk :: "u32 \<Rightarrow> byte list"
  dwrites :: "(u32 \<times> byte list) list"

definition upd_buf :: "nat \<Rightarrow> (buf \<Rightarrow> buf) \<Rightarrow> 'a disk_state_scheme \<Rightarrow> 'a disk_state_scheme" where
  "upd_buf b f s = s\<lparr>bufs := (bufs s)(b := f (bufs s b))\<rparr>"

definition upd_vdk :: "(vdisk \<Rightarrow> vdisk) \<Rightarrow> 'a disk_state_scheme \<Rightarrow> 'a disk_state_scheme" where
  "upd_vdk f s = s\<lparr>vdk := f (vdk s)\<rparr>"

text \<open>
  What the block layer asks of the disk: the buffer is read from its block, or the block is
  overwritten with the buffer.
\<close>

definition disk_rw :: "nat \<Rightarrow> bool \<Rightarrow> 'a disk_state_scheme \<Rightarrow> 'a disk_state_scheme" where
  "disk_rw b write s =
     (let n = b_blockno (bufs s b) in
      if write then s\<lparr>disk := (disk s)(n := b_data (bufs s b)), dwrites := dwrites s @ [(n, b_data (bufs s b))]\<rparr>
      else upd_buf b (\<lambda>x. x\<lparr>b_data := disk s n\<rparr>) s)"

lemma upd_buf_fields [simp]:
  "bufs (upd_buf b f s) = (bufs s)(b := f (bufs s b))" "vdk (upd_buf b f s) = vdk s"
  "disk (upd_buf b f s) = disk s" "dwrites (upd_buf b f s) = dwrites s" "procs (upd_buf b f s) = procs s"
  "curproc (upd_buf b f s) = curproc s" "pmem (upd_buf b f s) = pmem s" "mp (upd_buf b f s) = mp s"
  "disk_state.more (upd_buf b f s) = disk_state.more s"
  by (simp_all add: upd_buf_def mp_def myproc_def)

lemma upd_vdk_fields [simp]:
  "vdk (upd_vdk g s) = g (vdk s)" "bufs (upd_vdk g s) = bufs s"
  "disk (upd_vdk g s) = disk s" "dwrites (upd_vdk g s) = dwrites s" "procs (upd_vdk g s) = procs s"
  "curproc (upd_vdk g s) = curproc s" "pmem (upd_vdk g s) = pmem s" "mp (upd_vdk g s) = mp s"
  "disk_state.more (upd_vdk g s) = disk_state.more s"
  by (simp_all add: upd_vdk_def mp_def myproc_def)

lemma wakeup_disk [simp]:
  "bufs (wakeup ch s) = bufs s" "vdk (wakeup ch s) = vdk s" "disk (wakeup ch s) = disk s"
  "dwrites (wakeup ch s) = dwrites s" "disk_state.more (wakeup ch s) = disk_state.more s"
  by (simp_all add: wakeup_eq)

text \<open>A process does not wake itself, so its own record is the one before.\<close>

lemma woken_self [simp]: "woken ch (Some i) i p = p"
  by (simp add: woken_def)

lemma mp_wakeup: "curproc s \<noteq> None \<Longrightarrow> mp (wakeup ch s) = mp s"
  by (auto simp: mp_def myproc_def wakeup_eq)

lemma pid_wakeup [simp]: "p_pid (mp (wakeup ch s)) = p_pid (mp s)"
  by (simp add: mp_def myproc_def wakeup_eq)

section \<open>A state at power-on\<close>

definition no_buf :: buf where
  "no_buf = \<lparr>b_valid = False, b_disk = False, b_dev = 0, b_blockno = 0, b_lock = initsleeplock, b_refcnt = 0,
     b_prev = 0, b_next = 0, b_data = replicate BSIZE 0\<rparr>"

definition no_vdisk :: vdisk where
  "no_vdisk = \<lparr>vq_desc_at = 0, vq_avail_at = 0, vq_used_at = 0,
     vq_desc = (\<lambda>_. \<lparr>vd_addr = DmaNull, vd_len = 0, vd_flags = 0, vd_next = 0\<rparr>),
     vq_avail_idx = 0, vq_avail_ring = (\<lambda>_. 0), vq_used_idx = 0, vq_used_ring = (\<lambda>_. 0), vk_free = (\<lambda>_. False),
     vk_used_idx = 0, vk_info_b = (\<lambda>_. None), vk_info_status = (\<lambda>_. 0),
     vk_ops = (\<lambda>_. \<lparr>br_type = 0, br_reserved = 0, br_sector = 0\<rparr>), vq_mmio = []\<rparr>"

definition blank_disk_state :: disk_state where
  "blank_disk_state = dev_state.extend idle_uart
     (disk_state.fields (\<lambda>_. no_buf) no_vdisk (\<lambda>_. replicate BSIZE 0) [])"

lemma blank_disk_fields [simp]:
  "bufs blank_disk_state = (\<lambda>_. no_buf)" "vdk blank_disk_state = no_vdisk"
  "disk blank_disk_state = (\<lambda>_. replicate BSIZE 0)" "dwrites blank_disk_state = []"
  "procs blank_disk_state = procs one_proc_state" "curproc blank_disk_state = Some 0"
  by (simp_all add: blank_disk_state_def proc_state.extend_def dev_state.extend_def dev_state.fields_def
      disk_state.fields_def idle_uart_def one_proc_state_def)

end
