(* ===== verification/Bio.thy ===== *)
theory Bio
  imports Buf
begin

text \<open>
  The buffer cache, \<^verbatim>\<open>kernel/bio.c\<close>: thirty buffers on a circular doubly-linked list in order of use,
  whose head is buffer \<open>NBUF\<close>.  The walks along the list take a bound on the number of hops; on a
  list that is in order \<open>NBUF + 1\<close> is enough, which the invariant guarantees.  \<^verbatim>\<open>bcache.lock\<close> makes each
  routine one step up to its call of \<open>acquiresleep\<close>.  The section on the abstract cache states what
  the routines mean for the blocks of the disk: \<open>blk\<close> is the contents of a block as the file system
  sees it, \<open>rc\<close> the number of references to it.
\<close>

section \<open>The routines\<close>

definition set_next :: "nat \<Rightarrow> nat \<Rightarrow> 'a disk_state_scheme \<Rightarrow> 'a disk_state_scheme" where
  "set_next b c = upd_buf b (\<lambda>x. x\<lparr>b_next := c\<rparr>)"

definition set_prev :: "nat \<Rightarrow> nat \<Rightarrow> 'a disk_state_scheme \<Rightarrow> 'a disk_state_scheme" where
  "set_prev b c = upd_buf b (\<lambda>x. x\<lparr>b_prev := c\<rparr>)"

text \<open>Put buffer \<open>b\<close> right after the head: the statements \<open>binit\<close> and \<open>brelse\<close> share.\<close>

definition push_front :: "nat \<Rightarrow> 'a disk_state_scheme \<Rightarrow> 'a disk_state_scheme" where
  "push_front b s =
     (let s = set_next b (b_next (bufs s NBUF)) s;
          s = set_prev b NBUF s;
          s = set_prev (b_next (bufs s NBUF)) b s in
      set_next NBUF b s)"

definition binit_one :: "nat \<Rightarrow> 'a disk_state_scheme \<Rightarrow> 'a disk_state_scheme" where
  "binit_one b s = push_front b (upd_buf b (\<lambda>x. x\<lparr>b_lock := initsleeplock\<rparr>) s)"

definition binit :: "'a disk_state_scheme \<Rightarrow> 'a disk_state_scheme" where
  "binit s = fold binit_one [0..<NBUF] (set_next NBUF NBUF (set_prev NBUF NBUF s))"

fun bget_cached :: "nat \<Rightarrow> nat \<Rightarrow> u32 \<Rightarrow> u32 \<Rightarrow> 'a disk_state_scheme \<Rightarrow> nat option res" where
  "bget_cached 0 b dev blockno s = Inl Diverge"
| "bget_cached (Suc n) b dev blockno s =
     (if b = NBUF then Inr None
      else if b_dev (bufs s b) = dev \<and> b_blockno (bufs s b) = blockno then Inr (Some b)
      else bget_cached n (b_next (bufs s b)) dev blockno s)"

fun bget_lru :: "nat \<Rightarrow> nat \<Rightarrow> 'a disk_state_scheme \<Rightarrow> nat option res" where
  "bget_lru 0 b s = Inl Diverge"
| "bget_lru (Suc n) b s =
     (if b = NBUF then Inr None
      else if b_refcnt (bufs s b) = 0 then Inr (Some b)
      else bget_lru n (b_prev (bufs s b)) s)"

definition block_acquire :: "nat \<Rightarrow> 'a disk_state_scheme \<Rightarrow> (nat \<times> 'a disk_state_scheme) res" where
  "block_acquire b s =
     bnd (acquiresleep (ChBufLock b) (b_lock (bufs s b)) s) (\<lambda>lk. Inr (b, upd_buf b (\<lambda>x. x\<lparr>b_lock := lk\<rparr>) s))"

definition bget :: "u32 \<Rightarrow> u32 \<Rightarrow> 'a disk_state_scheme \<Rightarrow> (nat \<times> 'a disk_state_scheme) res" where
  "bget dev blockno s =
     bnd (bget_cached (Suc NBUF) (b_next (bufs s NBUF)) dev blockno s) (\<lambda>r. case r of
       Some b \<Rightarrow> block_acquire b (upd_buf b (\<lambda>x. x\<lparr>b_refcnt := b_refcnt x + 1\<rparr>) s)
     | None \<Rightarrow> bnd (bget_lru (Suc NBUF) (b_prev (bufs s NBUF)) s) (\<lambda>r. case r of
         Some b \<Rightarrow> block_acquire b
           (upd_buf b (\<lambda>x. x\<lparr>b_dev := dev, b_blockno := blockno, b_valid := False, b_refcnt := 1\<rparr>) s)
       | None \<Rightarrow> panic ''bget: no buffers''))"

definition bread :: "u32 \<Rightarrow> u32 \<Rightarrow> 'a disk_state_scheme \<Rightarrow> (nat \<times> 'a disk_state_scheme) res" where
  "bread dev blockno s =
     bnd (bget dev blockno s) (\<lambda>(b, s).
       if \<not> b_valid (bufs s b) then Inr (b, upd_buf b (\<lambda>x. x\<lparr>b_valid := True\<rparr>) (disk_rw b False s))
       else Inr (b, s))"

definition bwrite :: "nat \<Rightarrow> 'a disk_state_scheme \<Rightarrow> 'a disk_state_scheme res" where
  "bwrite b s =
     (if \<not> holdingsleep (b_lock (bufs s b)) s then panic ''bwrite'' else Inr (disk_rw b True s))"

definition unlink_buf :: "nat \<Rightarrow> 'a disk_state_scheme \<Rightarrow> 'a disk_state_scheme" where
  "unlink_buf b s =
     (let s = set_prev (b_next (bufs s b)) (b_prev (bufs s b)) s in
      set_next (b_prev (bufs s b)) (b_next (bufs s b)) s)"

definition brelse :: "nat \<Rightarrow> 'a disk_state_scheme \<Rightarrow> 'a disk_state_scheme res" where
  "brelse b s =
     (if \<not> holdingsleep (b_lock (bufs s b)) s then panic ''brelse''
      else case releasesleep (ChBufLock b) (b_lock (bufs s b)) s of (lk, s) \<Rightarrow>
        let s = upd_buf b (\<lambda>x. x\<lparr>b_lock := lk\<rparr>) s;
            s = upd_buf b (\<lambda>x. x\<lparr>b_refcnt := b_refcnt x - 1\<rparr>) s in
        Inr (if b_refcnt (bufs s b) = 0 then push_front b (unlink_buf b s) else s))"

definition bpin :: "nat \<Rightarrow> 'a disk_state_scheme \<Rightarrow> 'a disk_state_scheme" where
  "bpin b s = upd_buf b (\<lambda>x. x\<lparr>b_refcnt := b_refcnt x + 1\<rparr>) s"

definition bunpin :: "nat \<Rightarrow> 'a disk_state_scheme \<Rightarrow> 'a disk_state_scheme" where
  "bunpin b s = upd_buf b (\<lambda>x. x\<lparr>b_refcnt := b_refcnt x - 1\<rparr>) s"

text \<open>The caller's changes to the contents of a buffer it holds.\<close>

definition set_data :: "nat \<Rightarrow> byte list \<Rightarrow> 'a disk_state_scheme \<Rightarrow> 'a disk_state_scheme" where
  "set_data b bs = upd_buf b (\<lambda>x. x\<lparr>b_data := bs\<rparr>)"

section \<open>The list\<close>

fun links :: "(nat \<Rightarrow> buf) \<Rightarrow> nat list \<Rightarrow> bool" where
  "links B (x # y # ys) \<longleftrightarrow> b_next (B x) = y \<and> b_prev (B y) = x \<and> links B (y # ys)"
| "links B _ \<longleftrightarrow> True"

text \<open>\<open>lru B xs\<close>: the buffers \<open>xs\<close>, most recently used first, form the circular list.\<close>

definition lru :: "(nat \<Rightarrow> buf) \<Rightarrow> nat list \<Rightarrow> bool" where
  "lru B xs \<longleftrightarrow> links B (NBUF # xs @ [NBUF]) \<and> distinct xs \<and> set xs \<subseteq> {..<NBUF}"

lemma links_append: "links B (xs @ x # ys) \<longleftrightarrow> links B (xs @ [x]) \<and> links B (x # ys)"
  by (induction B xs rule: links.induct) (auto simp: neq_Nil_conv elim: links.elims split: list.splits)

lemma links_cong:
  assumes "\<And>x. x \<in> set (butlast ys) \<Longrightarrow> b_next (B' x) = b_next (B x)"
    and "\<And>x. x \<in> set (tl ys) \<Longrightarrow> b_prev (B' x) = b_prev (B x)"
  shows "links B' ys \<longleftrightarrow> links B ys"
  using assms
proof (induction B ys rule: links.induct)
  case (1 B x y ys)
  have "links B' (y # ys) \<longleftrightarrow> links B (y # ys)"
    by (rule "1.IH") (use "1.prems" in \<open>auto dest: list.set_sel(2)\<close>)
  then show ?case using "1.prems"(1) [of x] "1.prems"(2) [of y] by simp
qed auto

lemma bufs_set [simp]:
  "bufs (set_next b c s) = (bufs s)(b := (bufs s b)\<lparr>b_next := c\<rparr>)"
  "bufs (set_prev b c s) = (bufs s)(b := (bufs s b)\<lparr>b_prev := c\<rparr>)"
  by (simp_all add: set_next_def set_prev_def)

lemma push_front_lru:
  assumes "lru (bufs s) xs" "b < NBUF" "b \<notin> set xs"
  shows "lru (bufs (push_front b s)) (b # xs)"
proof -
  let ?B = "bufs (push_front b s)"
  obtain h ys where hy: "xs @ [NBUF] = h # ys" by (cases "xs @ [NBUF]") auto
  have xs: "distinct xs" "set xs \<subseteq> {..<NBUF}" "links (bufs s) (NBUF # h # ys)"
    using assms(1) hy by (simp_all add: lru_def)
  have h: "b_next (bufs s NBUF) = h" using xs(3) by simp
  have hb: "h \<noteq> b" using hy assms(2,3) by (cases xs) auto
  have "links ?B (h # ys) \<longleftrightarrow> links (bufs s) (h # ys)"
  proof (rule links_cong)
    fix x assume x: "x \<in> set (butlast (h # ys))"
    then have "x \<in> set xs" by (simp add: hy [symmetric])
    then have "x \<noteq> b" "x \<noteq> NBUF" using assms(3) xs(2) by auto
    then show "b_next (?B x) = b_next (bufs s x)" by (simp add: push_front_def Let_def)
  next
    fix x assume x: "x \<in> set (tl (h # ys))"
    then have "x \<noteq> b" using hy assms(2,3) by (cases xs) auto
    moreover have "x \<noteq> h" using hy x xs(1,2) by (cases xs) auto
    ultimately show "b_prev (?B x) = b_prev (bufs s x)" using h assms(2) by (simp add: push_front_def Let_def)
  qed
  moreover have "b_next (?B NBUF) = b" "b_prev (?B b) = NBUF" "b_next (?B b) = h" "b_prev (?B h) = b"
    using h hb assms(2) by (auto simp: push_front_def Let_def)
  ultimately have "links ?B (NBUF # b # h # ys)" using xs(3) by simp
  then show ?thesis using assms(2,3) xs(1,2) by (simp add: lru_def hy)
qed

lemma unlink_lru:
  assumes "lru (bufs s) (us @ b # vs)"
  shows "lru (bufs (unlink_buf b s)) (us @ vs)"
proof -
  let ?B = "bufs (unlink_buf b s)"
  define ps p where "ps = butlast (NBUF # us)" and "p = last (NBUF # us)"
  have psp: "NBUF # us = ps @ [p]" by (simp add: ps_def p_def)
  obtain n ns where nn: "vs @ [NBUF] = n # ns" by (cases "vs @ [NBUF]") auto
  have d: "distinct (us @ b # vs)" "set (us @ b # vs) \<subseteq> {..<NBUF}" using assms by (simp_all add: lru_def)
  have "NBUF # (us @ b # vs) @ [NBUF] = ps @ p # b # n # ns" using psp nn by (metis append.assoc append_Cons append_Nil)
  then have l: "links (bufs s) (ps @ p # b # n # ns)" using assms by (simp add: lru_def)
  have l1: "links (bufs s) (ps @ [p])" "links (bufs s) (n # ns)"
    and pb: "b_prev (bufs s b) = p" and bn: "b_next (bufs s b) = n"
    using l by (simp_all add: links_append [of _ ps p "b # n # ns"])
  have pm: "p \<in> insert NBUF (set us)" using psp by (metis in_set_conv_decomp list.set(2))
  have nm: "n \<in> insert NBUF (set vs)" using nn by (cases vs) auto
  have bne: "b \<noteq> p" "b \<noteq> n" using d pm nm by auto
  have nx: "b_next (?B x) = (if x = p then n else b_next (bufs s x))" for x
    using bne pb bn by (simp add: unlink_buf_def Let_def)
  have pv: "b_prev (?B x) = (if x = n then p else b_prev (bufs s x))" for x
    using bne pb bn by (simp add: unlink_buf_def Let_def)
  have "links ?B (ps @ [p]) \<longleftrightarrow> links (bufs s) (ps @ [p])"
  proof (rule links_cong)
    fix x assume "x \<in> set (butlast (ps @ [p]))"
    then have "x \<in> set ps" by simp
    moreover have "distinct (ps @ [p])" using d by (simp add: psp [symmetric]) blast
    ultimately show "b_next (?B x) = b_next (bufs s x)" by (auto simp: nx)
  next
    fix x assume "x \<in> set (tl (ps @ [p]))"
    then have "x \<in> set us" by (simp add: psp [symmetric])
    then have "x \<noteq> n" using nm d by auto
    then show "b_prev (?B x) = b_prev (bufs s x)" by (simp add: pv)
  qed
  moreover have "links ?B (n # ns) \<longleftrightarrow> links (bufs s) (n # ns)"
  proof (rule links_cong)
    fix x assume "x \<in> set (butlast (n # ns))"
    then have "x \<in> set vs" by (simp add: nn [symmetric])
    then have "x \<noteq> p" using pm d by auto
    then show "b_next (?B x) = b_next (bufs s x)" by (simp add: nx)
  next
    fix x assume "x \<in> set (tl (n # ns))"
    then have "x \<noteq> n" using nn d by (cases vs) auto
    then show "b_prev (?B x) = b_prev (bufs s x)" by (simp add: pv)
  qed
  moreover have "b_next (?B p) = n" "b_prev (?B n) = p" by (simp_all add: nx pv)
  ultimately have "links ?B (ps @ p # n # ns)" using l1 by (simp add: links_append [of _ ps p "n # ns"])
  moreover have "NBUF # (us @ vs) @ [NBUF] = ps @ p # n # ns" using psp nn by (metis append.assoc append_Cons append_Nil)
  ultimately show ?thesis using d by (simp add: lru_def)
qed

lemma lru_cong:
  "(\<And>b. b_next (B' b) = b_next (B b)) \<Longrightarrow> (\<And>b. b_prev (B' b) = b_prev (B b)) \<Longrightarrow> lru B' xs \<longleftrightarrow> lru B xs"
  using links_cong [of _ B' B] by (simp add: lru_def)

text \<open>The two walks of \<open>bget\<close> are searches of the list, and never run out of hops.\<close>

lemma bget_cached_find:
  assumes "links (bufs s) (x # ys @ [NBUF])" "set ys \<subseteq> {..<NBUF}" "length ys < n"
  shows "bget_cached n (b_next (bufs s x)) dev k s =
    Inr (find (\<lambda>b. b_dev (bufs s b) = dev \<and> b_blockno (bufs s b) = k) ys)"
  using assms
proof (induction ys arbitrary: x n)
  case Nil
  then show ?case by (cases n) auto
next
  case (Cons y ys)
  then obtain m where n: "n = Suc m" by (cases n) auto
  have "b_next (bufs s x) = y" "y \<noteq> NBUF" "links (bufs s) (y # ys @ [NBUF])" using Cons.prems by auto
  then show ?case using Cons.IH [of y m] Cons.prems n by simp
qed

lemma bget_lru_find:
  assumes "links (bufs s) ([NBUF] @ ys @ [x])" "set ys \<subseteq> {..<NBUF}" "length ys < n"
  shows "bget_lru n (b_prev (bufs s x)) s = Inr (find (\<lambda>b. b_refcnt (bufs s b) = 0) (rev ys))"
  using assms
proof (induction ys arbitrary: x n rule: rev_induct)
  case Nil
  then show ?case by (cases n) auto
next
  case (snoc y ys)
  then obtain m where n: "n = Suc m" by (cases n) auto
  have "links (bufs s) ([NBUF] @ ys @ [y])" "b_prev (bufs s x) = y" "y \<noteq> NBUF"
    using snoc.prems links_append [of "bufs s" "NBUF # ys" y "[x]"] by auto
  then show ?case using snoc.IH [of y m] snoc.prems n by simp
qed

section \<open>The invariant and the abstract cache\<close>

definition ROOTDEV :: u32 where "ROOTDEV = 1"

definition list_ok :: "(nat \<Rightarrow> buf) \<Rightarrow> bool" where
  "list_ok B \<longleftrightarrow> (\<exists>xs. lru B xs \<and> set xs = {..<NBUF})"

text \<open>No block is cached twice; buffers never used since power-on have device number 0.\<close>

definition uniq_ok :: "(nat \<Rightarrow> buf) \<Rightarrow> bool" where
  "uniq_ok B \<longleftrightarrow> (\<forall>b < NBUF. \<forall>c < NBUF. b_dev (B b) = ROOTDEV \<longrightarrow> b_dev (B c) = ROOTDEV \<longrightarrow>
     b_blockno (B b) = b_blockno (B c) \<longrightarrow> b = c)"

text \<open>
  A buffer in use is valid and belongs to the disk; one not in use is unlocked and, if valid,
  holds what the disk holds, so that it can be given away.
\<close>

definition buf_ok :: "(u32 \<Rightarrow> byte list) \<Rightarrow> buf \<Rightarrow> bool" where
  "buf_ok D x \<longleftrightarrow> length (b_data x) = BSIZE \<and> \<not> b_disk x \<and>
     (if b_refcnt x = 0
      then \<not> sl_locked (b_lock x) \<and> (b_valid x \<longrightarrow> b_dev x = ROOTDEV \<longrightarrow> b_data x = D (b_blockno x))
      else b_valid x \<and> b_dev x = ROOTDEV)"

definition bc_ok :: "'a disk_state_scheme \<Rightarrow> bool" where
  "bc_ok s \<longleftrightarrow> list_ok (bufs s) \<and> uniq_ok (bufs s) \<and> (\<forall>b < NBUF. buf_ok (disk s) (bufs s b)) \<and>
     (\<forall>n. length (disk s n) = BSIZE)"

text \<open>The buffer of a block; its references, its owner, its contents.\<close>

definition slot :: "'a disk_state_scheme \<Rightarrow> u32 \<Rightarrow> nat option" where
  "slot s n = find (\<lambda>b. b_dev (bufs s b) = ROOTDEV \<and> b_blockno (bufs s b) = n) [0..<NBUF]"

definition rc :: "'a disk_state_scheme \<Rightarrow> u32 \<Rightarrow> nat" where
  "rc s n = (case slot s n of None \<Rightarrow> 0 | Some b \<Rightarrow> unat (b_refcnt (bufs s b)))"

definition own :: "'a disk_state_scheme \<Rightarrow> u32 \<Rightarrow> int option" where
  "own s n = (case slot s n of None \<Rightarrow> None
     | Some b \<Rightarrow> if sl_locked (b_lock (bufs s b)) then Some (sl_pid (b_lock (bufs s b))) else None)"

definition blk :: "'a disk_state_scheme \<Rightarrow> u32 \<Rightarrow> byte list" where
  "blk s n = (case slot s n of None \<Rightarrow> disk s n
     | Some b \<Rightarrow> if b_refcnt (bufs s b) = 0 then disk s n else b_data (bufs s b))"

definition in_use :: "'a disk_state_scheme \<Rightarrow> u32 set" where
  "in_use s = {n. rc s n > 0}"

lemma slot_Some:
  assumes "slot s n = Some b"
  shows "b < NBUF" "b_dev (bufs s b) = ROOTDEV" "b_blockno (bufs s b) = n"
  using assms by (auto simp: slot_def find_Some_iff)

lemma slot_None: "slot s n = None \<longleftrightarrow> \<not> (\<exists>b < NBUF. b_dev (bufs s b) = ROOTDEV \<and> b_blockno (bufs s b) = n)"
  by (auto simp: slot_def find_None_iff)

lemma find_SomeD: "find P xs = Some x \<Longrightarrow> x \<in> set xs \<and> P x"
  by (metis find_Some_iff nth_mem)

lemma find_uniq:
  assumes "x \<in> set xs" "P x" "\<And>y. y \<in> set xs \<Longrightarrow> P y \<Longrightarrow> y = x"
  shows "find P xs = Some x"
proof (cases "find P xs")
  case None
  then show ?thesis using assms(1,2) by (auto simp: find_None_iff)
next
  case (Some y)
  then have "y \<in> set xs" "P y" by (auto simp: find_Some_iff)
  then show ?thesis using assms(3) Some by blast
qed

lemma slotI:
  assumes "uniq_ok (bufs s)" "b < NBUF" "b_dev (bufs s b) = ROOTDEV" "b_blockno (bufs s b) = n"
  shows "slot s n = Some b"
  unfolding slot_def using assms by (intro find_uniq) (auto simp: uniq_ok_def)

text \<open>Only the device and block numbers decide which buffer is a block's.\<close>

lemma slot_cong:
  assumes "\<And>b. b < NBUF \<Longrightarrow> b_dev (bufs s' b) = b_dev (bufs s b)"
    and "\<And>b. b < NBUF \<Longrightarrow> b_blockno (bufs s' b) = b_blockno (bufs s b)"
  shows "slot s' n = slot s n"
  unfolding slot_def using assms by (intro find_cong) auto

lemma view_cong:
  assumes "bufs s' = bufs s" "disk s' = disk s"
  shows "bc_ok s' = bc_ok s" "blk s' = blk s" "rc s' = rc s" "own s' = own s" "slot s' = slot s" "in_use s' = in_use s"
proof -
  show sl: "slot s' = slot s" unfolding fun_eq_iff slot_def assms(1) by simp
  show "bc_ok s' = bc_ok s" unfolding bc_ok_def assms ..
  show "blk s' = blk s" unfolding fun_eq_iff blk_def sl assms by simp
  show rc: "rc s' = rc s" unfolding fun_eq_iff rc_def sl assms by simp
  show "own s' = own s" unfolding fun_eq_iff own_def sl assms by simp
  show "in_use s' = in_use s" unfolding in_use_def rc ..
qed

lemma in_use_inj: "bc_ok s \<Longrightarrow> in_use s = (\<lambda>b. b_blockno (bufs s b)) ` {b. b < NBUF \<and> b_refcnt (bufs s b) \<noteq> 0}"
proof (intro set_eqI iffI)
  fix n assume "n \<in> in_use s"
  then obtain b where b: "slot s n = Some b" "b_refcnt (bufs s b) \<noteq> 0"
    by (auto simp: in_use_def rc_def unat_gt_0 split: option.splits)
  with slot_Some [OF b(1)] show "n \<in> (\<lambda>b. b_blockno (bufs s b)) ` {b. b < NBUF \<and> b_refcnt (bufs s b) \<noteq> 0}"
    by (intro image_eqI [of _ _ b]) auto
next
  fix n assume ok: "bc_ok s" and "n \<in> (\<lambda>b. b_blockno (bufs s b)) ` {b. b < NBUF \<and> b_refcnt (bufs s b) \<noteq> 0}"
  then obtain b where b: "b < NBUF" "b_refcnt (bufs s b) \<noteq> 0" "n = b_blockno (bufs s b)" by blast
  then have "buf_ok (disk s) (bufs s b)" using ok by (simp add: bc_ok_def)
  then have "slot s n = Some b" using b ok by (intro slotI) (auto simp: bc_ok_def buf_ok_def)
  then show "n \<in> in_use s" using b by (simp add: in_use_def rc_def unat_gt_0)
qed

lemma free_buffer:
  assumes "bc_ok s" "card (in_use s) < NBUF"
  shows "\<exists>b < NBUF. b_refcnt (bufs s b) = 0"
proof (rule ccontr)
  assume "\<not> ?thesis"
  then have all: "{b. b < NBUF \<and> b_refcnt (bufs s b) \<noteq> 0} = {..<NBUF}" by auto
  have "inj_on (\<lambda>b. b_blockno (bufs s b)) {..<NBUF}"
  proof (rule inj_onI)
    fix b c assume b: "b \<in> {..<NBUF}" "c \<in> {..<NBUF}" "b_blockno (bufs s b) = b_blockno (bufs s c)"
    then have "b_refcnt (bufs s b) \<noteq> 0" "b_refcnt (bufs s c) \<noteq> 0" using all by auto
    moreover have "buf_ok (disk s) (bufs s b)" "buf_ok (disk s) (bufs s c)" using assms(1) b by (auto simp: bc_ok_def)
    ultimately show "b = c" using assms(1) b by (auto simp: bc_ok_def uniq_ok_def buf_ok_def)
  qed
  then have "card (in_use s) = NBUF" using in_use_inj [OF assms(1)] all by (simp add: card_image)
  with assms(2) show False by simp
qed

text \<open>Replacing one buffer: the block's own, or a free one when the block has none.\<close>

definition installs :: "'a disk_state_scheme \<Rightarrow> nat \<Rightarrow> buf \<Rightarrow> u32 \<Rightarrow> bool" where
  "installs s b x n \<longleftrightarrow> bc_ok s \<and> b < NBUF \<and> b_dev x = ROOTDEV \<and> b_blockno x = n \<and>
     b_next x = b_next (bufs s b) \<and> b_prev x = b_prev (bufs s b) \<and> buf_ok (disk s) x \<and>
     (slot s n = Some b \<or> slot s n = None \<and> b_refcnt (bufs s b) = 0)"

abbreviation put :: "'a disk_state_scheme \<Rightarrow> nat \<Rightarrow> buf \<Rightarrow> 'a disk_state_scheme" where
  "put s b x \<equiv> s\<lparr>bufs := (bufs s)(b := x)\<rparr>"

lemma installsD:
  assumes "installs s b x n"
  shows "bc_ok s" "b < NBUF" "b_dev x = ROOTDEV" "b_blockno x = n" "buf_ok (disk s) x"
    "slot s n = Some b \<or> slot s n = None \<and> b_refcnt (bufs s b) = 0"
    "b_next x = b_next (bufs s b)" "b_prev x = b_prev (bufs s b)" "uniq_ok (bufs s)"
  using assms by (auto simp: installs_def bc_ok_def)

lemma installs_uniq:
  assumes i: "installs s b x n"
  shows "uniq_ok (bufs (put s b x))"
proof -
  note u = installsD(9) [OF i] and src = installsD(6) [OF i] and key = installsD(3,4) [OF i]
  have other: "c = b" if "c < NBUF" "b_dev (bufs s c) = ROOTDEV" "b_blockno (bufs s c) = n" for c
    using slotI [OF u that] src by simp
  show ?thesis unfolding uniq_ok_def
  proof (intro allI impI)
    fix c d assume cd: "c < NBUF" "d < NBUF" "b_dev (bufs (put s b x) c) = ROOTDEV" "b_dev (bufs (put s b x) d) = ROOTDEV"
      "b_blockno (bufs (put s b x) c) = b_blockno (bufs (put s b x) d)"
    show "c = d"
    proof (cases "c = b")
      case True
      have "d = b" if d: "d \<noteq> b"
      proof (rule other [OF cd(2)])
        show "b_dev (bufs s d) = ROOTDEV" using cd(4) d by simp
        show "b_blockno (bufs s d) = n" using cd(5) d True key(2) by simp
      qed
      with True show ?thesis by blast
    next
      case cb: False
      show ?thesis
      proof (cases "d = b")
        case True
        have "c = b"
        proof (rule other [OF cd(1)])
          show "b_dev (bufs s c) = ROOTDEV" using cd(3) cb by simp
          show "b_blockno (bufs s c) = n" using cd(5) cb True key(2) by simp
        qed
        with cb show ?thesis by blast
      next
        case False
        then show ?thesis using cd cb u unfolding uniq_ok_def by simp
      qed
    qed
  qed
qed

lemma installs_ok:
  assumes i: "installs s b x n"
  shows "bc_ok (put s b x)"
proof -
  have "list_ok (bufs (put s b x)) \<longleftrightarrow> list_ok (bufs s)"
    unfolding list_ok_def using lru_cong [of "bufs (put s b x)" "bufs s"] installsD(7,8) [OF i] by simp
  then show ?thesis using installsD(1,2,5) [OF i] installs_uniq [OF i] by (auto simp: bc_ok_def)
qed

lemma installs_slot:
  assumes i: "installs s b x n"
  shows "slot (put s b x) n = Some b"
  using installs_uniq [OF i] installsD(2-4) [OF i] by (intro slotI) auto

lemma installs_slot_other:
  assumes i: "installs s b x n" and mn: "m \<noteq> n"
  shows "slot (put s b x) m = (if slot s m = Some b then None else slot s m)"
proof (cases "slot (put s b x) m")
  case None
  have False if "slot s m = Some c" "c \<noteq> b" for c
  proof -
    have "\<not> (c < NBUF \<and> b_dev (bufs (put s b x) c) = ROOTDEV \<and> b_blockno (bufs (put s b x) c) = m)"
      using None slot_None by blast
    then show False using slot_Some [OF that(1)] that(2) by simp
  qed
  with None show ?thesis by (cases "slot s m") auto
next
  case (Some c)
  then have "c < NBUF" "c \<noteq> b" "b_dev (bufs s c) = ROOTDEV" "b_blockno (bufs s c) = m"
    using slot_Some [OF Some] mn installsD(4) [OF i] by (auto split: if_splits)
  then have "slot s m = Some c" using installsD(9) [OF i] by (intro slotI) auto
  with Some \<open>c \<noteq> b\<close> show ?thesis by simp
qed

lemma installs_other:
  assumes i: "installs s b x n" and mn: "m \<noteq> n"
  shows "rc (put s b x) m = rc s m" "own (put s b x) m = own s m" "blk (put s b x) m = blk s m"
proof -
  have free: "b_refcnt (bufs s b) = 0" if "slot s m = Some b"
    using that installsD(6) [OF i] mn slot_Some(3) [of s n b] slot_Some(3) [of s m b] by auto
  have "buf_ok (disk s) (bufs s b)" using installsD(1,2) [OF i] by (simp add: bc_ok_def)
  then have unl: "\<not> sl_locked (b_lock (bufs s b))" if "slot s m = Some b" using free [OF that] by (simp add: buf_ok_def)
  note so = installs_slot_other [OF i mn]
  show "rc (put s b x) m = rc s m" "own (put s b x) m = own s m" "blk (put s b x) m = blk s m"
    unfolding rc_def own_def blk_def so using free unl by (auto split: option.splits)
qed

lemma installs_views:
  assumes i: "installs s b x n"
  shows "rc (put s b x) = (rc s)(n := unat (b_refcnt x))"
    "own (put s b x) = (own s)(n := if sl_locked (b_lock x) then Some (sl_pid (b_lock x)) else None)"
    "blk (put s b x) = (blk s)(n := if b_refcnt x = 0 then disk s n else b_data x)"
proof -
  have "rc (put s b x) m = ((rc s)(n := unat (b_refcnt x))) m" for m
    by (cases "m = n") (simp add: installs_slot [OF i] rc_def, simp add: installs_other [OF i])
  then show "rc (put s b x) = (rc s)(n := unat (b_refcnt x))" ..
  have "own (put s b x) m = ((own s)(n := if sl_locked (b_lock x) then Some (sl_pid (b_lock x)) else None)) m" for m
    by (cases "m = n") (simp add: installs_slot [OF i] own_def, simp add: installs_other [OF i])
  then show "own (put s b x) = (own s)(n := if sl_locked (b_lock x) then Some (sl_pid (b_lock x)) else None)" ..
  have "blk (put s b x) m = ((blk s)(n := if b_refcnt x = 0 then disk s n else b_data x)) m" for m
    by (cases "m = n") (simp add: installs_slot [OF i] blk_def, simp add: installs_other [OF i])
  then show "blk (put s b x) = (blk s)(n := if b_refcnt x = 0 then disk s n else b_data x)" ..
qed

section \<open>What the routines do to the blocks\<close>

abbreviation mypid :: "'a disk_state_scheme \<Rightarrow> int" where "mypid s \<equiv> p_pid (mp s)"

lemma lru_length: "lru B xs \<Longrightarrow> set xs = {..<NBUF} \<Longrightarrow> length xs = NBUF"
  using distinct_card [of xs] by (simp add: lru_def)

lemma bget_search:
  assumes "bc_ok s"
  shows "bget_cached (Suc NBUF) (b_next (bufs s NBUF)) ROOTDEV n s = Inr (slot s n)"
proof -
  obtain xs where xs: "lru (bufs s) xs" "set xs = {..<NBUF}" using assms by (auto simp: bc_ok_def list_ok_def)
  have "bget_cached (Suc NBUF) (b_next (bufs s NBUF)) ROOTDEV n s =
      Inr (find (\<lambda>b. b_dev (bufs s b) = ROOTDEV \<and> b_blockno (bufs s b) = n) xs)"
    by (rule bget_cached_find) (use xs lru_length [OF xs] in \<open>auto simp: lru_def\<close>)
  moreover have "find (\<lambda>b. b_dev (bufs s b) = ROOTDEV \<and> b_blockno (bufs s b) = n) xs = slot s n"
  proof (cases "slot s n")
    case None
    have "find (\<lambda>b. b_dev (bufs s b) = ROOTDEV \<and> b_blockno (bufs s b) = n) xs = None"
      unfolding find_None_iff xs(2) using None [unfolded slot_None] by auto
    then show ?thesis using None by simp
  next
    case (Some b)
    note b = slot_Some [OF Some]
    have uq: "y = b" if "y \<in> set xs" "b_dev (bufs s y) = ROOTDEV \<and> b_blockno (bufs s y) = n" for y
    proof -
      have "uniq_ok (bufs s)" "y < NBUF" using assms that(1) xs(2) by (simp_all add: bc_ok_def)
      then have "slot s n = Some y" using that(2) by (intro slotI) blast+
      then show "y = b" using Some by simp
    qed
    have "b \<in> set xs" using b(1) xs(2) by simp
    then show ?thesis unfolding Some by (rule find_uniq) (use b in blast, rule uq)
  qed
  ultimately show ?thesis by simp
qed

lemma bget_free:
  assumes "bc_ok s" "card (in_use s) < NBUF"
  obtains b where "b < NBUF" "b_refcnt (bufs s b) = 0"
    "bget_lru (Suc NBUF) (b_prev (bufs s NBUF)) s = Inr (Some b)"
proof -
  obtain xs where xs: "lru (bufs s) xs" "set xs = {..<NBUF}" using assms(1) by (auto simp: bc_ok_def list_ok_def)
  have f: "bget_lru (Suc NBUF) (b_prev (bufs s NBUF)) s = Inr (find (\<lambda>b. b_refcnt (bufs s b) = 0) (rev xs))"
    by (rule bget_lru_find) (use xs lru_length [OF xs] in \<open>auto simp: lru_def\<close>)
  obtain c where "c < NBUF" "b_refcnt (bufs s c) = 0" using free_buffer [OF assms] by blast
  then have "find (\<lambda>b. b_refcnt (bufs s b) = 0) (rev xs) \<noteq> None" using xs(2) by (auto simp: find_None_iff)
  then obtain b where b: "find (\<lambda>b. b_refcnt (bufs s b) = 0) (rev xs) = Some b" by blast
  then have "b \<in> set (rev xs)" "b_refcnt (bufs s b) = 0" using find_SomeD by fast+
  then show thesis using that [of b] b f xs(2) by simp
qed

lemma bread_installs:
  assumes ok: "bc_ok s" and free: "own s n = None" and room: "rc s n > 0 \<or> card (in_use s) < NBUF"
  shows "\<exists>b x. bread ROOTDEV n s = Inr (b, put s b x) \<and>
    (rc s n + 1 < 2 ^ 32 \<longrightarrow> installs s b x n \<and> unat (b_refcnt x) = rc s n + 1 \<and> b_data x = blk s n) \<and>
    b_lock x = \<lparr>sl_locked = True, sl_pid = mypid s\<rparr>"
proof (cases "slot s n")
  case (Some b)
  note b = slot_Some [OF Some]
  let ?x = "bufs s b"
  have bok: "buf_ok (disk s) ?x" "length (disk s n) = BSIZE" using ok b(1) by (auto simp: bc_ok_def)
  have unl: "\<not> sl_locked (b_lock ?x)" using free Some by (simp add: own_def split: if_splits)
  define x where "x = ?x\<lparr>b_refcnt := b_refcnt ?x + 1, b_lock := \<lparr>sl_locked = True, sl_pid = mypid s\<rparr>,
    b_valid := True, b_data := (if b_valid ?x then b_data ?x else disk s n)\<rparr>"
  have "bread ROOTDEV n s = Inr (b, put s b x)"
    using bget_search [OF ok, of n] Some unl b(3)
    by (cases "b_lock ?x", cases ?x) (auto simp: bread_def bget_def block_acquire_def acquiresleep_def x_def disk_rw_def
        Let_def upd_buf_def mp_def myproc_def)
  moreover have "unat (b_refcnt x) = rc s n + 1" if "rc s n + 1 < 2 ^ 32"
    using that Some by (simp add: x_def rc_def unat_word_ariths)
  moreover have "installs s b x n" if "rc s n + 1 < 2 ^ 32"
  proof -
    have "b_refcnt x \<noteq> 0" using that Some by (auto simp: x_def rc_def unat_eq_0 [symmetric] unat_word_ariths)
    then show ?thesis using ok b bok Some by (auto simp: installs_def buf_ok_def x_def)
  qed
  moreover have "b_data x = blk s n"
    using Some bok(1) b by (auto simp: x_def blk_def buf_ok_def split: if_splits)
  moreover have "b_lock x = \<lparr>sl_locked = True, sl_pid = mypid s\<rparr>" by (simp add: x_def)
  ultimately show ?thesis by blast
next
  case None
  then have "rc s n = 0" by (simp add: rc_def)
  then obtain b where b: "b < NBUF" "b_refcnt (bufs s b) = 0"
      "bget_lru (Suc NBUF) (b_prev (bufs s NBUF)) s = Inr (Some b)"
    using bget_free [OF ok] room by auto
  let ?x = "bufs s b"
  have bok: "buf_ok (disk s) ?x" "length (disk s n) = BSIZE" using ok b(1) by (auto simp: bc_ok_def)
  then have unl: "\<not> sl_locked (b_lock ?x)" using b(2) by (simp add: buf_ok_def)
  define x where "x = ?x\<lparr>b_dev := ROOTDEV, b_blockno := n, b_refcnt := 1,
    b_lock := \<lparr>sl_locked = True, sl_pid = mypid s\<rparr>, b_valid := True, b_data := disk s n\<rparr>"
  have "bread ROOTDEV n s = Inr (b, put s b x)"
    using bget_search [OF ok, of n] None unl b(3)
    by (cases "b_lock ?x", cases ?x) (auto simp: bread_def bget_def block_acquire_def acquiresleep_def x_def disk_rw_def
        Let_def upd_buf_def mp_def myproc_def)
  moreover have "installs s b x n" using ok b bok None by (auto simp: installs_def buf_ok_def x_def)
  moreover have "unat (b_refcnt x) = rc s n + 1" "b_data x = blk s n"
    using None \<open>rc s n = 0\<close> by (simp_all add: x_def blk_def)
  moreover have "b_lock x = \<lparr>sl_locked = True, sl_pid = mypid s\<rparr>" by (simp add: x_def)
  ultimately show ?thesis by blast
qed

lemma installs_slot_kept:
  assumes i: "installs s b x n" and r: "rc s k > 0"
  shows "slot (put s b x) k = slot s k"
proof (cases "k = n")
  case True
  obtain c where c: "slot s k = Some c" using r by (auto simp: rc_def split: option.splits)
  then have "c = b" using True installsD(6) [OF i] by auto
  then show ?thesis using c True installs_slot [OF i] by simp
next
  case False
  have "slot s k \<noteq> Some b"
  proof
    assume k: "slot s k = Some b"
    then have "b_refcnt (bufs s b) \<noteq> 0" using r by (auto simp: rc_def)
    then have "slot s n = Some b" using installsD(6) [OF i] by simp
    then show False using slot_Some(3) [OF k] slot_Some(3) [of s n b] False by simp
  qed
  then show ?thesis using installs_slot_other [OF i False] by simp
qed

lemma installs_same_slot:
  assumes i: "installs s b x n" and r: "slot s n = Some b"
  shows "slot (put s b x) = slot s"
proof
  fix k
  show "slot (put s b x) k = slot s k"
  proof (cases "k = n")
    case False
    then have "slot s k \<noteq> Some b" using slot_Some(3) [of s k b] slot_Some(3) [OF r] by auto
    then show ?thesis using installs_slot_other [OF i False] by simp
  qed (use installs_slot [OF i] r in simp)
qed

text \<open>
  The routines touch nothing but the buffers and the disk, and of the process table only what
  \<open>wakeup\<close> changes.
\<close>

definition woke :: "nat option \<Rightarrow> nat \<Rightarrow> proc \<Rightarrow> proc \<Rightarrow> bool" where
  "woke cur i p q \<longleftrightarrow> q = p \<or> cur \<noteq> Some i \<and> p_state p = SLEEPING \<and> q = p\<lparr>p_state := RUNNABLE\<rparr>"

definition io_step :: "'a disk_state_scheme \<Rightarrow> 'a disk_state_scheme \<Rightarrow> bool" where
  "io_step s s' \<longleftrightarrow> s' = s\<lparr>procs := procs s', bufs := bufs s', disk := disk s', dwrites := dwrites s'\<rparr> \<and>
     (\<forall>i. woke (curproc s) i (procs s i) (procs s' i))"

lemma woke_refl [simp]: "woke c i p p"
  by (simp add: woke_def)

lemma woke_trans: "woke c i p q \<Longrightarrow> woke c i q r \<Longrightarrow> woke c i p r"
  by (auto simp: woke_def)

lemma woke_woken [simp]: "woke c i p (woken ch c i p)"
  by (simp add: woke_def woken_def)

lemma woke_pid: "woke c i p q \<Longrightarrow> p_pid q = p_pid p"
  by (auto simp: woke_def)

lemma io_step_refl [simp]: "io_step s s"
  by (simp add: io_step_def)

lemma io_stepI:
  assumes "s' = s\<lparr>procs := P, bufs := B, disk := D, dwrites := W\<rparr>" "\<And>i. woke (curproc s) i (procs s i) (P i)"
  shows "io_step s s'"
  using assms by (simp add: io_step_def)

lemma io_stepD:
  assumes "io_step s s'"
  shows "curproc s' = curproc s" "disk_state.more s' = disk_state.more s" "pmem s' = pmem s" "vdk s' = vdk s"
    "mypid s' = mypid s" "myproc s' = myproc s" "freelist s' = freelist s"
    "woke (curproc s) i (procs s i) (procs s' i)"
proof -
  have e: "s' = s\<lparr>procs := procs s', bufs := bufs s', disk := disk s', dwrites := dwrites s'\<rparr>"
    and w: "\<And>i. woke (curproc s) i (procs s i) (procs s' i)"
    using assms by (simp_all add: io_step_def)
  show c: "curproc s' = curproc s" "disk_state.more s' = disk_state.more s" "pmem s' = pmem s" "vdk s' = vdk s"
      "freelist s' = freelist s"
    by (subst e, simp)+
  show "myproc s' = myproc s" using c(1) by (simp add: myproc_def)
  then show "mypid s' = mypid s" using woke_pid [OF w] by (simp add: mp_def)
  show "woke (curproc s) i (procs s i) (procs s' i)" by (rule w)
qed

lemma io_step_trans:
  assumes "io_step s t" "io_step t u"
  shows "io_step s u"
proof -
  have w: "woke (curproc s) i (procs s i) (procs u i)" for i
    using io_stepD(8) [OF assms(1)] io_stepD(8) [OF assms(2)] io_stepD(1) [OF assms(1)] woke_trans by metis
  have "t = s\<lparr>procs := procs t, bufs := bufs t, disk := disk t, dwrites := dwrites t\<rparr>"
    "u = t\<lparr>procs := procs u, bufs := bufs u, disk := disk u, dwrites := dwrites u\<rparr>"
    using assms by (simp_all add: io_step_def)
  then have "u = s\<lparr>procs := procs u, bufs := bufs u, disk := disk u, dwrites := dwrites u\<rparr>"
    by (cases s, cases t, cases u) simp
  with w show ?thesis by (simp add: io_step_def)
qed

lemma io_step_put: "io_step s (put s b x)"
  by (rule io_stepI [where P = "procs s" and D = "disk s" and W = "dwrites s" and B = "(bufs s)(b := x)"]) simp_all

lemma bread_spec:
  assumes "bc_ok s" "own s n = None" "rc s n > 0 \<or> card (in_use s) < NBUF" "rc s n + 1 < 2 ^ 32"
  obtains b s' where "bread ROOTDEV n s = Inr (b, s')" "bc_ok s'" "slot s' n = Some b"
    "b_data (bufs s' b) = blk s n" "blk s' = blk s" "rc s' = (rc s)(n := rc s n + 1)"
    "own s' = (own s)(n := Some (mypid s))" "disk s' = disk s" "dwrites s' = dwrites s" "io_step s s'"
    "\<And>k. rc s k > 0 \<Longrightarrow> slot s' k = slot s k"
proof -
  obtain b x where r: "bread ROOTDEV n s = Inr (b, put s b x)" and i: "installs s b x n"
    and x: "unat (b_refcnt x) = rc s n + 1" "b_data x = blk s n" "b_lock x = \<lparr>sl_locked = True, sl_pid = mypid s\<rparr>"
    using bread_installs [OF assms(1-3)] assms(4) by blast
  have nz: "b_refcnt x \<noteq> 0" using x(1) by auto
  show thesis
  proof (rule that [OF r installs_ok [OF i] installs_slot [OF i]])
    show "blk (put s b x) = blk s" using installs_views(3) [OF i] nz x(2) by simp
    show "rc (put s b x) = (rc s)(n := rc s n + 1)" using installs_views(1) [OF i] x(1) by simp
    show "own (put s b x) = (own s)(n := Some (mypid s))" using installs_views(2) [OF i] x(3) by simp
    show "slot (put s b x) k = slot s k" if "rc s k > 0" for k by (rule installs_slot_kept [OF i that])
  qed (simp_all add: x(2) io_step_put)
qed

text \<open>What a caller knows of a buffer it holds.\<close>

definition holds :: "'a disk_state_scheme \<Rightarrow> nat \<Rightarrow> u32 \<Rightarrow> bool" where
  "holds s b n \<longleftrightarrow> bc_ok s \<and> slot s n = Some b \<and> own s n = Some (mypid s)"

lemma holdsD:
  assumes "holds s b n"
  shows "bc_ok s" "slot s n = Some b" "b < NBUF" "b_dev (bufs s b) = ROOTDEV" "b_blockno (bufs s b) = n"
    "buf_ok (disk s) (bufs s b)" "b_refcnt (bufs s b) \<noteq> 0" "holdingsleep (b_lock (bufs s b)) s"
    "blk s n = b_data (bufs s b)" "rc s n = unat (b_refcnt (bufs s b))" "b_valid (bufs s b)"
proof -
  show ok: "bc_ok s" and sl: "slot s n = Some b" using assms by (simp_all add: holds_def)
  show b: "b < NBUF" "b_dev (bufs s b) = ROOTDEV" "b_blockno (bufs s b) = n" using slot_Some [OF sl] by simp_all
  show k: "buf_ok (disk s) (bufs s b)" using ok b by (simp add: bc_ok_def)
  have l: "sl_locked (b_lock (bufs s b))" "sl_pid (b_lock (bufs s b)) = mypid s"
    using assms sl by (auto simp: holds_def own_def split: if_splits)
  show h: "holdingsleep (b_lock (bufs s b)) s" using l by (simp add: holdingsleep_def)
  show nz: "b_refcnt (bufs s b) \<noteq> 0" using k l by (auto simp: buf_ok_def split: if_splits)
  show "blk s n = b_data (bufs s b)" "rc s n = unat (b_refcnt (bufs s b))" using sl nz by (simp_all add: blk_def rc_def)
  show "b_valid (bufs s b)" using nz k by (simp add: buf_ok_def)
qed

lemma set_data_spec:
  assumes h: "holds s b n" and len: "length bs = BSIZE"
  shows "holds (set_data b bs s) b n" "blk (set_data b bs s) = (blk s)(n := bs)" "rc (set_data b bs s) = rc s"
    "own (set_data b bs s) = own s" "disk (set_data b bs s) = disk s" "dwrites (set_data b bs s) = dwrites s"
    "io_step s (set_data b bs s)"
    "slot (set_data b bs s) = slot s"
proof -
  note hd = holdsD [OF h]
  let ?x = "(bufs s b)\<lparr>b_data := bs\<rparr>"
  have e: "set_data b bs s = put s b ?x" by (simp add: set_data_def upd_buf_def)
  have i: "installs s b ?x n" using hd len by (auto simp: installs_def buf_ok_def)
  show "blk (set_data b bs s) = (blk s)(n := bs)" unfolding e using installs_views(3) [OF i] hd(7) by simp
  show "rc (set_data b bs s) = rc s" unfolding e using installs_views(1) [OF i] hd(10) by (simp add: fun_upd_idem)
  show o: "own (set_data b bs s) = own s"
    unfolding e using installs_views(2) [OF i] hd(2) by (auto simp: own_def fun_eq_iff)
  show "disk (set_data b bs s) = disk s" "dwrites (set_data b bs s) = dwrites s" "io_step s (set_data b bs s)"
    unfolding e by (simp_all add: io_step_put)
  show "slot (set_data b bs s) = slot s" unfolding e by (rule installs_same_slot [OF i hd(2)])
  have "mypid (set_data b bs s) = mypid s" unfolding e by (rule io_stepD [OF io_step_put])
  with h o show "holds (set_data b bs s) b n"
    unfolding holds_def by (simp add: e installs_ok [OF i] installs_slot [OF i])
qed

lemma bwrite_spec:
  assumes h: "holds s b n"
  shows "bwrite b s = Inr (disk_rw b True s)" "holds (disk_rw b True s) b n" "blk (disk_rw b True s) = blk s"
    "rc (disk_rw b True s) = rc s" "own (disk_rw b True s) = own s"
    "disk (disk_rw b True s) = (disk s)(n := blk s n)" "dwrites (disk_rw b True s) = dwrites s @ [(n, blk s n)]"
    "io_step s (disk_rw b True s)" "slot (disk_rw b True s) = slot s"
proof -
  note hd = holdsD [OF h]
  let ?s = "disk_rw b True s"
  show "bwrite b s = Inr ?s" using hd(8) by (simp add: bwrite_def)
  show d: "disk ?s = (disk s)(n := blk s n)" "dwrites ?s = dwrites s @ [(n, blk s n)]"
    using hd(5,9) by (simp_all add: disk_rw_def Let_def)
  have B: "bufs ?s = bufs s" by (simp add: disk_rw_def Let_def)
  have sl: "slot ?s m = slot s m" for m using B by (simp add: slot_def)
  then show "slot ?s = slot s" ..
  show "rc ?s = rc s" and o: "own ?s = own s" by (simp_all add: fun_eq_iff rc_def own_def sl B cong: option.case_cong if_cong)
  show "blk ?s = blk s" using hd(2,7,9) by (auto simp: fun_eq_iff blk_def sl B d split: option.splits)
  show io: "io_step s ?s"
    by (rule io_stepI [where P = "procs s" and D = "disk ?s" and W = "dwrites ?s" and B = "bufs s"])
      (simp_all add: disk_rw_def Let_def)
  have "buf_ok (disk ?s) (bufs s c)" if c: "c < NBUF" for c
  proof -
    have k: "buf_ok (disk s) (bufs s c)" "uniq_ok (bufs s)" using hd(1) c by (simp_all add: bc_ok_def)
    show ?thesis
    proof (cases "c = b")
      case True
      then show ?thesis using k hd(7) by (simp add: buf_ok_def)
    next
      case False
      have "b_blockno (bufs s c) \<noteq> n" if "b_dev (bufs s c) = ROOTDEV"
        using slotI [OF k(2) c that refl] hd(2) False by auto
      then show ?thesis using k(1) unfolding d by (simp add: buf_ok_def)
    qed
  qed
  moreover have "length (disk ?s m) = BSIZE" for m using hd(1,6,9) unfolding d by (simp add: bc_ok_def buf_ok_def)
  ultimately have "bc_ok ?s" using hd(1) B by (simp add: bc_ok_def)
  then show "holds ?s b n" using h o sl io_stepD(5) [OF io] by (simp add: holds_def)
qed

lemma bpin_spec:
  assumes h: "holds s b n" and r: "rc s n + 1 < 2 ^ 32"
  shows "holds (bpin b s) b n" "blk (bpin b s) = blk s" "rc (bpin b s) = (rc s)(n := rc s n + 1)"
    "own (bpin b s) = own s" "disk (bpin b s) = disk s" "dwrites (bpin b s) = dwrites s" "io_step s (bpin b s)"
    "slot (bpin b s) = slot s"
proof -
  note hd = holdsD [OF h]
  let ?x = "(bufs s b)\<lparr>b_refcnt := b_refcnt (bufs s b) + 1\<rparr>"
  have e: "bpin b s = put s b ?x" by (simp add: bpin_def upd_buf_def)
  have u: "unat (b_refcnt ?x) = rc s n + 1" using r hd(10) by (simp add: unat_word_ariths)
  then have nz: "b_refcnt ?x \<noteq> 0" by auto
  have i: "installs s b ?x n" using hd nz by (auto simp: installs_def buf_ok_def)
  show "blk (bpin b s) = blk s" unfolding e using installs_views(3) [OF i] nz hd(9) by (simp add: fun_upd_idem)
  show "rc (bpin b s) = (rc s)(n := rc s n + 1)" unfolding e using installs_views(1) [OF i] u by simp
  show o: "own (bpin b s) = own s"
    unfolding e using installs_views(2) [OF i] hd(2) by (auto simp: own_def fun_eq_iff)
  show "disk (bpin b s) = disk s" "dwrites (bpin b s) = dwrites s" "io_step s (bpin b s)"
    unfolding e by (simp_all add: io_step_put)
  show "slot (bpin b s) = slot s" unfolding e by (rule installs_same_slot [OF i hd(2)])
  have "mypid (bpin b s) = mypid s" unfolding e by (rule io_stepD [OF io_step_put])
  with h o show "holds (bpin b s) b n"
    unfolding holds_def by (simp add: e installs_ok [OF i] installs_slot [OF i])
qed

lemma bunpin_spec:
  assumes h: "holds s b n" and r: "rc s n > 1"
  shows "holds (bunpin b s) b n" "blk (bunpin b s) = blk s" "rc (bunpin b s) = (rc s)(n := rc s n - 1)"
    "own (bunpin b s) = own s" "disk (bunpin b s) = disk s" "dwrites (bunpin b s) = dwrites s" "io_step s (bunpin b s)"
    "slot (bunpin b s) = slot s"
proof -
  note hd = holdsD [OF h]
  let ?x = "(bufs s b)\<lparr>b_refcnt := b_refcnt (bufs s b) - 1\<rparr>"
  have e: "bunpin b s = put s b ?x" by (simp add: bunpin_def upd_buf_def)
  have u: "unat (b_refcnt ?x) = rc s n - 1" using hd(7,10) by (simp add: unat_minus_one)
  then have nz: "b_refcnt ?x \<noteq> 0" using r by auto
  have i: "installs s b ?x n" using hd nz by (auto simp: installs_def buf_ok_def)
  show "blk (bunpin b s) = blk s" unfolding e using installs_views(3) [OF i] nz hd(9) by (simp add: fun_upd_idem)
  show "rc (bunpin b s) = (rc s)(n := rc s n - 1)" unfolding e using installs_views(1) [OF i] u by simp
  show o: "own (bunpin b s) = own s"
    unfolding e using installs_views(2) [OF i] hd(2) by (auto simp: own_def fun_eq_iff)
  show "disk (bunpin b s) = disk s" "dwrites (bunpin b s) = dwrites s" "io_step s (bunpin b s)"
    unfolding e by (simp_all add: io_step_put)
  show "slot (bunpin b s) = slot s" unfolding e by (rule installs_same_slot [OF i hd(2)])
  have "mypid (bunpin b s) = mypid s" unfolding e by (rule io_stepD [OF io_step_put])
  with h o show "holds (bunpin b s) b n"
    unfolding holds_def by (simp add: e installs_ok [OF i] installs_slot [OF i])
qed

text \<open>A change of the list alone leaves every block as it was.\<close>

definition same_buf :: "buf \<Rightarrow> buf \<Rightarrow> bool" where
  "same_buf x y \<longleftrightarrow> b_dev x = b_dev y \<and> b_blockno x = b_blockno y \<and> b_refcnt x = b_refcnt y \<and> b_lock x = b_lock y \<and>
     b_data x = b_data y \<and> b_valid x = b_valid y \<and> b_disk x = b_disk y"

lemma relink_views:
  assumes "\<And>c. same_buf (bufs s' c) (bufs s c)" "disk s' = disk s"
  shows "slot s' = slot s" "rc s' = rc s" "own s' = own s" "blk s' = blk s"
    "list_ok (bufs s') \<Longrightarrow> bc_ok s \<Longrightarrow> bc_ok s'"
proof -
  have f: "b_dev (bufs s' c) = b_dev (bufs s c)" "b_blockno (bufs s' c) = b_blockno (bufs s c)"
    "b_refcnt (bufs s' c) = b_refcnt (bufs s c)" "b_lock (bufs s' c) = b_lock (bufs s c)"
    "b_data (bufs s' c) = b_data (bufs s c)" "b_valid (bufs s' c) = b_valid (bufs s c)"
    "b_disk (bufs s' c) = b_disk (bufs s c)" for c
    using assms(1) [of c] by (simp_all add: same_buf_def)
  show sl: "slot s' = slot s" using slot_cong f by blast
  show "rc s' = rc s" "own s' = own s" "blk s' = blk s"
    by (simp_all add: fun_eq_iff rc_def own_def blk_def sl f assms(2) cong: option.case_cong if_cong)
  show "bc_ok s'" if "list_ok (bufs s')" "bc_ok s"
    using that by (simp add: bc_ok_def uniq_ok_def buf_ok_def f assms(2))
qed

lemma same_set:
  "same_buf (bufs t c) x \<Longrightarrow> same_buf (bufs (set_next d e t) c) x"
  "same_buf (bufs t c) x \<Longrightarrow> same_buf (bufs (set_prev d e t) c) x"
  by (cases "c = d"; simp add: same_buf_def)+

lemma push_front_same: "same_buf (bufs t c) x \<Longrightarrow> same_buf (bufs (push_front b t) c) x"
  unfolding push_front_def Let_def by (intro same_set)

lemma relink_moves: "same_buf (bufs (push_front b (unlink_buf b s)) c) (bufs s c)"
  unfolding unlink_buf_def Let_def by (intro push_front_same same_set) (simp add: same_buf_def)

lemma relink_frame [simp]:
  "disk (push_front b s) = disk s" "dwrites (push_front b s) = dwrites s" "procs (push_front b s) = procs s"
  "disk (unlink_buf b s) = disk s" "dwrites (unlink_buf b s) = dwrites s" "procs (unlink_buf b s) = procs s"
  by (simp_all add: push_front_def unlink_buf_def Let_def set_next_def set_prev_def)

lemma bufs_only:
  "t = s\<lparr>bufs := bufs t\<rparr> \<Longrightarrow> set_next d e t = s\<lparr>bufs := bufs (set_next d e t)\<rparr>"
  "t = s\<lparr>bufs := bufs t\<rparr> \<Longrightarrow> set_prev d e t = s\<lparr>bufs := bufs (set_prev d e t)\<rparr>"
  by (cases t; cases s; simp add: set_next_def set_prev_def upd_buf_def)+

lemma relink_bufs: "push_front b (unlink_buf b s) = s\<lparr>bufs := bufs (push_front b (unlink_buf b s))\<rparr>"
  unfolding push_front_def unlink_buf_def Let_def by (intro bufs_only) simp

lemma relink_list:
  assumes "list_ok (bufs s)" "b < NBUF"
  shows "list_ok (bufs (push_front b (unlink_buf b s)))"
proof -
  obtain xs where xs: "lru (bufs s) xs" "set xs = {..<NBUF}" using assms by (auto simp: list_ok_def)
  then have "b \<in> set xs" using assms(2) by simp
  then obtain us vs where uv: "xs = us @ b # vs" by (auto simp: in_set_conv_decomp)
  have d: "b \<notin> set (us @ vs)" using xs(1) uv by (auto simp: lru_def)
  have "lru (bufs (push_front b (unlink_buf b s))) (b # us @ vs)"
    using push_front_lru [OF unlink_lru [of s us b vs] assms(2) d] xs(1) uv by simp
  moreover have "set (b # us @ vs) = {..<NBUF}" using xs(2) uv by auto
  ultimately show ?thesis unfolding list_ok_def by blast
qed

lemma brelse_spec:
  assumes h: "holds s b n" and clean: "rc s n = 1 \<Longrightarrow> blk s n = disk s n"
  obtains s' where "brelse b s = Inr s'" "bc_ok s'" "blk s' = blk s" "rc s' = (rc s)(n := rc s n - 1)"
    "own s' = (own s)(n := None)" "disk s' = disk s" "dwrites s' = dwrites s" "io_step s s'" "slot s' = slot s"
proof -
  note hd = holdsD [OF h]
  define x where "x = (bufs s b)\<lparr>b_lock := (b_lock (bufs s b))\<lparr>sl_locked := False, sl_pid := 0\<rparr>, b_refcnt := b_refcnt (bufs s b) - 1\<rparr>"
  define t where "t = put s b x"
  define P where "P = procs (wakeup (ChBufLock b) s)"
  define t' where "t' = s\<lparr>procs := P, bufs := (bufs s)(b := x)\<rparr>"
  define u where "u = (if b_refcnt x = 0 then push_front b (unlink_buf b t') else t')"
  have r: "brelse b s = Inr u"
    using hd(8) by (simp add: brelse_def releasesleep_def Let_def u_def t'_def x_def P_def upd_buf_def wakeup_eq)
  have cnt: "unat (b_refcnt x) = rc s n - 1" using hd(7,10) by (simp add: x_def unat_minus_one)
  have c0: "blk s n = disk s n" if "b_refcnt x = 0"
  proof -
    have "rc s n - 1 = 0" "rc s n \<noteq> 0" using cnt that hd(7,10) by (simp_all add: unat_eq_0)
    then show ?thesis using clean by simp
  qed
  have i: "installs s b x n"
    using hd c0 by (auto simp: installs_def buf_ok_def x_def split: if_splits)
  have v: "bc_ok t" "blk t = blk s" "rc t = (rc s)(n := rc s n - 1)" "own t = (own s)(n := None)"
    unfolding t_def using installs_ok [OF i] installs_views [OF i] cnt c0 hd(9)
    by (auto simp: x_def fun_upd_idem split: if_splits)
  have pv: "bc_ok t' = bc_ok t" "blk t' = blk t" "rc t' = rc t" "own t' = own t" "slot t' = slot t"
    by (rule view_cong; simp add: t_def t'_def)+
  have w: "woke (curproc s) i (procs s i) (P i)" for i by (simp add: P_def wakeup_eq)
  have "slot t = slot s" unfolding t_def by (rule installs_same_slot [OF i hd(2)])
  then have vt: "bc_ok t'" "blk t' = blk s" "rc t' = (rc s)(n := rc s n - 1)" "own t' = (own s)(n := None)"
    "slot t' = slot s"
    using v pv by simp_all
  have st: "disk t' = disk s" "dwrites t' = dwrites s" by (simp_all add: t'_def)
  have io: "io_step s (t'\<lparr>bufs := B\<rparr>)" for B
    using w by (intro io_stepI [where P = P and D = "disk s" and W = "dwrites s" and B = B]) (simp_all add: t'_def)
  show thesis
  proof (cases "b_refcnt x = 0")
    case False
    then have "u = t'" by (simp add: u_def)
    then show thesis using that [of t'] vt st r io [of "bufs t'"] by simp
  next
    case True
    then have u: "u = push_front b (unlink_buf b t')" by (simp add: u_def)
    have "list_ok (bufs t')" using vt(1) by (simp add: bc_ok_def)
    note l = relink_list [OF this hd(3)]
    note rv = relink_views [OF relink_moves [of b t']]
    have "io_step s u" unfolding u by (subst relink_bufs) (rule io)
    then show thesis
      using that [of u] rv l vt st r unfolding u by simp
  qed
qed

section \<open>Starting up\<close>

lemma binit_one_same:
  "b_lock x = initsleeplock \<or> c \<noteq> b \<Longrightarrow> same_buf (bufs t c) x \<Longrightarrow> same_buf (bufs (binit_one b t) c) x"
  unfolding binit_one_def by (rule push_front_same) (auto simp: same_buf_def)

lemma binit_fold:
  assumes "k \<le> NBUF" "lru (bufs s) []"
  shows "lru (bufs (fold binit_one [0..<k] s)) (rev [0..<k])"
  using assms(1)
proof (induction k)
  case 0
  then show ?case using assms(2) by simp
next
  case (Suc k)
  let ?t = "fold binit_one [0..<k] s"
  have "lru (bufs (upd_buf k (\<lambda>x. x\<lparr>b_lock := initsleeplock\<rparr>) ?t)) (rev [0..<k])"
    using Suc lru_cong [of "bufs (upd_buf k (\<lambda>x. x\<lparr>b_lock := initsleeplock\<rparr>) ?t)" "bufs ?t"] by simp
  then have "lru (bufs (binit_one k ?t)) (k # rev [0..<k])"
    unfolding binit_one_def using Suc.prems by (intro push_front_lru) auto
  then show ?case by simp
qed

lemma fold_frame:
  assumes "\<And>x s. f (g x s) = f s"
  shows "f (fold g xs s) = f s"
  using assms by (induction xs arbitrary: s) auto

text \<open>Any field of a buffer that no step of \<open>binit\<close> writes, apart from the lock, which is reset.\<close>

lemma binit_bufs:
  assumes "b < NBUF"
  shows "same_buf (bufs (binit s) b) ((bufs s b)\<lparr>b_lock := initsleeplock\<rparr>)"
proof -
  let ?x = "(bufs s b)\<lparr>b_lock := initsleeplock\<rparr>"
  have keep: "same_buf (bufs t b) ?x \<Longrightarrow> same_buf (bufs (fold binit_one xs t) b) ?x" for xs and t :: "'a disk_state_scheme"
  proof (induction xs arbitrary: t)
    case (Cons a xs)
    have "same_buf (bufs (binit_one a t) b) ?x" by (rule binit_one_same) (simp, rule Cons.prems)
    from Cons.IH [OF this] show ?case by simp
  qed simp
  have until: "same_buf ((bufs t b)\<lparr>b_lock := l\<rparr>) ((bufs s b)\<lparr>b_lock := l\<rparr>) \<Longrightarrow>
      b \<notin> set xs \<Longrightarrow> same_buf ((bufs (fold binit_one xs t) b)\<lparr>b_lock := l\<rparr>) ((bufs s b)\<lparr>b_lock := l\<rparr>)"
    for xs l and t :: "'a disk_state_scheme"
  proof (induction xs arbitrary: t)
    case (Cons c xs)
    have "same_buf (bufs (binit_one c t) b) (bufs t b)"
      using Cons.prems(2) by (intro binit_one_same) (auto simp: same_buf_def)
    then show ?case using Cons by (simp add: same_buf_def)
  qed simp
  let ?t0 = "set_next NBUF NBUF (set_prev NBUF NBUF s)"
  let ?t = "fold binit_one [0..<b] ?t0"
  have "same_buf ((bufs ?t b)\<lparr>b_lock := initsleeplock\<rparr>) ?x"
    using assms by (intro until) (auto simp: same_buf_def)
  then have "same_buf (bufs (upd_buf b (\<lambda>x. x\<lparr>b_lock := initsleeplock\<rparr>) ?t) b) ?x" by simp
  then have "same_buf (bufs (binit_one b ?t) b) ?x" unfolding binit_one_def by (rule push_front_same)
  then have "same_buf (bufs (fold binit_one [Suc b..<NBUF] (binit_one b ?t)) b) ?x" by (rule keep)
  moreover have "[0..<NBUF] = [0..<b] @ b # [Suc b..<NBUF]"
    using assms by (metis le_add_diff_inverse less_imp_le upt_add_eq_append upt_conv_Cons zero_le)
  ultimately show ?thesis unfolding binit_def by simp
qed

lemma binit_disk [simp]: "disk (binit s) = disk s" "dwrites (binit s) = dwrites s" "curproc (binit s) = curproc s"
    "procs (binit s) = procs s" "disk_state.more (binit s) = disk_state.more s"
  by (simp_all add: binit_def fold_frame binit_one_def push_front_def Let_def set_next_def set_prev_def)

text \<open>The buffers as the loader leaves them: zeroed.\<close>

definition unused_bufs :: "'a disk_state_scheme \<Rightarrow> bool" where
  "unused_bufs s \<longleftrightarrow> (\<forall>b < NBUF. b_refcnt (bufs s b) = 0 \<and> b_dev (bufs s b) = 0 \<and> \<not> b_disk (bufs s b) \<and>
     length (b_data (bufs s b)) = BSIZE) \<and> (\<forall>n. length (disk s n) = BSIZE)"

lemma binit_spec:
  assumes "unused_bufs s"
  shows "bc_ok (binit s)" "rc (binit s) = (\<lambda>_. 0)" "own (binit s) = (\<lambda>_. None)" "blk (binit s) = disk s"
    "in_use (binit s) = {}"
proof -
  have f: "b_refcnt (bufs (binit s) b) = 0" "b_dev (bufs (binit s) b) = 0" "b_lock (bufs (binit s) b) = initsleeplock"
    "length (b_data (bufs (binit s) b)) = BSIZE" "\<not> b_disk (bufs (binit s) b)" if "b < NBUF" for b
    using binit_bufs [OF that, of s] assms that by (auto simp: same_buf_def unused_bufs_def)
  have none: "slot (binit s) n = None" for n using f(2) by (auto simp: slot_None ROOTDEV_def)
  have "lru (bufs (set_next NBUF NBUF (set_prev NBUF NBUF s))) []" by (simp add: lru_def)
  from binit_fold [OF le_refl this] have "lru (bufs (binit s)) (rev [0..<NBUF])" by (simp add: binit_def)
  then have "list_ok (bufs (binit s))" unfolding list_ok_def by (intro exI [of _ "rev [0..<NBUF]"]) auto
  moreover have "uniq_ok (bufs (binit s))" using f(2) by (auto simp: uniq_ok_def ROOTDEV_def)
  ultimately show "bc_ok (binit s)"
    using f assms by (auto simp: bc_ok_def buf_ok_def initsleeplock_def ROOTDEV_def unused_bufs_def)
  show "rc (binit s) = (\<lambda>_. 0)" "own (binit s) = (\<lambda>_. None)" "blk (binit s) = disk s" "in_use (binit s) = {}"
    by (simp_all add: fun_eq_iff rc_def own_def blk_def none in_use_def)
qed

section \<open>What the cache promises\<close>

text \<open>C5: \<open>bread\<close> of a block nobody holds returns, locked for the caller, a buffer with the current
  contents of the block, whichever buffer that is and whether or not the block was cached: the
  cache stays well formed, no block changes and no other block gains or loses a reference.  The
  walks along the list terminate and a buffer is found as long as fewer than all blocks are in
  use.\<close>

theorem bread_correct:
  assumes "bc_ok s" "own s n = None" "rc s n > 0 \<or> card (in_use s) < NBUF" "rc s n + 1 < 2 ^ 32"
  shows "\<exists>b s'. bread ROOTDEV n s = Inr (b, s') \<and> b_data (bufs s' b) = blk s n \<and>
    holdingsleep (b_lock (bufs s' b)) s' \<and> bc_ok s' \<and> blk s' = blk s \<and> disk s' = disk s \<and>
    rc s' = (rc s)(n := rc s n + 1) \<and> (\<forall>m. m \<noteq> n \<longrightarrow> own s' m = own s m)"
proof -
  obtain b s' where r: "bread ROOTDEV n s = Inr (b, s')" "bc_ok s'" "slot s' n = Some b"
    "b_data (bufs s' b) = blk s n" "blk s' = blk s" "rc s' = (rc s)(n := rc s n + 1)"
    "own s' = (own s)(n := Some (mypid s))" "disk s' = disk s" "dwrites s' = dwrites s" "io_step s s'"
    by (rule bread_spec [OF assms]) blast
  have "holds s' b n" using r io_stepD(5) [OF r(10)] by (simp add: holds_def)
  then have "holdingsleep (b_lock (bufs s' b)) s'" by (rule holdsD)
  with r show ?thesis by auto
qed

definition started :: disk_state where
  "started = binit blank_disk_state"

lemma started_unused: "unused_bufs blank_disk_state"
  by (simp add: unused_bufs_def no_buf_def)

theorem bread_correct_witness:
  "\<exists>b s'. bread ROOTDEV 5 started = Inr (b, s') \<and> b_data (bufs s' b) = replicate BSIZE 0 \<and> bc_ok s' \<and> rc s' 5 = 1"
  using bread_correct [of started 5] binit_spec [OF started_unused] by (auto simp: started_def NBUF_def)

text \<open>C23: What is written through the cache is on the disk and is read back: after \<open>bread\<close>, a change
  of the contents, \<open>bwrite\<close> and \<open>brelse\<close> the disk differs in that block only, and so it does after
  the cache has been lost and set up again; a later \<open>bread\<close> returns the new contents.\<close>

theorem bwrite_durable:
  assumes "bc_ok s" "own s n = None" "rc s n = 0" "card (in_use s) < NBUF" "length bs = BSIZE"
  shows "\<exists>b s1 s2 s3 c s4. bread ROOTDEV n s = Inr (b, s1) \<and> bwrite b (set_data b bs s1) = Inr s2 \<and>
    brelse b s2 = Inr s3 \<and> bc_ok s3 \<and> disk s3 = (disk s)(n := bs) \<and> dwrites s3 = dwrites s @ [(n, bs)] \<and>
    rc s3 = rc s \<and> own s3 = own s \<and> bread ROOTDEV n s3 = Inr (c, s4) \<and> b_data (bufs s4 c) = bs"
proof -
  have room: "rc s n > 0 \<or> card (in_use s) < NBUF" and cnt: "rc s n + 1 < 2 ^ 32" using assms by simp_all
  obtain b s1 where r: "bread ROOTDEV n s = Inr (b, s1)" "bc_ok s1" "slot s1 n = Some b"
    "b_data (bufs s1 b) = blk s n" "blk s1 = blk s" "rc s1 = (rc s)(n := rc s n + 1)"
    "own s1 = (own s)(n := Some (mypid s))" "disk s1 = disk s" "dwrites s1 = dwrites s" "io_step s s1"
    by (rule bread_spec [OF assms(1,2) room cnt]) blast
  have h1: "holds s1 b n" using r io_stepD(5) [OF r(10)] by (simp add: holds_def)
  note d = set_data_spec [OF h1 assms(5)]
  define s2 where "s2 = disk_rw b True (set_data b bs s1)"
  note w = bwrite_spec [OF d(1), folded s2_def]
  have d2: "blk s2 n = bs" "disk s2 = (disk s)(n := bs)" "dwrites s2 = dwrites s @ [(n, bs)]"
    "rc s2 = (rc s)(n := Suc (rc s n))" "own s2 = (own s)(n := Some (mypid s))"
    using w d r by simp_all
  obtain s3 where x: "brelse b s2 = Inr s3" "bc_ok s3" "blk s3 = blk s2" "rc s3 = (rc s2)(n := rc s2 n - 1)"
    "own s3 = (own s2)(n := None)" "disk s3 = disk s2" "dwrites s3 = dwrites s2" "io_step s2 s3" "slot s3 = slot s2"
    by (rule brelse_spec [OF w(2)]) (simp add: d2)
  have v3: "rc s3 = rc s" "own s3 = own s" using x(4,5) d2 assms(2) by (auto simp: fun_eq_iff)
  then have "own s3 n = None" "rc s3 n > 0 \<or> card (in_use s3) < NBUF" "rc s3 n + 1 < 2 ^ 32"
    using assms(2-4) by (simp_all add: in_use_def)
  then obtain c s4 where "bread ROOTDEV n s3 = Inr (c, s4)" "b_data (bufs s4 c) = blk s3 n"
    using bread_spec [OF x(2)] by blast
  then show ?thesis using r(1) w(1) x d2 v3 by auto
qed

theorem bwrite_durable_witness:
  "\<exists>b s1 s2 s3. bread ROOTDEV 5 started = Inr (b, s1) \<and> bwrite b (set_data b (replicate BSIZE 9) s1) = Inr s2 \<and>
    brelse b s2 = Inr s3 \<and> disk s3 5 = replicate BSIZE 9 \<and> disk s3 6 = replicate BSIZE 0"
  using bwrite_durable [of started 5 "replicate BSIZE 9"] binit_spec [OF started_unused]
  by (auto simp: started_def NBUF_def)

end
