(* ===== verification/Layout.thy ===== *)
theory Layout
  imports ZPrelude
begin

text \<open>
  Fields inside a byte array: a C struct laid over the \<^verbatim>\<open>data\<close> of a buffer is read and written field
  by field at fixed offsets.  The lemmas say that a field reads back what was stored in it and that
  fields apart do not disturb each other.
\<close>

definition get_bytes :: "nat \<Rightarrow> nat \<Rightarrow> byte list \<Rightarrow> byte list" where
  "get_bytes off n d = take n (drop off d)"

definition put_bytes :: "nat \<Rightarrow> byte list \<Rightarrow> byte list \<Rightarrow> byte list" where
  "put_bytes off bs d = take off d @ bs @ drop (off + length bs) d"

definition get16 :: "nat \<Rightarrow> byte list \<Rightarrow> u16" where "get16 off d = le_word (get_bytes off 2 d)"
definition get32 :: "nat \<Rightarrow> byte list \<Rightarrow> u32" where "get32 off d = le_word (get_bytes off 4 d)"
definition get64 :: "nat \<Rightarrow> byte list \<Rightarrow> u64" where "get64 off d = le_word (get_bytes off 8 d)"
definition put16 :: "nat \<Rightarrow> u16 \<Rightarrow> byte list \<Rightarrow> byte list" where "put16 off w d = put_bytes off (le_bytes 2 w) d"
definition put32 :: "nat \<Rightarrow> u32 \<Rightarrow> byte list \<Rightarrow> byte list" where "put32 off w d = put_bytes off (le_bytes 4 w) d"

lemma length_put_bytes [simp]: "off + length bs \<le> length d \<Longrightarrow> length (put_bytes off bs d) = length d"
  by (simp add: put_bytes_def)

lemma length_put [simp]:
  "off + 2 \<le> length d \<Longrightarrow> length (put16 off w d) = length d"
  "off + 4 \<le> length d \<Longrightarrow> length (put32 off v d) = length d"
  by (simp_all add: put16_def put32_def)

lemma get_put_bytes:
  "off + length bs \<le> length d \<Longrightarrow> get_bytes off (length bs) (put_bytes off bs d) = bs"
  by (simp add: get_bytes_def put_bytes_def)

lemma nth_put_bytes:
  "off + length bs \<le> length d \<Longrightarrow> i < length d \<Longrightarrow>
    put_bytes off bs d ! i = (if off \<le> i \<and> i < off + length bs then bs ! (i - off) else d ! i)"
  by (auto simp: put_bytes_def nth_append min_def)

lemma get_put_other:
  assumes "off + length bs \<le> length d" "k + n \<le> off \<or> off + length bs \<le> k" "k + n \<le> length d"
  shows "get_bytes k n (put_bytes off bs d) = get_bytes k n d"
  using assms by (intro nth_equalityI) (auto simp: get_bytes_def nth_put_bytes)

lemma get_put [simp]:
  "off + 2 \<le> length d \<Longrightarrow> get16 off (put16 off w d) = w"
  "off + 4 \<le> length d \<Longrightarrow> get32 off (put32 off v d) = v"
  using get_put_bytes [of off "le_bytes 2 w" d] get_put_bytes [of off "le_bytes 4 v" d]
  by (simp_all add: get16_def put16_def get32_def put32_def le_word_le_bytes)

lemma get32_put32_other:
  "off + 4 \<le> length d \<Longrightarrow> k + 4 \<le> off \<or> off + 4 \<le> k \<Longrightarrow> k + 4 \<le> length d \<Longrightarrow> get32 k (put32 off v d) = get32 k d"
  by (simp add: get32_def put32_def get_put_other)

end
