(* ===== verification/Log.thy ===== *)
theory Log
  imports Bio Layout
begin

text \<open>
  The write-ahead log, \<^verbatim>\<open>kernel/log.c\<close>.  File-system calls bracket their changes with \<open>begin_op\<close> and
  \<open>end_op\<close>; \<open>log_write\<close> records a changed block and pins its buffer; the last \<open>end_op\<close> commits.  The
  theorems say what \<open>commit\<close> writes and in which order, and that recovery after a crash between any
  two of these writes finds either all of the transaction or nothing of it.  \<^verbatim>\<open>log.lock\<close> makes the
  code between two sleeps one step.  Entries of \<^verbatim>\<open>block[]\<close> past \<open>LOGSIZE\<close> do not exist; the theorems keep
  \<open>n\<close> below it.
\<close>

section \<open>The routines\<close>

definition MAXOPBLOCKS :: int where "MAXOPBLOCKS = 10"
definition LOGSIZE :: int where "LOGSIZE = MAXOPBLOCKS * 3"

record superblock =
  sb_magic :: u32
  sb_size :: u32
  sb_nblocks :: u32
  sb_ninodes :: u32
  sb_nlog :: u32
  sb_logstart :: u32
  sb_inodestart :: u32
  sb_bmapstart :: u32

record log_state = disk_state +
  lg_start :: int
  lg_size :: int
  lg_outstanding :: int
  lg_committing :: bool
  lg_dev :: u32
  lg_n :: int
  lg_block :: "nat \<Rightarrow> u32"

text \<open>A loop whose body may stop.\<close>

fun foldM :: "('b \<Rightarrow> 's \<Rightarrow> 's res) \<Rightarrow> 'b list \<Rightarrow> 's \<Rightarrow> 's res" where
  "foldM f [] s = Inr s"
| "foldM f (x # xs) s = bnd (f x s) (foldM f xs)"

text \<open>\<^verbatim>\<open>struct logheader\<close> laid over the first bytes of a block.\<close>

definition hdr_n :: "byte list \<Rightarrow> int" where "hdr_n d = sint (get32 0 d)"
definition hdr_block :: "byte list \<Rightarrow> nat \<Rightarrow> u32" where "hdr_block d i = get32 (4 + 4 * i) d"

definition hdr_put :: "int \<Rightarrow> (nat \<Rightarrow> u32) \<Rightarrow> byte list \<Rightarrow> byte list" where
  "hdr_put n f d = fold (\<lambda>i. put32 (4 + 4 * i) (f i)) [0..<nat n] (put32 0 (word_of_int n) d)"

definition log_addr :: "'a log_state_scheme \<Rightarrow> nat \<Rightarrow> u32" where
  "log_addr s tail = word_of_int (lg_start s + int tail + 1)"

definition install_one :: "bool \<Rightarrow> nat \<Rightarrow> 'a log_state_scheme \<Rightarrow> 'a log_state_scheme res" where
  "install_one recovering tail s =
     bnd (bread (lg_dev s) (log_addr s tail) s) (\<lambda>(lbuf, s).
     bnd (bread (lg_dev s) (lg_block s tail) s) (\<lambda>(dbuf, s).
     bnd (bwrite dbuf (set_data dbuf (b_data (bufs s lbuf)) s)) (\<lambda>s.
     bnd (brelse lbuf (if recovering then s else bunpin dbuf s)) (\<lambda>s.
     brelse dbuf s))))"

definition install_trans :: "bool \<Rightarrow> 'a log_state_scheme \<Rightarrow> 'a log_state_scheme res" where
  "install_trans recovering s = foldM (install_one recovering) [0..<nat (lg_n s)] s"

definition read_head :: "'a log_state_scheme \<Rightarrow> 'a log_state_scheme res" where
  "read_head s =
     bnd (bread (lg_dev s) (word_of_int (lg_start s)) s) (\<lambda>(b, s).
       let lh = b_data (bufs s b); n = hdr_n lh;
           s = s\<lparr>lg_n := n, lg_block := (\<lambda>i. if i < nat n then hdr_block lh i else lg_block s i)\<rparr> in
       brelse b s)"

definition write_head :: "'a log_state_scheme \<Rightarrow> 'a log_state_scheme res" where
  "write_head s =
     bnd (bread (lg_dev s) (word_of_int (lg_start s)) s) (\<lambda>(b, s).
     bnd (bwrite b (set_data b (hdr_put (lg_n s) (lg_block s) (b_data (bufs s b))) s)) (\<lambda>s.
     brelse b s))"

definition recover_from_log :: "'a log_state_scheme \<Rightarrow> 'a log_state_scheme res" where
  "recover_from_log s =
     bnd (read_head s) (\<lambda>s. bnd (install_trans True s) (\<lambda>s. write_head (s\<lparr>lg_n := 0\<rparr>)))"

definition initlog :: "u32 \<Rightarrow> superblock \<Rightarrow> 'a log_state_scheme \<Rightarrow> 'a log_state_scheme res" where
  "initlog dev sb s =
     recover_from_log (s\<lparr>lg_start := sint (sb_logstart sb), lg_size := sint (sb_nlog sb), lg_dev := dev\<rparr>)"

definition begin_op :: "'a log_state_scheme \<Rightarrow> 'a log_state_scheme res" where
  "begin_op s =
     (if lg_committing s then Inl (Sleep ChLog)
      else if lg_n s + (lg_outstanding s + 1) * MAXOPBLOCKS > LOGSIZE then Inl (Sleep ChLog)
      else Inr (s\<lparr>lg_outstanding := lg_outstanding s + 1\<rparr>))"

definition write_log_one :: "nat \<Rightarrow> 'a log_state_scheme \<Rightarrow> 'a log_state_scheme res" where
  "write_log_one tail s =
     bnd (bread (lg_dev s) (log_addr s tail) s) (\<lambda>(to, s).
     bnd (bread (lg_dev s) (lg_block s tail) s) (\<lambda>(from, s).
     bnd (bwrite to (set_data to (b_data (bufs s from)) s)) (\<lambda>s.
     bnd (brelse from s) (\<lambda>s.
     brelse to s))))"

definition write_log :: "'a log_state_scheme \<Rightarrow> 'a log_state_scheme res" where
  "write_log s = foldM write_log_one [0..<nat (lg_n s)] s"

definition commit :: "'a log_state_scheme \<Rightarrow> 'a log_state_scheme res" where
  "commit s =
     (if lg_n s > 0 then
        bnd (write_log s) (\<lambda>s.
        bnd (write_head s) (\<lambda>s.
        bnd (install_trans False s) (\<lambda>s.
        write_head (s\<lparr>lg_n := 0\<rparr>))))
      else Inr s)"

definition end_op :: "'a log_state_scheme \<Rightarrow> 'a log_state_scheme res" where
  "end_op s =
     (let s = s\<lparr>lg_outstanding := lg_outstanding s - 1\<rparr> in
      if lg_committing s then panic ''log.committing''
      else if lg_outstanding s = 0 then
        bnd (commit (s\<lparr>lg_committing := True\<rparr>)) (\<lambda>s. Inr (wakeup ChLog (s\<lparr>lg_committing := False\<rparr>)))
      else Inr (wakeup ChLog s))"

fun find_logged :: "u32 \<Rightarrow> nat \<Rightarrow> nat \<Rightarrow> 'a log_state_scheme \<Rightarrow> nat" where
  "find_logged n 0 i s = i"
| "find_logged n (Suc k) i s = (if lg_block s i = n then i else find_logged n k (Suc i) s)"

definition log_write :: "nat \<Rightarrow> 'a log_state_scheme \<Rightarrow> 'a log_state_scheme res" where
  "log_write b s =
     (if lg_n s \<ge> LOGSIZE \<or> lg_n s \<ge> lg_size s - 1 then panic ''too big a transaction''
      else if lg_outstanding s < 1 then panic ''log_write outside of trans''
      else
        let i = find_logged (b_blockno (bufs s b)) (nat (lg_n s)) 0 s;
            s = s\<lparr>lg_block := (lg_block s)(i := b_blockno (bufs s b))\<rparr> in
        Inr (if int i = lg_n s then (bpin b s)\<lparr>lg_n := lg_n s + 1\<rparr> else s))"

section \<open>Copying between two blocks\<close>

lemma io_step_log:
  assumes "io_step s s'"
  shows "lg_start s' = lg_start s" "lg_size s' = lg_size s" "lg_outstanding s' = lg_outstanding s"
    "lg_committing s' = lg_committing s" "lg_dev s' = lg_dev s" "lg_n s' = lg_n s" "lg_block s' = lg_block s"
    "log_state.more s' = log_state.more s"
  using io_stepD(2) [OF assms] by (cases s; cases s'; simp)+

lemma blk_unused: "rc s n = 0 \<Longrightarrow> blk s n = disk s n"
  by (simp add: blk_def rc_def unat_eq_0 split: option.splits)

lemma holds_keep:
  "holds s b n \<Longrightarrow> bc_ok s' \<Longrightarrow> slot s' n = slot s n \<Longrightarrow> own s' n = own s n \<Longrightarrow> io_step s s' \<Longrightarrow> holds s' b n"
  using io_stepD(5) [of s s'] by (simp add: holds_def)

text \<open>Two different blocks are read, the first one not in use before.\<close>

lemma read_pair:
  assumes ok: "bc_ok s" and ac: "a \<noteq> c" and free: "own s a = None" "own s c = None" and ra: "rc s a = 0"
    and room: "card (in_use s) < NBUF" "rc s c > 0 \<or> card (in_use s) + 1 < NBUF" and rc: "rc s c + 1 < 2 ^ 32"
  obtains ba sa bc s2 where "bread ROOTDEV a s = Inr (ba, sa)" "bread ROOTDEV c sa = Inr (bc, s2)"
    "io_step s sa" "holds s2 ba a" "holds s2 bc c" "blk s2 = blk s" "rc s2 = (rc s)(a := 1, c := rc s c + 1)"
    "own s2 = (own s)(a := Some (mypid s), c := Some (mypid s))" "disk s2 = disk s" "dwrites s2 = dwrites s"
    "io_step s s2"
proof -
  obtain ba sa where A: "bread ROOTDEV a s = Inr (ba, sa)" "bc_ok sa" "slot sa a = Some ba"
    "blk sa = blk s" "rc sa = (rc s)(a := rc s a + 1)" "own sa = (own s)(a := Some (mypid s))"
    "disk sa = disk s" "dwrites sa = dwrites s" "io_step s sa"
    by (rule bread_spec [OF ok free(1)]) (use room ra in auto)
  have "in_use sa = insert a (in_use s)" by (auto simp: in_use_def A(5))
  then have "card (in_use sa) \<le> card (in_use s) + 1" by (simp add: card_insert_if)
  then have r2: "rc sa c > 0 \<or> card (in_use sa) < NBUF" using room(2) ac A(5) by auto
  have p2: "own sa c = None" "rc sa c + 1 < 2 ^ 32" using A(5,6) ac free(2) rc by simp_all
  obtain bc s2 where C: "bread ROOTDEV c sa = Inr (bc, s2)" "bc_ok s2" "slot s2 c = Some bc"
    "blk s2 = blk sa" "rc s2 = (rc sa)(c := rc sa c + 1)" "own s2 = (own sa)(c := Some (mypid sa))"
    "disk s2 = disk sa" "dwrites s2 = dwrites sa" "io_step sa s2" "slot s2 a = slot sa a"
    by (rule bread_spec [OF A(2) p2(1) r2 p2(2)]) (use A(5) in auto)
  have io: "io_step s s2" by (rule io_step_trans [OF A(9) C(9)])
  note pid = io_stepD(5) [OF A(9)] io_stepD(5) [OF C(9)]
  show thesis
  proof (rule that [OF A(1) C(1) A(9)])
    show "holds s2 ba a" using A C pid ac by (simp add: holds_def)
    show "holds s2 bc c" using C pid by (simp add: holds_def)
  qed (use A C ac ra pid io in simp_all)
qed

text \<open>One iteration of \<open>write_log\<close>: the log block becomes a copy of the pinned block.\<close>

lemma write_log_one_spec:
  fixes s :: "'a log_state_scheme" and i :: nat
  defines "a \<equiv> log_addr s i" and "c \<equiv> lg_block s i"
  assumes ok: "bc_ok s" and dev: "lg_dev s = ROOTDEV" and ac: "a \<noteq> c" and free: "own s a = None" "own s c = None"
    and ra: "rc s a = 0" and room: "card (in_use s) < NBUF" and rc: "rc s c > 0" "rc s c + 1 < 2 ^ 32"
  obtains s' where "write_log_one i s = Inr s'" "bc_ok s'" "blk s' = (blk s)(a := blk s c)" "rc s' = rc s"
    "own s' = own s" "disk s' = (disk s)(a := blk s c)" "dwrites s' = dwrites s @ [(a, blk s c)]" "io_step s s'"
proof -
  obtain ba sa bc s2 where R: "bread ROOTDEV a s = Inr (ba, sa)" "bread ROOTDEV c sa = Inr (bc, s2)"
    "io_step s sa" "holds s2 ba a" "holds s2 bc c" "blk s2 = blk s" "rc s2 = (rc s)(a := 1, c := rc s c + 1)"
    "own s2 = (own s)(a := Some (mypid s), c := Some (mypid s))" "disk s2 = disk s" "dwrites s2 = dwrites s"
    "io_step s s2"
    by (rule read_pair [OF ok ac free ra room _ rc(2)]) (use rc(1) in blast)
  define bs where "bs = blk s c"
  have bs: "b_data (bufs s2 bc) = bs" using holdsD(9) [OF R(5)] R(6) by (simp add: bs_def)
  have len: "length bs = BSIZE" using holdsD(6) [OF R(5)] bs by (simp add: buf_ok_def)
  note D = set_data_spec [OF R(4) len]
  define s4 where "s4 = disk_rw ba True (set_data ba bs s2)"
  note W = bwrite_spec [OF D(1), folded s4_def]
  have io4: "io_step s2 s4" by (rule io_step_trans [OF D(7) W(8)])
  have v4: "blk s4 = (blk s)(a := bs)" "rc s4 = rc s2" "own s4 = own s2" "disk s4 = (disk s)(a := bs)"
    "dwrites s4 = dwrites s @ [(a, bs)]" "slot s4 = slot s2"
    using D W R by simp_all
  have hc: "holds s4 bc c" by (rule holds_keep [OF R(5) holdsD(1) [OF W(2)]]) (use v4 io4 in simp_all)
  obtain s5 where X: "brelse bc s4 = Inr s5" "bc_ok s5" "blk s5 = blk s4" "rc s5 = (rc s4)(c := rc s4 c - 1)"
    "own s5 = (own s4)(c := None)" "disk s5 = disk s4" "dwrites s5 = dwrites s4" "io_step s4 s5" "slot s5 = slot s4"
    by (rule brelse_spec [OF hc]) (use v4 R(7) rc(1) in simp)
  have ha: "holds s5 ba a" by (rule holds_keep [OF W(2) X(2)]) (use X ac in simp_all)
  obtain s6 where Y: "brelse ba s5 = Inr s6" "bc_ok s6" "blk s6 = blk s5" "rc s6 = (rc s5)(a := rc s5 a - 1)"
    "own s6 = (own s5)(a := None)" "disk s6 = disk s5" "dwrites s6 = dwrites s5" "io_step s5 s6"
    by (rule brelse_spec [OF ha]) (use X v4 in simp_all)
  have run: "write_log_one i s = Inr s6"
    using R(1,2) bs W(1) X(1) Y(1) dev io_step_log(5,7) [OF R(3)]
    by (simp add: write_log_one_def a_def [symmetric] c_def [symmetric])
  show thesis
  proof (rule that [OF run Y(2)])
    show "rc s6 = rc s" using X(4) Y(4) v4(2) R(7) ac ra by (auto simp: fun_eq_iff)
    show "own s6 = own s" using X(5) Y(5) v4(3) R(8) ac free by (auto simp: fun_eq_iff)
    show "io_step s s6" using R(11) io4 X(8) Y(8) by (meson io_step_trans)
  qed (use X Y v4 in \<open>simp_all add: bs_def\<close>)
qed

text \<open>One iteration of \<open>install_trans\<close>: the home block becomes a copy of the log block.\<close>

lemma install_one_spec:
  fixes s :: "'a log_state_scheme" and i :: nat
  defines "a \<equiv> log_addr s i" and "c \<equiv> lg_block s i"
  assumes ok: "bc_ok s" and dev: "lg_dev s = ROOTDEV" and ac: "a \<noteq> c" and free: "own s a = None" "own s c = None"
    and ra: "rc s a = 0" and room: "card (in_use s) < NBUF" "rc s c > 0 \<or> card (in_use s) + 1 < NBUF"
    and rc: "rc s c + 1 < 2 ^ 32" "\<not> recovering \<Longrightarrow> rc s c > 0"
  obtains s' where "install_one recovering i s = Inr s'" "bc_ok s'" "blk s' = (blk s)(c := blk s a)"
    "rc s' = (if recovering then rc s else (rc s)(c := rc s c - 1))"
    "own s' = own s" "disk s' = (disk s)(c := blk s a)" "dwrites s' = dwrites s @ [(c, blk s a)]" "io_step s s'"
proof -
  obtain ba sa bc s2 where R: "bread ROOTDEV a s = Inr (ba, sa)" "bread ROOTDEV c sa = Inr (bc, s2)"
    "io_step s sa" "holds s2 ba a" "holds s2 bc c" "blk s2 = blk s" "rc s2 = (rc s)(a := 1, c := rc s c + 1)"
    "own s2 = (own s)(a := Some (mypid s), c := Some (mypid s))" "disk s2 = disk s" "dwrites s2 = dwrites s"
    "io_step s s2"
    by (rule read_pair [OF ok ac free ra room rc(1)])
  define bs where "bs = blk s a"
  have bs: "b_data (bufs s2 ba) = bs" using holdsD(9) [OF R(4)] R(6) by (simp add: bs_def)
  have len: "length bs = BSIZE" using holdsD(6) [OF R(4)] bs by (simp add: buf_ok_def)
  note D = set_data_spec [OF R(5) len]
  define s4 where "s4 = disk_rw bc True (set_data bc bs s2)"
  note W = bwrite_spec [OF D(1), folded s4_def]
  have io4: "io_step s2 s4" by (rule io_step_trans [OF D(7) W(8)])
  have v4: "blk s4 = (blk s)(c := bs)" "rc s4 = rc s2" "own s4 = own s2" "disk s4 = (disk s)(c := bs)"
    "dwrites s4 = dwrites s @ [(c, bs)]" "slot s4 = slot s2"
    using D W R by simp_all
  define s5 where "s5 = (if recovering then s4 else bunpin bc s4)"
  have r4: "rc s4 c = rc s c + 1" using v4(2) R(7) by simp
  have v5: "holds s5 bc c" "blk s5 = blk s4" "own s5 = own s4" "disk s5 = disk s4" "dwrites s5 = dwrites s4"
    "slot s5 = slot s4" "io_step s4 s5" "rc s5 = (if recovering then rc s4 else (rc s4)(c := rc s c))"
    using W(2) bunpin_spec [OF W(2)] rc(2) r4 by (auto simp: s5_def)
  have ha: "holds s5 ba a"
    by (rule holds_keep [OF R(4) holdsD(1) [OF v5(1)]]) (use v4 v5 io_step_trans [OF io4 v5(7)] in simp_all)
  have nac: "rc s5 a = 1" "blk s5 a = disk s5 a"
    using v5 v4 R(7) ac blk_unused [OF ra] by simp_all
  obtain s6 where X: "brelse ba s5 = Inr s6" "bc_ok s6" "blk s6 = blk s5" "rc s6 = (rc s5)(a := rc s5 a - 1)"
    "own s6 = (own s5)(a := None)" "disk s6 = disk s5" "dwrites s6 = dwrites s5" "io_step s5 s6" "slot s6 = slot s5"
    by (rule brelse_spec [OF ha]) (use nac in simp)
  have hc: "holds s6 bc c" by (rule holds_keep [OF v5(1) X(2)]) (use X ac in simp_all)
  obtain s7 where Y: "brelse bc s6 = Inr s7" "bc_ok s7" "blk s7 = blk s6" "rc s7 = (rc s6)(c := rc s6 c - 1)"
    "own s7 = (own s6)(c := None)" "disk s7 = disk s6" "dwrites s7 = dwrites s6" "io_step s6 s7"
    by (rule brelse_spec [OF hc]) (use X v5 v4 in simp_all)
  have run: "install_one recovering i s = Inr s7"
    using R(1,2) bs W(1) X(1) Y(1) dev io_step_log(5,7) [OF R(3)]
    by (simp add: install_one_def a_def [symmetric] c_def [symmetric] s5_def [symmetric])
  show thesis
  proof (rule that [OF run Y(2)])
    show "rc s7 = (if recovering then rc s else (rc s)(c := rc s c - 1))"
      using X(4) Y(4) v5(8) v4(2) R(7) ac ra by (auto simp: fun_eq_iff)
    show "own s7 = own s" using X(5) Y(5) v5(3) v4(3) R(8) ac free by (auto simp: fun_eq_iff)
    show "io_step s s7" using R(11) io4 v5(7) X(8) Y(8) by (meson io_step_trans)
  qed (use X Y v5 v4 in \<open>simp_all add: bs_def\<close>)
qed

lemma length_hdr_put [simp]:
  assumes "4 + 4 * nat n \<le> length d"
  shows "length (hdr_put n f d) = length d"
proof -
  have "length (fold (\<lambda>i. put32 (4 + 4 * i) (f i)) xs d') = length d'"
    if "\<forall>i \<in> set xs. 4 + 4 * i + 4 \<le> length d'" for xs and d' :: "byte list"
    using that by (induction xs arbitrary: d') simp_all
  then show ?thesis unfolding hdr_put_def using assms by simp
qed

lemma write_head_spec:
  fixes s :: "'a log_state_scheme"
  defines "h \<equiv> word_of_int (lg_start s)"
  assumes ok: "bc_ok s" and dev: "lg_dev s = ROOTDEV" and free: "own s h = None" and r: "rc s h = 0"
    and room: "card (in_use s) < NBUF" and n: "lg_n s \<le> LOGSIZE"
  obtains s' where "write_head s = Inr s'" "bc_ok s'"
    "blk s' = (blk s)(h := hdr_put (lg_n s) (lg_block s) (blk s h))" "rc s' = rc s" "own s' = own s"
    "disk s' = (disk s)(h := hdr_put (lg_n s) (lg_block s) (blk s h))"
    "dwrites s' = dwrites s @ [(h, hdr_put (lg_n s) (lg_block s) (blk s h))]" "io_step s s'"
proof -
  obtain b s1 where A: "bread ROOTDEV h s = Inr (b, s1)" "bc_ok s1" "slot s1 h = Some b" "b_data (bufs s1 b) = blk s h"
    "blk s1 = blk s" "rc s1 = (rc s)(h := rc s h + 1)" "own s1 = (own s)(h := Some (mypid s))"
    "disk s1 = disk s" "dwrites s1 = dwrites s" "io_step s s1"
    by (rule bread_spec [OF ok free]) (use room r in auto)
  have h1: "holds s1 b h" using A io_stepD(5) [OF A(10)] by (simp add: holds_def)
  define bs where "bs = hdr_put (lg_n s) (lg_block s) (blk s h)"
  have "length (blk s h) = BSIZE" using holdsD(6) [OF h1] A(4) by (simp add: buf_ok_def)
  then have len: "length bs = BSIZE" using n by (simp add: bs_def LOGSIZE_def MAXOPBLOCKS_def BSIZE_def)
  note D = set_data_spec [OF h1 len]
  define s2 where "s2 = disk_rw b True (set_data b bs s1)"
  note W = bwrite_spec [OF D(1), folded s2_def]
  obtain s3 where X: "brelse b s2 = Inr s3" "bc_ok s3" "blk s3 = blk s2" "rc s3 = (rc s2)(h := rc s2 h - 1)"
    "own s3 = (own s2)(h := None)" "disk s3 = disk s2" "dwrites s3 = dwrites s2" "io_step s2 s3"
    by (rule brelse_spec [OF W(2)]) (use W(3,6) D(2) in simp)
  have run: "write_head s = Inr s3"
    using A(1,4) W(1) X(1) dev io_step_log(6,7) [OF A(10)] by (simp add: write_head_def h_def [symmetric] bs_def)
  show thesis
  proof (rule that [OF run X(2)])
    show "rc s3 = rc s" using X(4) W(4) D(3) A(6) by (auto simp: fun_eq_iff)
    show "own s3 = own s" using X(5) W(5) D(4) A(7) free by (auto simp: fun_eq_iff)
    show "io_step s s3" using A(10) D(7) W(8) X(8) by (meson io_step_trans)
  qed (use X W D A in \<open>simp_all add: bs_def\<close>)
qed

lemma write_head_at:
  assumes "word_of_int (lg_start s) = h" "lg_n s = n" "lg_block s = f" "blk s h = d" "bc_ok s" "lg_dev s = ROOTDEV"
    "own s h = None" "rc s h = 0" "card (in_use s) < NBUF" "n \<le> LOGSIZE"
  shows "\<exists>s'. write_head s = Inr s' \<and> bc_ok s' \<and> blk s' = (blk s)(h := hdr_put n f d) \<and> rc s' = rc s \<and> own s' = own s \<and>
    disk s' = (disk s)(h := hdr_put n f d) \<and> dwrites s' = dwrites s @ [(h, hdr_put n f d)] \<and> io_step s s'"
proof -
  note h = assms(1)
  show ?thesis
    by (rule write_head_spec [of s, unfolded h assms(2-4), OF assms(5-10)]) blast
qed

section \<open>Sequences of writes\<close>

definition upds :: "(u32 \<times> byte list) list \<Rightarrow> (u32 \<Rightarrow> byte list) \<Rightarrow> u32 \<Rightarrow> byte list" where
  "upds ws f = fold (\<lambda>(a, v) g. g(a := v)) ws f"

lemma upds_simps [simp]:
  "upds [] f = f" "upds ((a, v) # ws) f = upds ws (f(a := v))" "upds (ws @ vs) f = upds vs (upds ws f)"
  by (simp_all add: upds_def)

lemma upds_other: "m \<notin> fst ` set ws \<Longrightarrow> upds ws f m = f m"
  by (induction ws arbitrary: f) auto

lemma upds_map:
  "distinct (map g xs) \<Longrightarrow> x \<in> set xs \<Longrightarrow> upds (map (\<lambda>i. (g i, v i)) xs) f (g x) = v x"
proof (induction xs arbitrary: f)
  case (Cons y xs)
  show ?case
  proof (cases "x = y")
    case True
    have "upds (map (\<lambda>i. (g i, v i)) xs) (f(g y := v y)) (g y) = (f(g y := v y)) (g y)"
      using Cons.prems(1) by (intro upds_other) auto
    then show ?thesis using True by simp
  next
    case False
    then show ?thesis using Cons by simp
  qed
qed simp

lemma foldM_append: "foldM f (xs @ ys) s = bnd (foldM f xs s) (foldM f ys)"
proof (induction xs arbitrary: s)
  case (Cons x xs)
  then show ?case by (cases "f x s") simp_all
qed simp

section \<open>A transaction ready to commit\<close>

definition logged :: "'a log_state_scheme \<Rightarrow> u32 list" where
  "logged s = map (lg_block s) [0..<nat (lg_n s)]"

definition log_area :: "'a log_state_scheme \<Rightarrow> u32 set" where
  "log_area s = word_of_int ` {lg_start s..<lg_start s + lg_size s}"

text \<open>
  The logged blocks are distinct, pinned and outside the log; the log itself is not in use; there
  is a buffer left to work with.
\<close>

definition geometry :: "'a log_state_scheme \<Rightarrow> bool" where
  "geometry s \<longleftrightarrow> lg_dev s = ROOTDEV \<and> 0 \<le> lg_start s \<and> lg_start s + lg_size s \<le> 2 ^ 32 \<and>
     0 \<le> lg_n s \<and> lg_n s \<le> LOGSIZE \<and> lg_n s < lg_size s \<and> set (logged s) \<inter> log_area s = {}"

definition tx_ready :: "'a log_state_scheme \<Rightarrow> bool" where
  "tx_ready s \<longleftrightarrow> bc_ok s \<and> geometry s \<and> distinct (logged s) \<and> card (in_use s) < NBUF \<and>
     (\<forall>m \<in> log_area s. rc s m = 0) \<and> (\<forall>m \<in> set (logged s). 0 < rc s m \<and> rc s m + 1 < 2 ^ 32) \<and>
     (\<forall>m \<in> log_area s \<union> set (logged s). own s m = None)"

lemma word_of_int_inj: "0 \<le> x \<Longrightarrow> x < 2 ^ 32 \<Longrightarrow> 0 \<le> y \<Longrightarrow> y < 2 ^ 32 \<Longrightarrow> (word_of_int x :: u32) = word_of_int y \<longleftrightarrow> x = y"
  by (simp add: word_of_int_eq_iff take_bit_int_eq_self)

lemma geometry_addr:
  assumes "geometry s" "i < nat (lg_size s - 1)"
  shows "log_addr s i \<in> log_area s" "log_addr s i \<noteq> word_of_int (lg_start s)"
    "j < nat (lg_size s - 1) \<Longrightarrow> log_addr s i = log_addr s j \<longleftrightarrow> i = j"
proof -
  have b: "0 \<le> lg_start s" "lg_start s + lg_size s \<le> 2 ^ 32" using assms(1) by (simp_all add: geometry_def)
  show "log_addr s i \<in> log_area s"
    unfolding log_addr_def log_area_def using assms(2) by (intro imageI) auto
  show "log_addr s i \<noteq> word_of_int (lg_start s)"
    unfolding log_addr_def using b assms(2) by (subst word_of_int_inj) auto
  show "log_addr s i = log_addr s j \<longleftrightarrow> i = j" if "j < nat (lg_size s - 1)"
    unfolding log_addr_def using b assms(2) that by (subst word_of_int_inj) auto
qed

lemma geometry_head: "geometry s \<Longrightarrow> word_of_int (lg_start s) \<in> log_area s"
  unfolding log_area_def by (intro imageI) (auto simp: geometry_def)

lemma geometry_block:
  assumes "geometry s" "i < nat (lg_n s)"
  shows "lg_block s i \<notin> log_area s" "i < nat (lg_size s - 1)" "lg_block s i \<in> set (logged s)"
proof -
  show m: "lg_block s i \<in> set (logged s)" using assms(2) by (simp add: logged_def)
  then show "lg_block s i \<notin> log_area s" using assms(1) by (auto simp: geometry_def)
  show "i < nat (lg_size s - 1)" using assms by (auto simp: geometry_def)
qed

text \<open>\<open>io_step\<close> keeps the log's own fields.\<close>

lemma io_step_geometry:
  assumes "io_step s s'"
  shows "log_addr s' = log_addr s" "logged s' = logged s" "geometry s' = geometry s" "log_area s' = log_area s"
  using io_step_log [OF assms] by (simp_all add: log_addr_def logged_def geometry_def log_area_def fun_eq_iff)

section \<open>The loops\<close>

lemma write_log_loop:
  assumes t: "tx_ready s" and k: "k \<le> nat (lg_n s)"
  defines "ws \<equiv> map (\<lambda>i. (log_addr s i, blk s (lg_block s i))) [0..<k]"
  shows "\<exists>s'. foldM write_log_one [0..<k] s = Inr s' \<and> bc_ok s' \<and> blk s' = upds ws (blk s) \<and> rc s' = rc s \<and>
    own s' = own s \<and> disk s' = upds ws (disk s) \<and> dwrites s' = dwrites s @ ws \<and> io_step s s'"
  using k unfolding ws_def
proof (induction k)
  case 0
  then show ?case using t by (simp add: tx_ready_def)
next
  case (Suc k)
  let ?ws = "map (\<lambda>i. (log_addr s i, blk s (lg_block s i))) [0..<k]"
  obtain s1 where 1: "foldM write_log_one [0..<k] s = Inr s1" "bc_ok s1" "blk s1 = upds ?ws (blk s)" "rc s1 = rc s"
      "own s1 = own s" "disk s1 = upds ?ws (disk s)" "dwrites s1 = dwrites s @ ?ws" "io_step s s1"
    using Suc by auto
  have g: "geometry s" using t by (simp add: tx_ready_def)
  have kn: "k < nat (lg_n s)" using Suc.prems by simp
  note b = geometry_block [OF g kn] and a = geometry_addr [OF g geometry_block(2) [OF g kn]]
  note l = io_step_log [OF 1(8)] io_step_geometry [OF 1(8)]
  have "lg_block s k \<notin> fst ` set ?ws"
    using b(1) geometry_addr(1) [OF g] geometry_block(2) [OF g] kn by auto
  then have c: "blk s1 (lg_block s k) = blk s (lg_block s k)" unfolding 1(3) by (rule upds_other)
  have in1: "in_use s1 = in_use s" by (simp add: in_use_def 1(4))
  have ne: "log_addr s k \<noteq> lg_block s k" using a(1) b(1) by auto
  obtain s2 where 2: "write_log_one k s1 = Inr s2" "bc_ok s2"
      "blk s2 = (blk s1)(log_addr s1 k := blk s1 (lg_block s1 k))" "rc s2 = rc s1" "own s2 = own s1"
      "disk s2 = (disk s1)(log_addr s1 k := blk s1 (lg_block s1 k))"
      "dwrites s2 = dwrites s1 @ [(log_addr s1 k, blk s1 (lg_block s1 k))]" "io_step s1 s2"
    by (rule write_log_one_spec [of s1 k])
      (use t g 1(2,4,5) l a(1) b(3) ne in1 in \<open>auto simp: tx_ready_def geometry_def\<close>)
  have "foldM write_log_one [0..<Suc k] s = Inr s2" using 1(1) 2(1) by (simp add: foldM_append)
  moreover have "io_step s s2" by (rule io_step_trans [OF 1(8) 2(8)])
  moreover have e: "map (\<lambda>i. (log_addr s i, blk s (lg_block s i))) [0..<Suc k] = ?ws @ [(log_addr s k, blk s (lg_block s k))]" by simp
  moreover have "blk s2 = upds (map (\<lambda>i. (log_addr s i, blk s (lg_block s i))) [0..<Suc k]) (blk s)"
    unfolding e upds_simps 1(3) [symmetric] 2(3) l c ..
  moreover have "disk s2 = upds (map (\<lambda>i. (log_addr s i, blk s (lg_block s i))) [0..<Suc k]) (disk s)"
    unfolding e upds_simps 1(6) [symmetric] 2(6) l c ..
  moreover have "dwrites s2 = dwrites s @ map (\<lambda>i. (log_addr s i, blk s (lg_block s i))) [0..<Suc k]"
    unfolding e 2(7) 1(7) l c by simp
  moreover have "own s2 = own s" "rc s2 = rc s" using 1(4,5) 2(4,5) by simp_all
  ultimately show ?case using 2(2) by blast
qed

lemma install_loop:
  assumes ok: "bc_ok s" and g: "geometry s" and d: "\<not> recovering \<Longrightarrow> distinct (logged s)"
    and room: "card (in_use s) + (if recovering then 1 else 0) < NBUF"
    and area: "\<And>m. m \<in> log_area s \<Longrightarrow> rc s m = 0"
    and free: "\<And>m. m \<in> log_area s \<union> set (logged s) \<Longrightarrow> own s m = None"
    and pin: "\<And>m. m \<in> set (logged s) \<Longrightarrow> rc s m + 1 < 2 ^ 32 \<and> (recovering \<or> 0 < rc s m)"
    and k: "k \<le> nat (lg_n s)"
  defines "ws \<equiv> map (\<lambda>i. (lg_block s i, blk s (log_addr s i))) [0..<k]"
  shows "\<exists>s'. foldM (install_one recovering) [0..<k] s = Inr s' \<and> bc_ok s' \<and> blk s' = upds ws (blk s) \<and>
    rc s' = (\<lambda>m. if \<not> recovering \<and> m \<in> lg_block s ` {..<k} then rc s m - 1 else rc s m) \<and>
    own s' = own s \<and> disk s' = upds ws (disk s) \<and> dwrites s' = dwrites s @ ws \<and> io_step s s'"
  using k unfolding ws_def
proof (induction k)
  case 0
  then show ?case using ok by simp
next
  case (Suc k)
  let ?ws = "map (\<lambda>i. (lg_block s i, blk s (log_addr s i))) [0..<k]"
  obtain s1 where 1: "foldM (install_one recovering) [0..<k] s = Inr s1" "bc_ok s1" "blk s1 = upds ?ws (blk s)"
      "rc s1 = (\<lambda>m. if \<not> recovering \<and> m \<in> lg_block s ` {..<k} then rc s m - 1 else rc s m)"
      "own s1 = own s" "disk s1 = upds ?ws (disk s)" "dwrites s1 = dwrites s @ ?ws" "io_step s s1"
    using Suc by auto
  have kn: "k < nat (lg_n s)" using Suc.prems by simp
  note b = geometry_block [OF g kn] and a = geometry_addr [OF g geometry_block(2) [OF g kn]]
  note l = io_step_log [OF 1(8)] io_step_geometry [OF 1(8)]
  have "log_addr s k \<notin> fst ` set ?ws" using a(1) geometry_block(1) [OF g] kn by auto
  then have c: "blk s1 (log_addr s k) = blk s (log_addr s k)" unfolding 1(3) by (rule upds_other)
  have "in_use s1 \<subseteq> in_use s" by (auto simp: in_use_def 1(4) split: if_splits)
  then have in1: "card (in_use s1) \<le> card (in_use s)" by (intro card_mono) simp_all
  have ne: "log_addr s k \<noteq> lg_block s k" using a(1) b(1) by auto
  have fresh: "lg_block s k \<notin> lg_block s ` {..<k}" if "\<not> recovering"
  proof
    have inj: "inj_on (lg_block s) {0..<nat (lg_n s)}" using d [OF that] by (simp add: logged_def distinct_map)
    assume "lg_block s k \<in> lg_block s ` {..<k}"
    then obtain j where "j < k" "lg_block s k = lg_block s j" by auto
    then show False using inj_onD [OF inj, of k j] kn by simp
  qed
  have rk: "rc s1 (lg_block s k) = rc s (lg_block s k)" unfolding 1(4) using fresh by auto
  have ra: "rc s1 (log_addr s k) = 0" unfolding 1(4) using area [OF a(1)] by simp
  obtain s2 where 2: "install_one recovering k s1 = Inr s2" "bc_ok s2"
      "blk s2 = (blk s1)(lg_block s1 k := blk s1 (log_addr s1 k))"
      "rc s2 = (if recovering then rc s1 else (rc s1)(lg_block s1 k := rc s1 (lg_block s1 k) - 1))"
      "own s2 = own s1" "disk s2 = (disk s1)(lg_block s1 k := blk s1 (log_addr s1 k))"
      "dwrites s2 = dwrites s1 @ [(lg_block s1 k, blk s1 (log_addr s1 k))]" "io_step s1 s2"
  proof (rule install_one_spec [of s1 k recovering])
    show "lg_dev s1 = ROOTDEV" using g l by (simp add: geometry_def)
    show "rc s1 (lg_block s1 k) > 0 \<or> card (in_use s1) + 1 < NBUF" using pin [OF b(3)] rk l in1 room by (cases recovering) auto
  qed (use 1(2,5) ne ra rk l a(1) b(3) free pin [OF b(3)] in1 room in auto)
  have "foldM (install_one recovering) [0..<Suc k] s = Inr s2" using 1(1) 2(1) by (simp add: foldM_append)
  moreover have "io_step s s2" by (rule io_step_trans [OF 1(8) 2(8)])
  moreover have "rc s2 = (\<lambda>m. if \<not> recovering \<and> m \<in> lg_block s ` {..<Suc k} then rc s m - 1 else rc s m)"
    using 2(4) 1(4) l rk by (auto simp: fun_eq_iff lessThan_Suc)
  moreover have e: "map (\<lambda>i. (lg_block s i, blk s (log_addr s i))) [0..<Suc k] = ?ws @ [(lg_block s k, blk s (log_addr s k))]" by simp
  moreover have "blk s2 = upds (map (\<lambda>i. (lg_block s i, blk s (log_addr s i))) [0..<Suc k]) (blk s)"
    unfolding e upds_simps 1(3) [symmetric] 2(3) l c ..
  moreover have "disk s2 = upds (map (\<lambda>i. (lg_block s i, blk s (log_addr s i))) [0..<Suc k]) (disk s)"
    unfolding e upds_simps 1(6) [symmetric] 2(6) l c ..
  moreover have "dwrites s2 = dwrites s @ map (\<lambda>i. (lg_block s i, blk s (log_addr s i))) [0..<Suc k]"
    unfolding e 2(7) 1(7) l c by simp
  moreover have "own s2 = own s" using 1(5) 2(5) by simp
  ultimately show ?case using 2(2) by blast
qed

section \<open>What a commit writes\<close>

text \<open>The disk writes of a commit in their order: log blocks, header, home blocks, empty header.\<close>

definition log_writes :: "'a log_state_scheme \<Rightarrow> (u32 \<times> byte list) list" where
  "log_writes s = map (\<lambda>i. (log_addr s i, blk s (lg_block s i))) [0..<nat (lg_n s)]"

definition home_writes :: "'a log_state_scheme \<Rightarrow> (u32 \<times> byte list) list" where
  "home_writes s = map (\<lambda>i. (lg_block s i, blk s (lg_block s i))) [0..<nat (lg_n s)]"

definition full_head :: "'a log_state_scheme \<Rightarrow> byte list" where
  "full_head s = hdr_put (lg_n s) (lg_block s) (disk s (word_of_int (lg_start s)))"

definition commit_writes :: "'a log_state_scheme \<Rightarrow> (u32 \<times> byte list) list" where
  "commit_writes s =
     log_writes s @ [(word_of_int (lg_start s), full_head s)] @
     home_writes s @ [(word_of_int (lg_start s), hdr_put 0 (lg_block s) (full_head s))]"

lemma tx_readyD:
  assumes "tx_ready s"
  shows "bc_ok s" "geometry s" "distinct (logged s)" "card (in_use s) < NBUF"
    "\<And>m. m \<in> log_area s \<Longrightarrow> rc s m = 0" "\<And>m. m \<in> set (logged s) \<Longrightarrow> 0 < rc s m \<and> rc s m + 1 < 2 ^ 32"
    "\<And>m. m \<in> log_area s \<union> set (logged s) \<Longrightarrow> own s m = None" "lg_dev s = ROOTDEV" "lg_n s \<le> LOGSIZE"
    "lg_start s \<ge> 0"
  using assms by (auto simp: tx_ready_def geometry_def)

lemma log_writes_fst: "geometry s \<Longrightarrow> fst ` set (log_writes s) \<subseteq> log_area s"
  using geometry_addr(1) [of s] geometry_block(2) [of s] by (auto simp: log_writes_def)

lemma home_writes_fst: "fst ` set (home_writes s) = set (logged s)"
  by (force simp: home_writes_def logged_def)

lemma log_writes_at:
  assumes "geometry s" "i < nat (lg_n s)"
  shows "upds (log_writes s) f (log_addr s i) = blk s (lg_block s i)"
proof -
  have "distinct (map (log_addr s) [0..<nat (lg_n s)])"
    using geometry_addr(3) [OF assms(1)] geometry_block(2) [OF assms(1)] by (auto simp: distinct_map inj_on_def)
  then show ?thesis unfolding log_writes_def using assms(2) by (intro upds_map) simp_all
qed

lemma home_writes_at:
  assumes "distinct (logged s)"
  shows "upds (home_writes s) f m = (if m \<in> set (logged s) then blk s m else f m)"
proof (cases "m \<in> set (logged s)")
  case True
  then obtain i where i: "i < nat (lg_n s)" "m = lg_block s i" by (auto simp: logged_def)
  have "upds (home_writes s) f (lg_block s i) = blk s (lg_block s i)"
    unfolding home_writes_def using assms i(1) by (intro upds_map [where v = "\<lambda>i. blk s (lg_block s i)"]) (simp_all add: logged_def)
  then show ?thesis using True i(2) by simp
next
  case False
  then show ?thesis using upds_other [of m "home_writes s"] by (simp add: home_writes_fst)
qed

lemma commit_spec:
  assumes t: "tx_ready s" and n: "lg_n s > 0"
  obtains s' where "commit s = Inr s'" "bc_ok s'" "dwrites s' = dwrites s @ commit_writes s"
    "disk s' = upds (commit_writes s) (disk s)" "blk s' = upds (commit_writes s) (blk s)" "own s' = own s"
    "rc s' = (\<lambda>m. if m \<in> set (logged s) then rc s m - 1 else rc s m)" "lg_n s' = 0" "lg_start s' = lg_start s"
    "lg_outstanding s' = lg_outstanding s" "lg_committing s' = lg_committing s"
proof -
  note T = tx_readyD [OF t]
  define h :: u32 where "h = word_of_int (lg_start s)"
  have hA: "h \<in> log_area s" unfolding h_def by (rule geometry_head [OF T(2)])
  obtain s1 where 1: "write_log s = Inr s1" "bc_ok s1" "blk s1 = upds (log_writes s) (blk s)" "rc s1 = rc s"
      "own s1 = own s" "disk s1 = upds (log_writes s) (disk s)" "dwrites s1 = dwrites s @ log_writes s" "io_step s s1"
    using write_log_loop [OF t le_refl] unfolding write_log_def log_writes_def by blast
  note l1 = io_step_log [OF 1(8)] io_step_geometry [OF 1(8)]
  have h1: "blk s1 h = disk s h"
  proof -
    have "h \<notin> fst ` set (log_writes s)"
    proof
      assume "h \<in> fst ` set (log_writes s)"
      then obtain i where i: "i < nat (lg_n s)" "h = log_addr s i" by (auto simp: log_writes_def)
      show False using geometry_addr(2) [OF T(2) geometry_block(2) [OF T(2) i(1)]] i(2) by (simp add: h_def)
    qed
    then show ?thesis using 1(3) blk_unused [OF T(5) [OF hA]] by (simp add: upds_other)
  qed
  have u1: "in_use s1 = in_use s" by (simp add: in_use_def 1(4))
  have p1: "word_of_int (lg_start s1) = h" "lg_n s1 = lg_n s" "lg_block s1 = lg_block s" "lg_dev s1 = ROOTDEV"
    "own s1 h = None" "rc s1 h = 0" "card (in_use s1) < NBUF" "lg_n s \<le> LOGSIZE"
    using l1 T(4,5,8,9) T(7) [of h] 1(4,5) hA u1 by (simp_all add: h_def)
  obtain s2 where 2: "write_head s1 = Inr s2" "bc_ok s2" "blk s2 = (blk s1)(h := full_head s)" "rc s2 = rc s1"
      "own s2 = own s1" "disk s2 = (disk s1)(h := full_head s)" "dwrites s2 = dwrites s1 @ [(h, full_head s)]" "io_step s1 s2"
    using write_head_at [OF p1(1-3) h1 1(2) p1(4-8)] unfolding full_head_def h_def [symmetric] by blast
  note l2 = io_step_log [OF 2(8)] io_step_geometry [OF 2(8)]
  have la: "blk s2 (log_addr s i) = blk s (lg_block s i)" if "i < nat (lg_n s)" for i
    using geometry_addr(2) [OF T(2) geometry_block(2) [OF T(2) that]] log_writes_at [OF T(2) that]
    by (simp add: 2(3) 1(3) h_def)
  have ws: "map (\<lambda>i. (lg_block s2 i, blk s2 (log_addr s2 i))) [0..<nat (lg_n s2)] = home_writes s"
    using la l1 l2 by (simp add: home_writes_def)
  have img: "lg_block s2 ` {..<nat (lg_n s2)} = set (logged s)" using l1 l2 by (auto simp: logged_def)
  have u2: "in_use s2 = in_use s" by (simp add: in_use_def 2(4) 1(4))
  obtain s3 where 3: "install_trans False s2 = Inr s3" "bc_ok s3" "blk s3 = upds (home_writes s) (blk s2)"
      "rc s3 = (\<lambda>m. if m \<in> set (logged s) then rc s2 m - 1 else rc s2 m)" "own s3 = own s2"
      "disk s3 = upds (home_writes s) (disk s2)" "dwrites s3 = dwrites s2 @ home_writes s" "io_step s2 s3"
    using install_loop [of s2 False, OF 2(2) _ _ _ _ _ _ le_refl] T 1(4,5) 2(4,5) l1 l2 u2
    unfolding install_trans_def ws img by auto
  have rc2: "rc s2 = rc s" using 1(4) 2(4) by simp
  note rc3 = 3(4) [unfolded rc2]
  define s4 where "s4 = s3\<lparr>lg_n := 0\<rparr>"
  note l3 = io_step_log [OF 3(8)] io_step_geometry [OF 3(8)]
  have v4: "bc_ok s4 = bc_ok s3" "blk s4 = blk s3" "rc s4 = rc s3" "own s4 = own s3" "in_use s4 = in_use s3"
    by (rule view_cong; simp add: s4_def)+
  have "in_use s3 \<subseteq> in_use s" by (auto simp: in_use_def rc3 split: if_splits)
  then have u3: "card (in_use s4) < NBUF" using card_mono [of "in_use s" "in_use s3"] T(4) v4(5) by simp
  have hn: "h \<notin> set (logged s)" using hA T(2) by (auto simp: geometry_def)
  have h4: "blk s4 h = full_head s" using hn v4(2) by (simp add: 3(3) 2(3) home_writes_at [OF T(3)])
  have s4: "lg_start s4 = lg_start s" "lg_dev s4 = ROOTDEV" "lg_n s4 = 0" "lg_block s4 = lg_block s"
    "lg_outstanding s4 = lg_outstanding s" "lg_committing s4 = lg_committing s"
    using l1 l2 l3 T(8) by (simp_all add: s4_def)
  have own4: "own s4 h = None" and rc4: "rc s4 h = 0"
    using v4 rc3 3(5) 2(5) 1(5) T(5) [OF hA] T(7) hA by simp_all
  have p4: "word_of_int (lg_start s4) = h" "bc_ok s4" "0 \<le> LOGSIZE"
    using s4(1) v4(1) 3(2) by (simp_all add: h_def LOGSIZE_def MAXOPBLOCKS_def)
  obtain s5 where 5: "write_head s4 = Inr s5" "bc_ok s5"
      "blk s5 = (blk s4)(h := hdr_put 0 (lg_block s) (full_head s))" "rc s5 = rc s4" "own s5 = own s4"
      "disk s5 = (disk s4)(h := hdr_put 0 (lg_block s) (full_head s))"
      "dwrites s5 = dwrites s4 @ [(h, hdr_put 0 (lg_block s) (full_head s))]" "io_step s4 s5"
    using write_head_at [OF p4(1) s4(3,4) h4 p4(2) s4(2) own4 rc4 u3 p4(3)] by blast
  have "commit s = Inr s5" using n 1(1) 2(1) 3(1) 5(1) by (simp add: commit_def s4_def)
  moreover have "disk s5 = upds (commit_writes s) (disk s)" "dwrites s5 = dwrites s @ commit_writes s"
    unfolding 5(6,7) commit_writes_def h_def [symmetric] upds_simps
    by (simp_all add: s4_def 3(6,7) 2(6,7) 1(6,7))
  moreover have "blk s5 = upds (commit_writes s) (blk s)"
    unfolding 5(3) commit_writes_def h_def [symmetric] upds_simps by (simp add: v4(2) 3(3) 2(3) 1(3))
  moreover have "own s5 = own s" "rc s5 = (\<lambda>m. if m \<in> set (logged s) then rc s m - 1 else rc s m)"
    using 5(4,5) v4 rc3 3(5) 2(5) 1(5) by simp_all
  ultimately show thesis using that 5(2) io_step_log [OF 5(8)] s4 by simp
qed

section \<open>The header\<close>

lemma fold_put32:
  assumes "4 + 4 * k \<le> length d"
  shows "length (fold (\<lambda>i. put32 (4 + 4 * i) (f i)) [0..<k] d) = length d"
    "get32 0 (fold (\<lambda>i. put32 (4 + 4 * i) (f i)) [0..<k] d) = get32 0 d"
    "j < k \<Longrightarrow> get32 (4 + 4 * j) (fold (\<lambda>i. put32 (4 + 4 * i) (f i)) [0..<k] d) = f j"
  using assms
proof (induction k)
  case (Suc k)
  {
    case 1
    then show ?case using Suc.IH(1) by simp
  next
    case 2
    then show ?case using Suc.IH(1,2) by (simp add: get32_put32_other)
  next
    case 3
    then show ?case using Suc.IH(1,3) by (cases "j = k") (simp_all add: get32_put32_other)
  }
qed simp_all

lemma hdr_put_head:
  assumes "0 \<le> n" "n \<le> LOGSIZE" "length d = BSIZE"
  shows "hdr_n (hdr_put n f d) = n" "i < nat n \<Longrightarrow> hdr_block (hdr_put n f d) i = f i"
proof -
  have b: "n \<le> 30" "length d = 1024" using assms by (simp_all add: LOGSIZE_def MAXOPBLOCKS_def BSIZE_def)
  have len: "4 + 4 * nat n \<le> length (put32 0 (word_of_int n) d)" using assms(1) b by simp
  have "sint (word_of_int n :: u32) = n" using assms(1) b by (simp add: int_word_sint)
  then show "hdr_n (hdr_put n f d) = n" using b by (simp add: hdr_n_def hdr_put_def fold_put32(2) [OF len])
  show "hdr_block (hdr_put n f d) i = f i" if "i < nat n"
    by (simp add: hdr_block_def hdr_put_def fold_put32(3) [OF len that])
qed

section \<open>Recovery\<close>

lemma read_head_spec:
  fixes s :: "'a log_state_scheme"
  defines "h \<equiv> word_of_int (lg_start s)"
  assumes ok: "bc_ok s" and dev: "lg_dev s = ROOTDEV" and free: "own s h = None" and r: "rc s h = 0"
    and room: "card (in_use s) < NBUF"
  obtains s' where "read_head s = Inr s'" "bc_ok s'" "blk s' = blk s" "rc s' = rc s" "own s' = own s"
    "disk s' = disk s" "dwrites s' = dwrites s" "lg_n s' = hdr_n (disk s h)" "lg_start s' = lg_start s" "lg_dev s' = lg_dev s"
    "\<And>i. i < nat (hdr_n (disk s h)) \<Longrightarrow> lg_block s' i = hdr_block (disk s h) i" "lg_outstanding s' = lg_outstanding s"
    "lg_size s' = lg_size s" "lg_committing s' = lg_committing s"
proof -
  obtain b s1 where A: "bread ROOTDEV h s = Inr (b, s1)" "bc_ok s1" "slot s1 h = Some b" "b_data (bufs s1 b) = blk s h"
    "blk s1 = blk s" "rc s1 = (rc s)(h := rc s h + 1)" "own s1 = (own s)(h := Some (mypid s))"
    "disk s1 = disk s" "dwrites s1 = dwrites s" "io_step s s1"
    by (rule bread_spec [OF ok free]) (use room r in auto)
  have bh: "blk s h = disk s h" by (rule blk_unused [OF r])
  let ?H = "disk s h"
  define s2 where "s2 = s1\<lparr>lg_n := hdr_n ?H, lg_block := (\<lambda>i. if i < nat (hdr_n ?H) then hdr_block ?H i else lg_block s1 i)\<rparr>"
  have v2: "bc_ok s2 = bc_ok s1" "blk s2 = blk s1" "rc s2 = rc s1" "own s2 = own s1" "slot s2 = slot s1"
    by (rule view_cong; simp add: s2_def)+
  have pid: "mypid s2 = mypid s1" "disk s2 = disk s1" "dwrites s2 = dwrites s1" by (simp_all add: s2_def mp_def myproc_def)
  have h2: "holds s2 b h" using A v2 pid io_stepD(5) [OF A(10)] by (simp add: holds_def)
  obtain s3 where X: "brelse b s2 = Inr s3" "bc_ok s3" "blk s3 = blk s2" "rc s3 = (rc s2)(h := rc s2 h - 1)"
    "own s3 = (own s2)(h := None)" "disk s3 = disk s2" "dwrites s3 = dwrites s2" "io_step s2 s3"
    by (rule brelse_spec [OF h2]) (use v2 pid A bh in simp)
  have run: "read_head s = Inr s3"
    using A(1,4) X(1) dev bh by (simp add: read_head_def h_def [symmetric] Let_def s2_def cong: if_cong)
  note l = io_step_log [OF X(8)] io_step_log [OF A(10)]
  show thesis
  proof (rule that [OF run X(2)])
    show "rc s3 = rc s" using X(4) v2 A(6) by (auto simp: fun_eq_iff)
    show "own s3 = own s" using X(5) v2 A(7) free by (auto simp: fun_eq_iff)
  qed (use X v2 pid A l in \<open>simp_all add: s2_def\<close>)
qed

lemma recover_spec:
  fixes s :: "'a log_state_scheme"
  defines "h \<equiv> word_of_int (lg_start s)"
  defines "n \<equiv> hdr_n (disk s h)"
  defines "ws \<equiv> map (\<lambda>i. (hdr_block (disk s h) i, disk s (log_addr s i))) [0..<nat n]"
  assumes ok: "bc_ok s" and dev: "lg_dev s = ROOTDEV" and none: "\<And>m. own s m = None" "\<And>m. rc s m = 0"
    and st: "0 \<le> lg_start s" "lg_start s + lg_size s \<le> 2 ^ 32" and n: "0 \<le> n" "n \<le> LOGSIZE" "n < lg_size s"
    and home: "\<And>i. i < nat n \<Longrightarrow> hdr_block (disk s h) i \<notin> log_area s"
  shows "\<exists>s' f. recover_from_log s = Inr s' \<and> bc_ok s' \<and> lg_n s' = 0 \<and> rc s' = rc s \<and> own s' = own s \<and>
    disk s' = (upds ws (disk s))(h := hdr_put 0 f (disk s h)) \<and> lg_start s' = lg_start s \<and>
    lg_outstanding s' = lg_outstanding s \<and> lg_committing s' = lg_committing s \<and> lg_dev s' = lg_dev s"
proof -
  have use0: "in_use s = {}" using none(2) by (simp add: in_use_def)
  then have room: "card (in_use s) < NBUF" by (simp add: NBUF_def)
  obtain s1 where 1: "read_head s = Inr s1" "bc_ok s1" "blk s1 = blk s" "rc s1 = rc s" "own s1 = own s"
    "disk s1 = disk s" "lg_n s1 = n" "lg_start s1 = lg_start s" "lg_dev s1 = lg_dev s"
    "\<And>i. i < nat n \<Longrightarrow> lg_block s1 i = hdr_block (disk s h) i" "lg_outstanding s1 = lg_outstanding s"
    "lg_committing s1 = lg_committing s" "lg_size s1 = lg_size s"
    by (rule read_head_spec [OF ok dev none room]) (auto simp: n_def h_def)
  have ar: "log_area s1 = log_area s" by (simp add: log_area_def 1)
  have lg: "set (logged s1) \<inter> log_area s1 = {}" using home by (auto simp: logged_def 1 ar)
  have g1: "geometry s1" using lg st n dev by (simp add: geometry_def 1)
  have la: "log_addr s1 = log_addr s" by (simp add: log_addr_def fun_eq_iff 1)
  have blk: "blk s1 = disk s" using blk_unused [OF none(2)] 1(3) by auto
  have ws: "map (\<lambda>i. (lg_block s1 i, blk s1 (log_addr s1 i))) [0..<nat (lg_n s1)] = ws"
    by (simp add: ws_def la blk 1)
  have use1: "in_use s1 = {}" using use0 by (simp add: in_use_def 1)
  obtain s2 where 2: "install_trans True s1 = Inr s2" "bc_ok s2" "blk s2 = upds ws (blk s1)" "rc s2 = rc s1"
      "own s2 = own s1" "disk s2 = upds ws (disk s1)" "io_step s1 s2"
    using install_loop [of s1 True, OF 1(2) g1 _ _ _ _ _ le_refl] none 1(4,5) use1
    unfolding install_trans_def ws by (auto simp: NBUF_def fun_eq_iff)
  note l2 = io_step_log [OF 2(7)]
  define s3 where "s3 = s2\<lparr>lg_n := 0\<rparr>"
  have v3: "bc_ok s3 = bc_ok s2" "blk s3 = blk s2" "rc s3 = rc s2" "own s3 = own s2" "in_use s3 = in_use s2"
    by (rule view_cong; simp add: s3_def)+
  have "h \<notin> fst ` set ws"
  proof
    assume "h \<in> fst ` set ws"
    then obtain i where i: "i < nat n" "h = hdr_block (disk s h) i" by (auto simp: ws_def)
    then show False using home [OF i(1)] geometry_head [OF g1] by (simp add: h_def 1(8) ar)
  qed
  then have h3: "blk s3 h = disk s h" using v3(2) 2(3) blk by (simp add: upds_other)
  have p3: "word_of_int (lg_start s3) = h" "lg_n s3 = 0" "lg_block s3 = lg_block s1" "bc_ok s3" "lg_dev s3 = ROOTDEV"
    "own s3 h = None" "rc s3 h = 0" "card (in_use s3) < NBUF" "0 \<le> LOGSIZE"
    using l2 v3 2 1 dev none use1
    by (simp_all add: s3_def h_def in_use_def NBUF_def LOGSIZE_def MAXOPBLOCKS_def)
  obtain s4 where 4: "write_head s3 = Inr s4" "bc_ok s4" "rc s4 = rc s3" "own s4 = own s3"
      "disk s4 = (disk s3)(h := hdr_put 0 (lg_block s1) (disk s h))" "io_step s3 s4"
    using write_head_at [OF p3(1-3) h3 p3(4-9)] by blast
  have "recover_from_log s = Inr s4" using 1(1) 2(1) 4(1) by (simp add: recover_from_log_def s3_def)
  moreover have "disk s3 = upds ws (disk s)" using 2(6) 1(6) by (simp add: s3_def)
  ultimately show ?thesis
    using 4 v3 2 1 io_step_log [OF 4(6)] l2 by (auto simp: s3_def)
qed

section \<open>Crashes\<close>

lemma full_head_fields:
  assumes "tx_ready s"
  shows "length (full_head s) = BSIZE" "hdr_n (full_head s) = lg_n s"
    "i < nat (lg_n s) \<Longrightarrow> hdr_block (full_head s) i = lg_block s i"
    "length (hdr_put 0 f (full_head s)) = BSIZE" "hdr_n (hdr_put 0 f (full_head s)) = 0"
proof -
  have d: "length (disk s h) = BSIZE" for h using assms by (simp add: tx_ready_def bc_ok_def)
  have n: "0 \<le> lg_n s" "lg_n s \<le> LOGSIZE" "(0 :: int) \<le> LOGSIZE"
    using assms by (simp_all add: tx_ready_def geometry_def)
  have small: "4 + 4 * nat (lg_n s) \<le> BSIZE" "(4 :: nat) \<le> BSIZE"
    using n(2) by (simp_all add: LOGSIZE_def MAXOPBLOCKS_def BSIZE_def)
  show l: "length (full_head s) = BSIZE" using small d by (simp add: full_head_def)
  show "hdr_n (full_head s) = lg_n s" unfolding full_head_def by (rule hdr_put_head(1) [OF n(1,2) d])
  show "hdr_block (full_head s) i = lg_block s i" if "i < nat (lg_n s)"
    unfolding full_head_def by (rule hdr_put_head(2) [OF n(1,2) d that])
  show "length (hdr_put 0 f (full_head s)) = BSIZE" using l small(2) by simp
  show "hdr_n (hdr_put 0 f (full_head s)) = 0" by (rule hdr_put_head(1) [OF _ n(3) l]) simp
qed

text \<open>What the disk holds after the first \<open>k\<close> writes of a commit.\<close>

lemma crash_disk:
  assumes t: "tx_ready s" and k: "k \<le> length (commit_writes s)"
  defines "h \<equiv> word_of_int (lg_start s)" and "N \<equiv> nat (lg_n s)" and "D \<equiv> upds (take k (commit_writes s)) (disk s)"
  shows "k \<le> N \<Longrightarrow> D h = disk s h" "k \<le> N \<Longrightarrow> m \<notin> log_area s \<Longrightarrow> D m = disk s m"
    "N < k \<Longrightarrow> k \<le> 2 * N + 1 \<Longrightarrow> D h = full_head s"
    "N < k \<Longrightarrow> k \<le> 2 * N + 1 \<Longrightarrow> i < N \<Longrightarrow> D (log_addr s i) = blk s (lg_block s i)"
    "N < k \<Longrightarrow> m \<notin> log_area s \<Longrightarrow> m \<notin> set (logged s) \<Longrightarrow> D m = disk s m"
    "2 * N + 1 < k \<Longrightarrow> D h = hdr_put 0 (lg_block s) (full_head s)"
    "2 * N + 1 < k \<Longrightarrow> m \<in> set (logged s) \<Longrightarrow> D m = blk s m"
proof -
  note T = tx_readyD [OF t]
  have hA: "h \<in> log_area s" unfolding h_def by (rule geometry_head [OF T(2)])
  have len: "length (log_writes s) = N" "length (home_writes s) = N" "length (commit_writes s) = 2 * N + 2"
    by (simp_all add: log_writes_def home_writes_def commit_writes_def N_def)
  have area: "m \<notin> log_area s \<Longrightarrow> m \<notin> fst ` set (log_writes s)" for m using log_writes_fst [OF T(2)] by auto
  have hl: "h \<notin> fst ` set (log_writes s)"
  proof
    assume "h \<in> fst ` set (log_writes s)"
    then obtain i where i: "i < nat (lg_n s)" "h = log_addr s i" by (auto simp: log_writes_def)
    show False using geometry_addr(2) [OF T(2) geometry_block(2) [OF T(2) i(1)]] i(2) by (simp add: h_def)
  qed
  have disj: "x \<in> log_area s \<Longrightarrow> x \<notin> fst ` set (home_writes s)" for x
    using T(2) by (auto simp: home_writes_fst geometry_def)
  have sub: "x \<notin> fst ` set ws \<Longrightarrow> x \<notin> fst ` set (take j ws)" for x j and ws :: "(u32 \<times> byte list) list"
    by (meson image_mono set_take_subset subsetD)
  have cw: "commit_writes s = log_writes s @ (h, full_head s) # home_writes s @ [(h, hdr_put 0 (lg_block s) (full_head s))]"
    by (simp add: commit_writes_def h_def)
  { assume "k \<le> N"
    then have D: "D = upds (take k (log_writes s)) (disk s)" by (simp add: D_def cw len)
    show "D h = disk s h" unfolding D by (rule upds_other [OF sub [OF hl]])
    show "D m = disk s m" if "m \<notin> log_area s"
      unfolding D by (rule upds_other [OF sub [OF area [OF that]]]) }
  have mid: "D = upds (take (k - N - 1) (home_writes s)) ((upds (log_writes s) (disk s))(h := full_head s))"
    if "N < k" "k \<le> 2 * N + 1"
  proof -
    have "k = N + Suc (k - N - 1)" using that(1) by simp
    then obtain j where j: "k = N + Suc j" by blast
    have "take k (commit_writes s) = log_writes s @ (h, full_head s) # take j (home_writes s)"
      using j that(2) by (simp add: cw len)
    then show ?thesis using j by (simp add: D_def)
  qed
  have fin: "D = (upds (home_writes s) ((upds (log_writes s) (disk s))(h := full_head s)))
      (h := hdr_put 0 (lg_block s) (full_head s))" if "2 * N + 1 < k"
  proof -
    have "take k (commit_writes s) = commit_writes s" using that k len(3) by simp
    then show ?thesis unfolding D_def cw by simp
  qed
  { assume n: "N < k" "k \<le> 2 * N + 1"
    show "D h = full_head s" unfolding mid [OF n] using upds_other [OF sub [OF disj [OF hA]]] by simp
    show "D (log_addr s i) = blk s (lg_block s i)" if "i < N"
    proof -
      have i: "i < nat (lg_n s)" using that by (simp add: N_def)
      note a = geometry_addr [OF T(2) geometry_block(2) [OF T(2) i]]
      show ?thesis unfolding mid [OF n]
        using upds_other [OF sub [OF disj [OF a(1)]]] log_writes_at [OF T(2) i] a(2) by (simp add: h_def)
    qed }
  show "D m = disk s m" if "N < k" "m \<notin> log_area s" "m \<notin> set (logged s)"
  proof (cases "k \<le> 2 * N + 1")
    case True
    have "m \<notin> fst ` set (home_writes s)" using that(3) by (simp add: home_writes_fst)
    then show ?thesis unfolding mid [OF that(1) True]
      using upds_other [OF sub] upds_other [OF area [OF that(2)]] that(2) hA by auto
  next
    case False
    have hm: "h \<noteq> m" using that(2) hA by auto
    then show ?thesis using fin False upds_other [OF area [OF that(2)]] that(3)
      by (simp add: home_writes_at [OF T(3)] hm [symmetric])
  qed
  { assume n: "2 * N + 1 < k"
    show "D h = hdr_put 0 (lg_block s) (full_head s)" unfolding fin [OF n] by simp
    show "D m = blk s m" if "m \<in> set (logged s)"
    proof -
      have "m \<noteq> h" using that hA T(2) by (auto simp: geometry_def)
      then show ?thesis unfolding fin [OF n] using that by (simp add: home_writes_at [OF T(3)])
    qed }
qed


text \<open>A state with one logged block, and the machine after a crash in the middle of its commit.\<close>

definition blank_log_state :: log_state where
  "blank_log_state = disk_state.extend blank_disk_state (log_state.fields 2 30 0 False ROOTDEV 1 (\<lambda>_. 100))"

lemma blank_log_fields [simp]:
  "bufs blank_log_state = (\<lambda>_. no_buf)" "disk blank_log_state = (\<lambda>_. replicate BSIZE 0)"
  "lg_start blank_log_state = 2" "lg_size blank_log_state = 30" "lg_n blank_log_state = 1" "lg_dev blank_log_state = ROOTDEV"
  "lg_block blank_log_state = (\<lambda>_. 100)"
  by (simp_all add: blank_log_state_def disk_state.extend_def log_state.fields_def blank_disk_state_def
      dev_state.extend_def disk_state.fields_def)

definition logged_buf :: "buf \<Rightarrow> buf" where
  "logged_buf x = x\<lparr>b_dev := ROOTDEV, b_blockno := 100, b_valid := True, b_refcnt := 1, b_data := replicate BSIZE 7\<rparr>"

definition one_logged :: log_state where
  "one_logged = put (binit blank_log_state) 0 (logged_buf (bufs (binit blank_log_state) 0))"

lemma blank_unused: "unused_bufs blank_log_state"
  by (simp add: unused_bufs_def no_buf_def)

lemma one_logged_installs:
  "installs (binit blank_log_state) 0 (logged_buf (bufs (binit blank_log_state) 0)) 100"
proof -
  note B = binit_spec [OF blank_unused]
  have "slot (binit blank_log_state) 100 = None"
    using binit_bufs [of _ blank_log_state] by (auto simp: slot_None same_buf_def no_buf_def ROOTDEV_def)
  moreover have "b_refcnt (bufs (binit blank_log_state) 0) = 0" "\<not> b_disk (bufs (binit blank_log_state) 0)"
    using binit_bufs [of 0 blank_log_state] by (simp_all add: same_buf_def no_buf_def NBUF_def)
  ultimately show ?thesis
    using B(1) by (simp add: installs_def logged_buf_def buf_ok_def NBUF_def)
qed

lemma binit_log [simp]: "lg_start (binit s) = lg_start s" "lg_n (binit s) = lg_n s" "lg_block (binit s) = lg_block s"
    "lg_dev (binit s) = lg_dev s" "lg_size (binit s) = lg_size s"
  by (simp_all add: binit_def fold_frame binit_one_def push_front_def Let_def set_next_def set_prev_def upd_buf_def)

lemma home_outside: "100 \<notin> log_area one_logged"
proof
  assume "100 \<in> log_area one_logged"
  then obtain x where x: "2 \<le> x" "x \<le> 32" "(word_of_int x :: u32) = word_of_int 100"
    by (auto simp: log_area_def one_logged_def)
  then show False using word_of_int_inj [of x 100] by simp
qed

lemma one_logged_ready: "tx_ready one_logged" "logged one_logged = [100]" "lg_start one_logged = 2" "lg_n one_logged = 1"
  "blk one_logged 100 = replicate BSIZE 7" "disk one_logged = (\<lambda>_. replicate BSIZE 0)"
proof -
  note i = one_logged_installs and B = binit_spec [OF blank_unused]
  note v = installs_views [OF i, folded one_logged_def]
  show f: "logged one_logged = [100]" "lg_start one_logged = 2" "lg_n one_logged = 1"
    "disk one_logged = (\<lambda>_. replicate BSIZE 0)"
    by (simp_all add: one_logged_def logged_def)
  show "blk one_logged 100 = replicate BSIZE 7" using v(3) by (simp add: logged_buf_def)
  have "sl_locked (b_lock (bufs (binit blank_log_state) 0)) = False"
    using binit_bufs [of 0 blank_log_state] by (simp add: same_buf_def initsleeplock_def NBUF_def)
  then have o: "own one_logged = (\<lambda>_. None)" using v(2) B(3) by (simp add: logged_buf_def fun_eq_iff)
  have r: "rc one_logged = (\<lambda>_. 0)(100 := 1)" using v(1) B(2) by (simp add: logged_buf_def)
  then have u: "in_use one_logged = {100}" by (auto simp: in_use_def)
  note a = home_outside
  have g: "geometry one_logged"
    using f a by (simp add: geometry_def one_logged_def LOGSIZE_def MAXOPBLOCKS_def)
  show "tx_ready one_logged"
    unfolding tx_ready_def using installs_ok [OF i, folded one_logged_def] g f o r u a by (auto simp: NBUF_def)
qed

definition small_sb :: superblock where
  "small_sb = \<lparr>sb_magic = 0x10203040, sb_size = 2000, sb_nblocks = 1900, sb_ninodes = 200, sb_nlog = 30,
     sb_logstart = 2, sb_inodestart = 32, sb_bmapstart = 83\<rparr>"

definition crashed :: log_state where
  "crashed = blank_log_state\<lparr>disk := upds (take 2 (commit_writes one_logged)) (disk one_logged)\<rparr>"


end
