(* ===== verification/LogOps.thy ===== *)
theory LogOps
  imports Log
begin

text \<open>
  Concurrent file-system calls and the log: any number of calls run \<open>begin_op\<close>, \<open>log_write\<close> and
  \<open>end_op\<close> in any interleaving, each writing at most \<open>MAXOPBLOCKS\<close> blocks as the comment in
  \<^verbatim>\<open>kernel/param.h\<close> demands.  The admission test of \<open>begin_op\<close> reserves enough space that the header
  never overflows.
\<close>

section \<open>What the block routines leave alone\<close>

lemma more_upd [simp]:
  "disk_state.more (set_next b c s) = disk_state.more s" "disk_state.more (set_prev b c s) = disk_state.more s"
  "disk_state.more (disk_rw b w s) = disk_state.more s"
  by (simp_all add: set_next_def set_prev_def disk_rw_def Let_def)

lemma more_list [simp]:
  "disk_state.more (push_front b s) = disk_state.more s" "disk_state.more (unlink_buf b s) = disk_state.more s"
  by (simp_all only: push_front_def unlink_buf_def Let_def more_upd)

lemma acquire_more: "block_acquire b s = Inr (c, s') \<Longrightarrow> disk_state.more s' = disk_state.more s"
  by (auto simp: block_acquire_def bnd_eq_Inr)

lemma bget_more: "bget d n s = Inr (b, s') \<Longrightarrow> disk_state.more s' = disk_state.more s"
  by (auto simp: bget_def bnd_eq_Inr simp del: bget_cached.simps bget_lru.simps split: option.splits dest!: acquire_more)

lemma bread_more:
  assumes "bread d n s = Inr (b, s')"
  shows "disk_state.more s' = disk_state.more s"
proof -
  from assms obtain c t where "bget d n s = Inr (c, t)" by (auto simp: bread_def bnd_eq_Inr)
  with assms show ?thesis using bget_more [of d n s c t] by (auto simp: bread_def split: if_splits)
qed

lemma brelse_more: "brelse b s = Inr s' \<Longrightarrow> disk_state.more s' = disk_state.more s"
  by (auto simp: brelse_def releasesleep_def Let_def split: if_splits)

lemma bwrite_more: "bwrite b s = Inr s' \<Longrightarrow> disk_state.more s' = disk_state.more s"
  by (auto simp: bwrite_def split: if_splits)

lemma pin_more [simp]:
  "disk_state.more (bpin b s) = disk_state.more s" "disk_state.more (bunpin b s) = disk_state.more s"
  "disk_state.more (set_data b bs s) = disk_state.more s"
  by (simp_all add: bpin_def bunpin_def set_data_def)

lemma more_log:
  "disk_state.more s' = disk_state.more s \<Longrightarrow> lg_n s' = lg_n s \<and> lg_outstanding s' = lg_outstanding s \<and>
    lg_committing s' = lg_committing s \<and> lg_size s' = lg_size s"
  by (cases s; cases s'; simp)

text \<open>The log's counters, apart from \<open>n\<close>, after a loop of block copies.\<close>

lemma foldM_more:
  assumes "\<And>x s s'. f x s = Inr s' \<Longrightarrow> disk_state.more s' = disk_state.more s" "foldM f xs s = Inr s'"
  shows "disk_state.more s' = disk_state.more s"
  using assms(2)
proof (induction xs arbitrary: s)
  case (Cons x xs)
  then obtain s1 where "f x s = Inr s1" "foldM f xs s1 = Inr s'" by (auto simp: bnd_eq_Inr)
  then show ?case using Cons.IH assms(1) by metis
qed simp

lemma one_more:
  "write_log_one i s = Inr s' \<Longrightarrow> disk_state.more s' = disk_state.more s"
  "install_one r i s = Inr s' \<Longrightarrow> disk_state.more s' = disk_state.more s"
  "write_head s = Inr s' \<Longrightarrow> disk_state.more s' = disk_state.more s"
  by (auto simp: write_log_one_def install_one_def write_head_def bnd_eq_Inr
      dest!: bread_more brelse_more bwrite_more split: if_splits)

lemma commit_counts:
  assumes "commit s = Inr s'"
  shows "lg_n s' \<le> 0" "lg_outstanding s' = lg_outstanding s" "lg_committing s' = lg_committing s" "lg_size s' = lg_size s"
proof -
  have "lg_n s' \<le> 0 \<and> lg_outstanding s' = lg_outstanding s \<and> lg_committing s' = lg_committing s \<and> lg_size s' = lg_size s"
  proof (cases "lg_n s > 0")
    case True
    with assms obtain s1 s2 s3 where c: "write_log s = Inr s1" "write_head s1 = Inr s2" "install_trans False s2 = Inr s3"
        "write_head (s3\<lparr>lg_n := 0\<rparr>) = Inr s'"
      by (auto simp: commit_def bnd_eq_Inr)
    have "disk_state.more s1 = disk_state.more s" "disk_state.more s3 = disk_state.more s2"
      using c(1,3) foldM_more one_more(1,2) unfolding write_log_def install_trans_def by metis+
    then show ?thesis
      using more_log [of s1 s] more_log [OF one_more(3) [OF c(2)]] more_log [of s3 s2] more_log [OF one_more(3) [OF c(4)]]
      by simp
  next
    case False
    with assms show ?thesis by (simp add: commit_def)
  qed
  then show "lg_n s' \<le> 0" "lg_outstanding s' = lg_outstanding s" "lg_committing s' = lg_committing s"
    "lg_size s' = lg_size s" by blast+
qed

section \<open>Interleaved calls\<close>

text \<open>\<open>u i\<close> is the number of blocks call \<open>i\<close> has logged, if it is between its \<open>begin_op\<close> and \<open>end_op\<close>.\<close>

type_synonym 'a opsys = "'a log_state_scheme \<times> (nat \<Rightarrow> nat option)"

inductive opstep :: "'a opsys \<Rightarrow> 'a opsys \<Rightarrow> bool" where
  op_begin: "u i = None \<Longrightarrow> begin_op s = Inr s' \<Longrightarrow> opstep (s, u) (s', u(i := Some 0))"
| op_write: "u i = Some c \<Longrightarrow> int c < MAXOPBLOCKS \<Longrightarrow> log_write b s = Inr s' \<Longrightarrow> opstep (s, u) (s', u(i := Some (Suc c)))"
| op_end: "u i = Some c \<Longrightarrow> end_op s = Inr s' \<Longrightarrow> opstep (s, u) (s', u(i := None))"

inductive opreach :: "'a log_state_scheme \<Rightarrow> 'a opsys \<Rightarrow> bool" for s0 :: "'a log_state_scheme" where
  opreach_init: "opreach s0 (s0, \<lambda>_. None)"
| opreach_step: "opreach s0 x \<Longrightarrow> opstep x y \<Longrightarrow> opreach s0 y"

text \<open>Space still promised to the running calls.\<close>

definition promised :: "(nat \<Rightarrow> nat option) \<Rightarrow> int" where
  "promised u = (\<Sum>i \<in> dom u. MAXOPBLOCKS - int (the (u i)))"

definition op_inv :: "'a opsys \<Rightarrow> bool" where
  "op_inv x \<longleftrightarrow> (case x of (s, u) \<Rightarrow> finite (dom u) \<and> lg_outstanding s = int (card (dom u)) \<and> \<not> lg_committing s \<and>
     (\<forall>i c. u i = Some c \<longrightarrow> int c \<le> MAXOPBLOCKS) \<and> lg_n s + promised u \<le> LOGSIZE)"

lemma promised_upd:
  assumes "finite (dom u)"
  shows "u i = None \<Longrightarrow> promised (u(i := Some c)) = promised u + (MAXOPBLOCKS - int c)"
    "u i = Some c \<Longrightarrow> promised (u(i := Some c')) = promised u - (int c' - int c)"
    "u i = Some c \<Longrightarrow> promised (u(i := None)) = promised u - (MAXOPBLOCKS - int c)"
proof -
  have rest: "(\<Sum>j \<in> dom u - {i}. MAXOPBLOCKS - int (the ((u(i := v)) j))) = (\<Sum>j \<in> dom u - {i}. MAXOPBLOCKS - int (the (u j)))" for v
    by (rule sum.cong) auto
  have split: "promised u = (MAXOPBLOCKS - int c) + (\<Sum>j \<in> dom u - {i}. MAXOPBLOCKS - int (the (u j)))" if "u i = Some c" for c
    unfolding promised_def using that assms by (subst sum.remove [of _ i]) auto
  show "promised (u(i := Some c)) = promised u + (MAXOPBLOCKS - int c)" if "u i = None"
  proof -
    have e: "promised (u(i := Some c)) = (MAXOPBLOCKS - int c) + (\<Sum>j \<in> dom u. MAXOPBLOCKS - int (the ((u(i := Some c)) j)))"
      unfolding promised_def using that assms by (simp add: sum.insert domIff)
    have "(\<Sum>j \<in> dom u. MAXOPBLOCKS - int (the ((u(i := Some c)) j))) = promised u"
      unfolding promised_def by (rule sum.cong) (use that in auto)
    with e show ?thesis by linarith
  qed
  show "promised (u(i := Some c')) = promised u - (int c' - int c)" if "u i = Some c"
  proof -
    have "promised (u(i := Some c')) = (MAXOPBLOCKS - int c') + (\<Sum>j \<in> dom u - {i}. MAXOPBLOCKS - int (the ((u(i := Some c')) j)))"
      unfolding promised_def using assms by (simp add: sum.insert_remove)
    then show ?thesis using split [OF that] rest by simp
  qed
  show "promised (u(i := None)) = promised u - (MAXOPBLOCKS - int c)" if "u i = Some c"
  proof -
    have "dom (u(i := None)) = dom u - {i}" by auto
    then have "promised (u(i := None)) = (\<Sum>j \<in> dom u - {i}. MAXOPBLOCKS - int (the ((u(i := None)) j)))"
      unfolding promised_def by simp
    then show ?thesis using split [OF that] rest by simp
  qed
qed

lemma find_logged_bound: "i \<le> find_logged m k i s \<and> find_logged m k i s \<le> i + k"
  by (induction m k i s rule: find_logged.induct) auto

lemma log_write_counts:
  assumes "log_write b s = Inr s'"
  shows "lg_n s' = lg_n s \<or> lg_n s' = lg_n s + 1" "lg_outstanding s' = lg_outstanding s"
    "lg_committing s' = lg_committing s" "lg_size s' = lg_size s"
  using assms by (auto simp: log_write_def Let_def bpin_def upd_buf_def split: if_splits)

lemma end_op_counts:
  assumes "end_op s = Inr s'"
  shows "lg_outstanding s' = lg_outstanding s - 1" "\<not> lg_committing s'" "lg_size s' = lg_size s"
    "lg_outstanding s = 1 \<and> lg_n s' \<le> 0 \<or> lg_outstanding s \<noteq> 1 \<and> lg_n s' = lg_n s"
proof -
  have w: "lg_n (wakeup ch t) = lg_n t" "lg_outstanding (wakeup ch t) = lg_outstanding t"
    "lg_committing (wakeup ch t) = lg_committing t" "lg_size (wakeup ch t) = lg_size t" for ch and t :: "'a log_state_scheme"
    by (simp_all add: wakeup_eq)
  have "lg_outstanding s' = lg_outstanding s - 1 \<and> \<not> lg_committing s' \<and> lg_size s' = lg_size s \<and>
    (lg_outstanding s = 1 \<and> lg_n s' \<le> 0 \<or> lg_outstanding s \<noteq> 1 \<and> lg_n s' = lg_n s)"
  proof (cases "lg_outstanding s = 1")
    case True
    then obtain t where "commit (s\<lparr>lg_outstanding := 0, lg_committing := True\<rparr>) = Inr t"
        "s' = wakeup ChLog (t\<lparr>lg_committing := False\<rparr>)"
      using assms by (auto simp: end_op_def Let_def bnd_eq_Inr split: if_splits)
    with commit_counts [OF this(1)] True show ?thesis by (simp add: w)
  next
    case False
    then show ?thesis using assms by (auto simp: end_op_def Let_def w split: if_splits)
  qed
  then show "lg_outstanding s' = lg_outstanding s - 1" "\<not> lg_committing s'" "lg_size s' = lg_size s"
    "lg_outstanding s = 1 \<and> lg_n s' \<le> 0 \<or> lg_outstanding s \<noteq> 1 \<and> lg_n s' = lg_n s"
    by blast+
qed

lemma op_inv_step:
  assumes "opstep x y" "op_inv x"
  shows "op_inv y"
  using assms
proof (cases rule: opstep.cases)
  case (op_begin u i s s')
  have fin: "finite (dom u)" using assms(2) op_begin by (simp add: op_inv_def)
  have s': "s' = s\<lparr>lg_outstanding := lg_outstanding s + 1\<rparr>" "\<not> lg_committing s"
    "lg_n s + (lg_outstanding s + 1) * MAXOPBLOCKS \<le> LOGSIZE"
    using op_begin(4) by (auto simp: begin_op_def split: if_splits)
  have le: "MAXOPBLOCKS - int (the (u j)) \<le> MAXOPBLOCKS" for j by simp
  have "promised u \<le> int (card (dom u)) * MAXOPBLOCKS"
    unfolding promised_def using sum_bounded_above [of "dom u" "\<lambda>j. MAXOPBLOCKS - int (the (u j))" MAXOPBLOCKS] le
    by simp
  then have "lg_n s + (promised u + MAXOPBLOCKS) \<le> LOGSIZE"
    using s'(3) assms(2) op_begin by (simp add: op_inv_def algebra_simps)
  then show ?thesis
    using assms(2) op_begin s' fin promised_upd(1) [OF fin op_begin(3), of 0]
    by (auto simp: op_inv_def card_insert_if domIff MAXOPBLOCKS_def)
next
  case (op_write u i c b s s')
  have fin: "finite (dom u)" using assms(2) op_write by (simp add: op_inv_def)
  have dom: "insert i (dom u) = dom u" using op_write(3) by auto
  note p = promised_upd(2) [OF fin op_write(3), of "Suc c"] and l = log_write_counts [OF op_write(5)]
  show ?thesis using assms(2) op_write(1-4) p l by (auto simp: op_inv_def dom)
next
  case (op_end u i c s s')
  have fin: "finite (dom u)" using assms(2) op_end by (simp add: op_inv_def)
  have c: "int c \<le> MAXOPBLOCKS" using assms(2) op_end by (auto simp: op_inv_def)
  note e = end_op_counts [OF op_end(4)] and p = promised_upd(3) [OF fin op_end(3)]
  have "i \<in> dom u" using op_end(3) by auto
  then have cd: "card (dom u - {i}) = card (dom u) - 1" "0 < card (dom u)" using fin by (auto simp: card_gt_0_iff)
  have "lg_n s' + promised (u(i := None)) \<le> LOGSIZE"
  proof (cases "lg_outstanding s = 1")
    case True
    then have "card (dom u - {i}) = 0" using assms(2) op_end(1) cd by (simp add: op_inv_def)
    then have "dom (u(i := None)) = {}" using fin by simp
    then have "promised (u(i := None)) = 0" unfolding promised_def by (simp only: sum.empty)
    then show ?thesis using e(4) True by (simp add: LOGSIZE_def MAXOPBLOCKS_def)
  next
    case False
    then show ?thesis using e(4) p c assms(2) op_end(1) by (simp add: op_inv_def)
  qed
  then show ?thesis using assms(2) op_end(1,2) e(1,2) cd fin by (auto simp: op_inv_def split: if_splits)
qed

section \<open>What is reserved\<close>

definition fresh_log :: "'a log_state_scheme \<Rightarrow> bool" where
  "fresh_log s \<longleftrightarrow> lg_n s = 0 \<and> lg_outstanding s = 0 \<and> \<not> lg_committing s"

lemma op_inv_reach: "opreach s0 x \<Longrightarrow> fresh_log s0 \<Longrightarrow> op_inv x"
proof (induction rule: opreach.induct)
  case opreach_init
  then show ?case by (simp add: op_inv_def fresh_log_def promised_def LOGSIZE_def MAXOPBLOCKS_def)
next
  case (opreach_step x y)
  then show ?case using op_inv_step by blast
qed


definition big_log :: log_state where
  "big_log = blank_log_state\<lparr>lg_n := 0, lg_size := 31, lg_outstanding := 0, lg_committing := False\<rparr>"


section \<open>The last block of the log\<close>

text \<open>
  The file-system image gives the log exactly \<open>LOGSIZE\<close> blocks, one of which is the header, so that the
  test against \<^verbatim>\<open>log.size - 1\<close> in \<open>log_write\<close> fails one block before the reservation of \<open>begin_op\<close> is
  used up.
\<close>

lemma find_logged_absent:
  "\<forall>j. i \<le> j \<and> j < i + k \<longrightarrow> lg_block s j \<noteq> n \<Longrightarrow> find_logged n k i s = i + k"
  by (induction n k i s rule: find_logged.induct) auto

text \<open>The shares of three calls after \<open>k\<close> blocks, logged one call after the other.\<close>

definition shares :: "nat \<Rightarrow> nat \<Rightarrow> nat option" where
  "shares k i = (if i < 3 then Some (min 10 (k - 10 * i)) else None)"

lemma shares_step:
  "k < 30 \<Longrightarrow> shares k (k div 10) = Some (k mod 10)"
  "k < 30 \<Longrightarrow> (shares k)(k div 10 := Some (Suc (k mod 10))) = shares (Suc k)"
proof -
  assume k: "k < 30"
  then have i: "k div 10 < 3" by auto
  have m: "k - 10 * (k div 10) = k mod 10" by (simp add: modulo_nat_def)
  show "shares k (k div 10) = Some (k mod 10)" using i m by (simp add: shares_def)
  show "(shares k)(k div 10 := Some (Suc (k mod 10))) = shares (Suc k)"
  proof
    fix j
    show "((shares k)(k div 10 := Some (Suc (k mod 10)))) j = shares (Suc k) j"
      using i by (auto simp: shares_def min_def; presburger)
  qed
qed

lemma three_calls:
  assumes "fresh_log s0" shows "opreach s0 (s0\<lparr>lg_outstanding := 3\<rparr>, shares 0)"
proof -
  have b: "begin_op (s0\<lparr>lg_outstanding := n\<rparr>) = Inr (s0\<lparr>lg_outstanding := n + 1\<rparr>)" if "n \<in> {0, 1, 2}" for n
    using that assms by (auto simp: begin_op_def fresh_log_def LOGSIZE_def MAXOPBLOCKS_def)
  have z: "s0\<lparr>lg_outstanding := 0\<rparr> = s0" using assms by (cases s0) (simp add: fresh_log_def)
  have e: "((\<lambda>_. None)(0 := Some 0, 1 := Some 0, 2 := Some 0)) = shares 0"
    by (rule ext) (auto simp: shares_def)
  have "opreach s0 (s0\<lparr>lg_outstanding := 0 + 1\<rparr>, (\<lambda>_. None)(0 := Some 0))"
    by (rule opreach_step [OF opreach_init op_begin]) (use b [of 0] z in simp_all)
  then have "opreach s0 (s0\<lparr>lg_outstanding := 1 + 1\<rparr>, (\<lambda>_. None)(0 := Some 0, 1 := Some 0))"
    by (rule opreach_step [OF _ op_begin]) (use b [of 1] in simp_all)
  then have "opreach s0 (s0\<lparr>lg_outstanding := 2 + 1\<rparr>, (\<lambda>_. None)(0 := Some 0, 1 := Some 0, 2 := Some 0))"
    by (rule opreach_step [OF _ op_begin]) (use b [of 2] in simp_all)
  then show ?thesis unfolding e by simp
qed

lemma calls_fill_log:
  assumes "fresh_log s0" "lg_size s0 = LOGSIZE" "inj_on (\<lambda>b. b_blockno (bufs s0 b)) {..<NBUF}" "k < 30"
  shows "\<exists>s. opreach s0 (s, shares k) \<and> lg_n s = int k \<and> lg_size s = LOGSIZE \<and> lg_outstanding s = 3 \<and>
    (\<forall>b. b_blockno (bufs s b) = b_blockno (bufs s0 b)) \<and> (\<forall>j < k. lg_block s j = b_blockno (bufs s0 j))"
  using assms(4)
proof (induction k)
  case 0
  then show ?case using three_calls [OF assms(1)] assms(1,2)
    by (intro exI [of _ "s0\<lparr>lg_outstanding := 3\<rparr>"]) (simp add: fresh_log_def)
next
  case (Suc k)
  then obtain s where s: "opreach s0 (s, shares k)" "lg_n s = int k" "lg_size s = LOGSIZE" "lg_outstanding s = 3"
      "\<forall>b. b_blockno (bufs s b) = b_blockno (bufs s0 b)" "\<forall>j < k. lg_block s j = b_blockno (bufs s0 j)"
    by auto
  have new: "lg_block s j \<noteq> b_blockno (bufs s0 k)" if "j < k" for j
    using that s(6) Suc.prems inj_on_eq_iff [OF assms(3), of j k] by (simp add: NBUF_def)
  then have f: "find_logged (b_blockno (bufs s k)) (nat (lg_n s)) 0 s = k"
    using find_logged_absent [of 0 k s "b_blockno (bufs s0 k)"] s(2,5) by simp
  let ?s = "(bpin k (s\<lparr>lg_block := (lg_block s)(k := b_blockno (bufs s k))\<rparr>))\<lparr>lg_n := lg_n s + 1\<rparr>"
  have "log_write k s = Inr ?s" using s(2-4) f Suc.prems by (simp add: log_write_def LOGSIZE_def MAXOPBLOCKS_def Let_def)
  then have "opreach s0 (?s, (shares k)(k div 10 := Some (Suc (k mod 10))))"
    using s(1) shares_step(1) [of k] Suc.prems
    by (intro opreach_step [OF s(1) op_write]) (simp_all add: MAXOPBLOCKS_def)
  then show ?case using s Suc.prems shares_step(2) [of k]
    by (intro exI [of _ ?s]) (auto simp: bpin_def upd_buf_def less_Suc_eq)
qed

text \<open>C34: With the log area of the file-system image, \<open>LOGSIZE\<close> blocks, the admission test lets in too
  much: from an empty log three calls are admitted and can log different blocks, none of them more
  than \<open>MAXOPBLOCKS\<close>, until one of them panics within its share.\<close>

theorem log_overcommits:
  assumes "fresh_log s0" "lg_size s0 = LOGSIZE" "inj_on (\<lambda>b. b_blockno (bufs s0 b)) {..<NBUF}"
  shows "\<exists>s u i c. opreach s0 (s, u) \<and> u i = Some c \<and> int c < MAXOPBLOCKS \<and>
    log_write b s = panic ''too big a transaction''"
proof -
  obtain s where "opreach s0 (s, shares 29)" "lg_n s = 29" "lg_size s = LOGSIZE"
    using calls_fill_log [OF assms, of 29] by auto
  moreover have "shares 29 2 = Some 9" by (simp add: shares_def)
  ultimately show ?thesis by (intro exI [of _ s] exI [of _ "shares 29"] exI [of _ 2] exI [of _ 9])
    (simp add: MAXOPBLOCKS_def LOGSIZE_def log_write_def)
qed
definition image_log :: log_state where
  "image_log = blank_log_state\<lparr>lg_n := 0, lg_size := 30, lg_outstanding := 0, lg_committing := False,
     bufs := \<lambda>b. (bufs blank_log_state b)\<lparr>b_blockno := of_nat b\<rparr>\<rparr>"

theorem log_overcommits_witness:
  "\<exists>s u i c. opreach image_log (s, u) \<and> u i = Some c \<and> int c < MAXOPBLOCKS \<and>
    log_write 0 s = panic ''too big a transaction''"
proof -
  have "fresh_log image_log" "lg_size image_log = LOGSIZE"
    by (simp_all add: fresh_log_def image_log_def LOGSIZE_def MAXOPBLOCKS_def)
  moreover have "inj_on (\<lambda>b. b_blockno (bufs image_log b)) {..<NBUF}"
    by (auto simp: inj_on_def image_log_def NBUF_def of_nat_inverse word_of_nat_eq_iff take_bit_nat_eq_self)
  ultimately show ?thesis by (rule log_overcommits)
qed
end
