(* ===== verification/Fs.thy ===== *)
theory Fs
  imports LogOps
begin

text \<open>
  The file system, \<^verbatim>\<open>kernel/fs.c\<close> and \<^verbatim>\<open>kernel/fs.h\<close>: the block allocator, inodes and the table of inodes in
  use, the contents of files, directories and path names.  Inodes are named by their index in
  \<^verbatim>\<open>itable.inode\<close>, null pointers are \<open>None\<close>.  \<^verbatim>\<open>itable.lock\<close> makes \<open>iget\<close>, \<open>idup\<close> and the test in \<open>iput\<close>
  one step.  A path or a name is its list of bytes without the terminating zero.  The buffer a
  routine passes for data inside the kernel is either a physical address or a local variable; the
  contents of the latter are a value.
\<close>

unbundle bit_operations_syntax

section \<open>The format of the disk\<close>

definition ROOTINO :: u32 where "ROOTINO = 1"
definition FSMAGIC :: u32 where "FSMAGIC = 0x10203040"
definition NDIRECT :: nat where "NDIRECT = 60"
definition NINDIRECT :: nat where "NINDIRECT = BSIZE div 4"
definition MAXFILE :: nat where "MAXFILE = NDIRECT + NINDIRECT"
definition DIRSIZ :: nat where "DIRSIZ = 14"
definition BPB :: nat where "BPB = BSIZE * 8"
definition T_DIR :: u16 where "T_DIR = 1"
definition T_FILE :: u16 where "T_FILE = 2"
definition T_DEVICE :: u16 where "T_DEVICE = 3"
definition NINODE :: nat where "NINODE = 50"

record dinode =
  d_type :: u16
  d_major :: u16
  d_minor :: u16
  d_nlink :: u16
  d_size :: u32
  d_addrs :: "u32 list"

definition dinode_size :: nat where "dinode_size = 256"
definition IPB :: nat where "IPB = BSIZE div dinode_size"

definition get_dinode :: "nat \<Rightarrow> byte list \<Rightarrow> dinode" where
  "get_dinode off d =
     \<lparr>d_type = get16 off d, d_major = get16 (off + 2) d, d_minor = get16 (off + 4) d, d_nlink = get16 (off + 6) d,
      d_size = get32 (off + 8) d, d_addrs = map (\<lambda>i. get32 (off + 12 + 4 * i) d) [0..<Suc NDIRECT]\<rparr>"

definition put_dinode :: "nat \<Rightarrow> dinode \<Rightarrow> byte list \<Rightarrow> byte list" where
  "put_dinode off i d =
     put_bytes (off + 12) (concat (map (le_bytes 4) (d_addrs i)))
       (put32 (off + 8) (d_size i) (put16 (off + 6) (d_nlink i) (put16 (off + 4) (d_minor i)
         (put16 (off + 2) (d_major i) (put16 off (d_type i) d)))))"

definition get_superblock :: "byte list \<Rightarrow> superblock" where
  "get_superblock d =
     \<lparr>sb_magic = get32 0 d, sb_size = get32 4 d, sb_nblocks = get32 8 d, sb_ninodes = get32 12 d, sb_nlog = get32 16 d,
      sb_logstart = get32 20 d, sb_inodestart = get32 24 d, sb_bmapstart = get32 28 d\<rparr>"

section \<open>The state\<close>

record inode =
  i_dev :: u32
  i_inum :: u32
  i_ref :: int
  i_lock :: sleeplock
  i_valid :: bool
  i_type :: u16
  i_major :: u16
  i_minor :: u16
  i_nlink :: u16
  i_size :: u32
  i_addrs :: "u32 list"

record fs_state = log_state +
  sb :: superblock
  inodes :: "nat \<Rightarrow> inode"

definition upd_inode :: "nat \<Rightarrow> (inode \<Rightarrow> inode) \<Rightarrow> 'a fs_state_scheme \<Rightarrow> 'a fs_state_scheme" where
  "upd_inode ip f s = s\<lparr>inodes := (inodes s)(ip := f (inodes s ip))\<rparr>"

definition IBLOCK :: "u32 \<Rightarrow> 'a fs_state_scheme \<Rightarrow> u32" where
  "IBLOCK i s = i div of_nat IPB + sb_inodestart (sb s)"

definition BBLOCK :: "u32 \<Rightarrow> 'a fs_state_scheme \<Rightarrow> u32" where
  "BBLOCK b s = b div of_nat BPB + sb_bmapstart (sb s)"

definition dinode_off :: "u32 \<Rightarrow> nat" where
  "dinode_off inum = unat inum mod IPB * dinode_size"

section \<open>Start and blocks\<close>

definition readsb :: "u32 \<Rightarrow> 'a fs_state_scheme \<Rightarrow> 'a fs_state_scheme res" where
  "readsb dev s = bnd (bread dev 1 s) (\<lambda>(bp, s). brelse bp (s\<lparr>sb := get_superblock (b_data (bufs s bp))\<rparr>))"

definition fsinit :: "u32 \<Rightarrow> 'a fs_state_scheme \<Rightarrow> 'a fs_state_scheme res" where
  "fsinit dev s =
     bnd (readsb dev s) (\<lambda>s.
       if sb_magic (sb s) \<noteq> FSMAGIC then panic ''invalid file system'' else initlog dev (sb s) s)"

text \<open>\<open>log_write\<close> followed by \<open>brelse\<close>, as every change of a block ends.\<close>

definition log_brelse :: "nat \<Rightarrow> 'a fs_state_scheme \<Rightarrow> 'a fs_state_scheme res" where
  "log_brelse bp s = bnd (log_write bp s) (\<lambda>s. brelse bp s)"

definition bzero :: "u32 \<Rightarrow> u32 \<Rightarrow> 'a fs_state_scheme \<Rightarrow> 'a fs_state_scheme res" where
  "bzero dev bno s = bnd (bread dev bno s) (\<lambda>(bp, s). log_brelse bp (set_data bp (replicate BSIZE 0) s))"

definition block_bit :: "byte list \<Rightarrow> nat \<Rightarrow> bool" where
  "block_bit d bi = bit (d ! (bi div 8)) (bi mod 8)"

definition mark_bit :: "nat \<Rightarrow> byte list \<Rightarrow> byte list" where
  "mark_bit bi d = d[bi div 8 := d ! (bi div 8) OR push_bit (bi mod 8) 1]"

definition clear_bit :: "nat \<Rightarrow> byte list \<Rightarrow> byte list" where
  "clear_bit bi d = d[bi div 8 := d ! (bi div 8) AND NOT (push_bit (bi mod 8) 1)]"

function balloc_loop :: "u32 \<Rightarrow> nat \<Rightarrow> nat \<Rightarrow> 'a fs_state_scheme \<Rightarrow> (u32 \<times> 'a fs_state_scheme) res" where
  "balloc_loop dev b sz s =
     (if b < sz then
        bnd (bread dev (BBLOCK (of_nat b) s) s) (\<lambda>(bp, s).
          case find (\<lambda>bi. \<not> block_bit (b_data (bufs s bp)) bi) [0..<min BPB (sz - b)] of
            Some bi \<Rightarrow>
              bnd (log_brelse bp (set_data bp (mark_bit bi (b_data (bufs s bp))) s)) (\<lambda>s.
              bnd (bzero dev (of_nat (b + bi)) s) (\<lambda>s. Inr (of_nat (b + bi), s)))
          | None \<Rightarrow> bnd (brelse bp s) (\<lambda>s. balloc_loop dev (b + BPB) sz s))
      else bnd (printf (bytes_of ''balloc: out of blocks'' @ [10]) [] s) (\<lambda>(_, s). Inr (0, s)))"
  by pat_completeness auto
termination by (relation "measure (\<lambda>(dev, b, sz, s). sz - b)") (auto simp: BPB_def BSIZE_def)

declare balloc_loop.simps [simp del]

definition balloc :: "u32 \<Rightarrow> 'a fs_state_scheme \<Rightarrow> (u32 \<times> 'a fs_state_scheme) res" where
  "balloc dev s = balloc_loop dev 0 (unat (sb_size (sb s))) s"

definition bfree :: "u32 \<Rightarrow> u32 \<Rightarrow> 'a fs_state_scheme \<Rightarrow> 'a fs_state_scheme res" where
  "bfree dev b s =
     bnd (bread dev (BBLOCK b s) s) (\<lambda>(bp, s).
       let bi = unat b mod BPB; d = b_data (bufs s bp) in
       if \<not> block_bit d bi then panic ''freeing free block''
       else log_brelse bp (set_data bp (clear_bit bi d) s))"

section \<open>Inodes\<close>

definition iinit :: "'a fs_state_scheme \<Rightarrow> 'a fs_state_scheme" where
  "iinit s = fold (\<lambda>i. upd_inode i (\<lambda>x. x\<lparr>i_lock := initsleeplock\<rparr>)) [0..<NINODE] s"

definition iget :: "u32 \<Rightarrow> u32 \<Rightarrow> 'a fs_state_scheme \<Rightarrow> (nat \<times> 'a fs_state_scheme) res" where
  "iget dev inum s =
     (case find (\<lambda>i. i_ref (inodes s i) > 0 \<and> i_dev (inodes s i) = dev \<and> i_inum (inodes s i) = inum) [0..<NINODE] of
        Some ip \<Rightarrow> Inr (ip, upd_inode ip (\<lambda>x. x\<lparr>i_ref := i_ref x + 1\<rparr>) s)
      | None \<Rightarrow> (case find (\<lambda>i. i_ref (inodes s i) = 0) [0..<NINODE] of
          None \<Rightarrow> panic ''iget: no inodes''
        | Some ip \<Rightarrow> Inr (ip, upd_inode ip (\<lambda>x. x\<lparr>i_dev := dev, i_inum := inum, i_ref := 1, i_valid := False\<rparr>) s)))"

definition new_dinode :: "u16 \<Rightarrow> dinode" where
  "new_dinode type = \<lparr>d_type = type, d_major = 0, d_minor = 0, d_nlink = 0, d_size = 0, d_addrs = replicate (Suc NDIRECT) 0\<rparr>"

fun ialloc_loop :: "u32 \<Rightarrow> u16 \<Rightarrow> nat list \<Rightarrow> 'a fs_state_scheme \<Rightarrow> (nat option \<times> 'a fs_state_scheme) res" where
  "ialloc_loop dev type [] s = bnd (printf (bytes_of ''ialloc: no inodes'' @ [10]) [] s) (\<lambda>(_, s). Inr (None, s))"
| "ialloc_loop dev type (inum # inums) s =
     bnd (bread dev (IBLOCK (of_nat inum) s) s) (\<lambda>(bp, s).
       let off = dinode_off (of_nat inum); d = b_data (bufs s bp) in
       if d_type (get_dinode off d) = 0 then
         bnd (log_brelse bp (set_data bp (put_dinode off (new_dinode type) d) s)) (\<lambda>s.
         bnd (iget dev (of_nat inum) s) (\<lambda>(ip, s). Inr (Some ip, s)))
       else bnd (brelse bp s) (\<lambda>s. ialloc_loop dev type inums s))"

definition ialloc :: "u32 \<Rightarrow> u16 \<Rightarrow> 'a fs_state_scheme \<Rightarrow> (nat option \<times> 'a fs_state_scheme) res" where
  "ialloc dev type s = ialloc_loop dev type [1..<unat (sb_ninodes (sb s))] s"

definition disk_part :: "inode \<Rightarrow> dinode" where
  "disk_part x = \<lparr>d_type = i_type x, d_major = i_major x, d_minor = i_minor x, d_nlink = i_nlink x,
     d_size = i_size x, d_addrs = i_addrs x\<rparr>"

definition iupdate :: "nat \<Rightarrow> 'a fs_state_scheme \<Rightarrow> 'a fs_state_scheme res" where
  "iupdate ip s =
     (let x = inodes s ip in
      bnd (bread (i_dev x) (IBLOCK (i_inum x) s) s) (\<lambda>(bp, s).
        log_brelse bp (set_data bp (put_dinode (dinode_off (i_inum x)) (disk_part x) (b_data (bufs s bp))) s)))"

definition idup :: "nat \<Rightarrow> 'a fs_state_scheme \<Rightarrow> 'a fs_state_scheme" where
  "idup ip s = upd_inode ip (\<lambda>x. x\<lparr>i_ref := i_ref x + 1\<rparr>) s"

definition ilock :: "nat option \<Rightarrow> 'a fs_state_scheme \<Rightarrow> 'a fs_state_scheme res" where
  "ilock p s =
     (case p of
        None \<Rightarrow> panic ''ilock''
      | Some ip \<Rightarrow>
          if i_ref (inodes s ip) < 1 then panic ''ilock''
          else bnd (acquiresleep (ChInodeLock ip) (i_lock (inodes s ip)) s) (\<lambda>lk.
            let s = upd_inode ip (\<lambda>x. x\<lparr>i_lock := lk\<rparr>) s in
            if i_valid (inodes s ip) then Inr s
            else bnd (bread (i_dev (inodes s ip)) (IBLOCK (i_inum (inodes s ip)) s) s) (\<lambda>(bp, s).
              let d = get_dinode (dinode_off (i_inum (inodes s ip))) (b_data (bufs s bp));
                  s = upd_inode ip (\<lambda>x. x\<lparr>i_type := d_type d, i_major := d_major d, i_minor := d_minor d,
                        i_nlink := d_nlink d, i_size := d_size d, i_addrs := d_addrs d\<rparr>) s in
              bnd (brelse bp s) (\<lambda>s.
                let s = upd_inode ip (\<lambda>x. x\<lparr>i_valid := True\<rparr>) s in
                if i_type (inodes s ip) = 0 then panic ''ilock: no type'' else Inr s))))"

definition iunlock :: "nat option \<Rightarrow> 'a fs_state_scheme \<Rightarrow> 'a fs_state_scheme res" where
  "iunlock p s =
     (case p of
        None \<Rightarrow> panic ''iunlock''
      | Some ip \<Rightarrow>
          if \<not> holdingsleep (i_lock (inodes s ip)) s \<or> i_ref (inodes s ip) < 1 then panic ''iunlock''
          else case releasesleep (ChInodeLock ip) (i_lock (inodes s ip)) s of (lk, s) \<Rightarrow>
            Inr (upd_inode ip (\<lambda>x. x\<lparr>i_lock := lk\<rparr>) s))"

section \<open>Contents of an inode\<close>

definition set_addr :: "nat \<Rightarrow> nat \<Rightarrow> u32 \<Rightarrow> 'a fs_state_scheme \<Rightarrow> 'a fs_state_scheme" where
  "set_addr ip i a = upd_inode ip (\<lambda>x. x\<lparr>i_addrs := (i_addrs x)[i := a]\<rparr>)"

definition bmap :: "nat \<Rightarrow> u32 \<Rightarrow> 'a fs_state_scheme \<Rightarrow> (u32 \<times> 'a fs_state_scheme) res" where
  "bmap ip n s =
     (let bn = unat n in
      if bn < NDIRECT then
        if i_addrs (inodes s ip) ! bn = 0 then
          bnd (balloc (i_dev (inodes s ip)) s) (\<lambda>(addr, s).
            if addr = 0 then Inr (0, s) else Inr (addr, set_addr ip bn addr s))
        else Inr (i_addrs (inodes s ip) ! bn, s)
      else if bn - NDIRECT < NINDIRECT then
        bnd (if i_addrs (inodes s ip) ! NDIRECT = 0 then
               bnd (balloc (i_dev (inodes s ip)) s) (\<lambda>(addr, s).
                 Inr (addr, if addr = 0 then s else set_addr ip NDIRECT addr s))
             else Inr (i_addrs (inodes s ip) ! NDIRECT, s)) (\<lambda>(addr, s).
        if addr = 0 then Inr (0, s)
        else bnd (bread (i_dev (inodes s ip)) addr s) (\<lambda>(bp, s).
          let j = bn - NDIRECT; a = get32 (4 * j) (b_data (bufs s bp)) in
          if a = 0 then
            bnd (balloc (i_dev (inodes s ip)) s) (\<lambda>(a, s).
              bnd (if a \<noteq> 0 then log_write bp (set_data bp (put32 (4 * j) a (b_data (bufs s bp))) s) else Inr s) (\<lambda>s.
              bnd (brelse bp s) (\<lambda>s. Inr (a, s))))
          else bnd (brelse bp s) (\<lambda>s. Inr (a, s))))
      else panic ''bmap: out of range'')"

definition itrunc_direct :: "nat \<Rightarrow> nat \<Rightarrow> 'a fs_state_scheme \<Rightarrow> 'a fs_state_scheme res" where
  "itrunc_direct ip i s =
     (if i_addrs (inodes s ip) ! i \<noteq> 0
      then bnd (bfree (i_dev (inodes s ip)) (i_addrs (inodes s ip) ! i) s) (\<lambda>s. Inr (set_addr ip i 0 s))
      else Inr s)"

definition itrunc_indirect :: "nat \<Rightarrow> nat \<Rightarrow> nat \<Rightarrow> 'a fs_state_scheme \<Rightarrow> 'a fs_state_scheme res" where
  "itrunc_indirect ip bp j s =
     (let a = get32 (4 * j) (b_data (bufs s bp)) in
      if a \<noteq> 0 then bfree (i_dev (inodes s ip)) a s else Inr s)"

definition itrunc :: "nat \<Rightarrow> 'a fs_state_scheme \<Rightarrow> 'a fs_state_scheme res" where
  "itrunc ip s =
     bnd (foldM (itrunc_direct ip) [0..<NDIRECT] s) (\<lambda>s.
     bnd (if i_addrs (inodes s ip) ! NDIRECT \<noteq> 0 then
            bnd (bread (i_dev (inodes s ip)) (i_addrs (inodes s ip) ! NDIRECT) s) (\<lambda>(bp, s).
            bnd (foldM (itrunc_indirect ip bp) [0..<NINDIRECT] s) (\<lambda>s.
            bnd (brelse bp s) (\<lambda>s.
            bnd (bfree (i_dev (inodes s ip)) (i_addrs (inodes s ip) ! NDIRECT) s) (\<lambda>s.
            Inr (set_addr ip NDIRECT 0 s)))))
          else Inr s) (\<lambda>s.
     iupdate ip (upd_inode ip (\<lambda>x. x\<lparr>i_size := 0\<rparr>) s)))"

definition iput :: "nat \<Rightarrow> 'a fs_state_scheme \<Rightarrow> 'a fs_state_scheme res" where
  "iput ip s =
     bnd (if i_ref (inodes s ip) = 1 \<and> i_valid (inodes s ip) \<and> i_nlink (inodes s ip) = 0 then
            bnd (acquiresleep (ChInodeLock ip) (i_lock (inodes s ip)) s) (\<lambda>lk.
            bnd (itrunc ip (upd_inode ip (\<lambda>x. x\<lparr>i_lock := lk\<rparr>) s)) (\<lambda>s.
            bnd (iupdate ip (upd_inode ip (\<lambda>x. x\<lparr>i_type := 0\<rparr>) s)) (\<lambda>s.
              let s = upd_inode ip (\<lambda>x. x\<lparr>i_valid := False\<rparr>) s in
              case releasesleep (ChInodeLock ip) (i_lock (inodes s ip)) s of (lk, s) \<Rightarrow>
                Inr (upd_inode ip (\<lambda>x. x\<lparr>i_lock := lk\<rparr>) s))))
          else Inr s) (\<lambda>s.
     Inr (upd_inode ip (\<lambda>x. x\<lparr>i_ref := i_ref x - 1\<rparr>) s))"

definition iunlockput :: "nat \<Rightarrow> 'a fs_state_scheme \<Rightarrow> 'a fs_state_scheme res" where
  "iunlockput ip s = bnd (iunlock (Some ip) s) (\<lambda>s. iput ip s)"

record stat =
  st_dev :: u32
  st_ino :: u32
  st_type :: u16
  st_nlink :: u16
  st_size :: u64

definition stati :: "nat \<Rightarrow> 'a fs_state_scheme \<Rightarrow> stat" where
  "stati ip s = (let x = inodes s ip in
     \<lparr>st_dev = i_dev x, st_ino = i_inum x, st_type = i_type x, st_nlink = i_nlink x, st_size = ucast (i_size x)\<rparr>)"

section \<open>Reading and writing\<close>

text \<open>
  Where \<open>readi\<close> puts the bytes: a user address, a physical address, or a local variable of the caller,
  which receives the bytes as a value.
\<close>

datatype rdst = ToUser u64 | ToKernel u64 | ToLocal

fun rd_copyout :: "rdst \<Rightarrow> byte list \<Rightarrow> 'a fs_state_scheme \<Rightarrow> (int \<times> 'a fs_state_scheme) res" where
  "rd_copyout (ToUser dst) bs s = either_copyout True dst bs s"
| "rd_copyout (ToKernel dst) bs s = either_copyout False dst bs s"
| "rd_copyout ToLocal bs s = Inr (0, s)"

fun rd_advance :: "rdst \<Rightarrow> nat \<Rightarrow> rdst" where
  "rd_advance (ToUser dst) m = ToUser (dst + of_nat m)"
| "rd_advance (ToKernel dst) m = ToKernel (dst + of_nat m)"
| "rd_advance ToLocal m = ToLocal"

text \<open>Since \<open>off + n\<close> has been seen not to wrap, the counters of the loop are natural numbers.\<close>

function readi_loop ::
    "nat \<Rightarrow> rdst \<Rightarrow> nat \<Rightarrow> nat \<Rightarrow> nat \<Rightarrow> 'a fs_state_scheme \<Rightarrow> (int \<times> byte list \<times> 'a fs_state_scheme) res" where
  "readi_loop ip dst off tot n s =
     (if tot < n then
        bnd (bmap ip (of_nat (off div BSIZE)) s) (\<lambda>(addr, s).
          if addr = 0 then Inr (int tot, [], s)
          else bnd (bread (i_dev (inodes s ip)) addr s) (\<lambda>(bp, s).
            let m = min (n - tot) (BSIZE - off mod BSIZE);
                bs = get_bytes (off mod BSIZE) m (b_data (bufs s bp)) in
            bnd (rd_copyout dst bs s) (\<lambda>(r, s).
              if r = - 1 then bnd (brelse bp s) (\<lambda>s. Inr (- 1, [], s))
              else bnd (brelse bp s) (\<lambda>s.
                bnd (readi_loop ip (rd_advance dst m) (off + m) (tot + m) n s) (\<lambda>(t, rest, s).
                  Inr (t, bs @ rest, s))))))
      else Inr (int tot, [], s))"
  by pat_completeness auto
termination
  by (relation "measure (\<lambda>(ip, dst, off, tot, n, s). n - tot)") (auto simp: BSIZE_def min_def)

declare readi_loop.simps [simp del]

definition readi ::
    "nat \<Rightarrow> rdst \<Rightarrow> u32 \<Rightarrow> u32 \<Rightarrow> 'a fs_state_scheme \<Rightarrow> (int \<times> byte list \<times> 'a fs_state_scheme) res" where
  "readi ip dst off n s =
     (let size = i_size (inodes s ip) in
      if off > size \<or> off + n < off then Inr (0, [], s)
      else let n = (if off + n > size then size - off else n) in
        readi_loop ip dst (unat off) 0 (unat n) s)"

text \<open>Where \<open>writei\<close> takes the bytes from: a user address or a local variable of the caller.\<close>

datatype wsrc = FromUser u64 | FromLocal "byte list"

fun wr_copyin :: "wsrc \<Rightarrow> nat \<Rightarrow> 'a fs_state_scheme \<Rightarrow> (int \<times> byte list) res" where
  "wr_copyin (FromUser src) m s = either_copyin True src m s"
| "wr_copyin (FromLocal bs) m s = Inr (0, take m bs)"

fun wr_advance :: "wsrc \<Rightarrow> nat \<Rightarrow> wsrc" where
  "wr_advance (FromUser src) m = FromUser (src + of_nat m)"
| "wr_advance (FromLocal bs) m = FromLocal (drop m bs)"

text \<open>A copy that fails on a later page has already stored the bytes of the earlier ones.\<close>

function writei_loop ::
    "nat \<Rightarrow> wsrc \<Rightarrow> nat \<Rightarrow> nat \<Rightarrow> nat \<Rightarrow> 'a fs_state_scheme \<Rightarrow> (nat \<times> nat \<times> 'a fs_state_scheme) res" where
  "writei_loop ip src off tot n s =
     (if tot < n then
        bnd (bmap ip (of_nat (off div BSIZE)) s) (\<lambda>(addr, s).
          if addr = 0 then Inr (tot, off, s)
          else bnd (bread (i_dev (inodes s ip)) addr s) (\<lambda>(bp, s).
            let m = min (n - tot) (BSIZE - off mod BSIZE) in
            bnd (wr_copyin src m s) (\<lambda>(r, bs).
              let s = set_data bp (put_bytes (off mod BSIZE) bs (b_data (bufs s bp))) s in
              if r = - 1 then bnd (brelse bp s) (\<lambda>s. Inr (tot, off, s))
              else bnd (log_brelse bp s) (\<lambda>s. writei_loop ip (wr_advance src m) (off + m) (tot + m) n s))))
      else Inr (tot, off, s))"
  by pat_completeness auto
termination
  by (relation "measure (\<lambda>(ip, src, off, tot, n, s). n - tot)") (auto simp: BSIZE_def min_def)

declare writei_loop.simps [simp del]

definition writei :: "nat \<Rightarrow> wsrc \<Rightarrow> u32 \<Rightarrow> u32 \<Rightarrow> 'a fs_state_scheme \<Rightarrow> (int \<times> 'a fs_state_scheme) res" where
  "writei ip src off n s =
     (if off > i_size (inodes s ip) \<or> off + n < off then Inr (- 1, s)
      else if unat (off + n) > MAXFILE * BSIZE then Inr (- 1, s)
      else bnd (writei_loop ip src (unat off) 0 (unat n) s) (\<lambda>(tot, off, s).
        let s = (if off > unat (i_size (inodes s ip)) then upd_inode ip (\<lambda>x. x\<lparr>i_size := of_nat off\<rparr>) s else s) in
        bnd (iupdate ip s) (\<lambda>s. Inr (int tot, s))))"

text \<open>An unused entry of the inode table.\<close>

definition no_inode :: inode where
  "no_inode = \<lparr>i_dev = 0, i_inum = 0, i_ref = 0, i_lock = initsleeplock, i_valid = False, i_type = 0, i_major = 0,
     i_minor = 0, i_nlink = 0, i_size = 0, i_addrs = replicate 61 0\<rparr>"

end
