(* ===== verification/Console.thy ===== *)
theory Console
  imports Printf
begin

text \<open>
  The console, \<^verbatim>\<open>kernel/console.c\<close>, and the interrupt handler of the UART that feeds it.  \<^verbatim>\<open>cons.lock\<close> makes
  each routine one step up to the point where \<open>consoleread\<close> sleeps; there its loop returns the
  progress it has made, from which it goes on after the wakeup.
\<close>

unbundle bit_operations_syntax

definition INPUT_BUF_SIZE :: u32 where "INPUT_BUF_SIZE = 128"
definition CONSOLE :: nat where "CONSOLE = 1"

text \<open>\<open>Ctl c\<close> is the macro \<^verbatim>\<open>C\<close>: the code of a letter typed with the control key.\<close>

definition Ctl :: "char \<Rightarrow> int" where
  "Ctl c = of_char c - 0x40"

section \<open>System calls on the console\<close>

fun consolewrite_loop ::
    "bool \<Rightarrow> u64 \<Rightarrow> nat \<Rightarrow> int \<Rightarrow> 'a dev_state_scheme \<Rightarrow> (int \<times> 'a dev_state_scheme) res" where
  "consolewrite_loop user_src src 0 i s = Inr (i, s)"
| "consolewrite_loop user_src src (Suc k) i s =
     bnd (either_copyin user_src (src + word_of_int i) 1 s) (\<lambda>(r, c).
       if r = - 1 then Inr (i, s)
       else bnd (uartputc (hd c) s) (\<lambda>s. consolewrite_loop user_src src k (i + 1) s))"

definition consolewrite :: "bool \<Rightarrow> u64 \<Rightarrow> int \<Rightarrow> 'a dev_state_scheme \<Rightarrow> (int \<times> 'a dev_state_scheme) res" where
  "consolewrite user_src src n s = consolewrite_loop user_src src (nat n) 0 s"

text \<open>\<open>RdSleep dst n s\<close>: asleep on \<^verbatim>\<open>&cons.r\<close> with \<open>n\<close> bytes still wanted at \<open>dst\<close>.\<close>

datatype 's rdres = RdDone int 's | RdSleep u64 int 's

function consoleread_loop ::
    "bool \<Rightarrow> u64 \<Rightarrow> int \<Rightarrow> int \<Rightarrow> 'a dev_state_scheme \<Rightarrow> 'a dev_state_scheme rdres res" where
  "consoleread_loop user_dst dst n target s =
     (if n > 0 then
        if cons_r s = cons_w s then
          if killed (myproc s) s then Inr (RdDone (- 1) s) else Inr (RdSleep dst n s)
        else
          let c = cons_buf s (unat (cons_r s mod INPUT_BUF_SIZE));
              s = s\<lparr>cons_r := cons_r s + 1\<rparr> in
          if c = 4 then
            Inr (RdDone (target - n) (if n < target then s\<lparr>cons_r := cons_r s - 1\<rparr> else s))
          else bnd (either_copyout user_dst dst [c] s) (\<lambda>(r, s).
            if r = - 1 then Inr (RdDone (target - n) s)
            else if c = 10 then Inr (RdDone (target - (n - 1)) s)
            else consoleread_loop user_dst (dst + 1) (n - 1) target s)
      else Inr (RdDone (target - n) s))"
  by pat_completeness auto

termination consoleread_loop
  by (relation "measure (\<lambda>(user_dst, dst, n, target, s). nat n)") auto

declare consoleread_loop.simps [simp del]

definition consoleread :: "bool \<Rightarrow> u64 \<Rightarrow> int \<Rightarrow> 'a dev_state_scheme \<Rightarrow> (int \<times> 'a dev_state_scheme) res" where
  "consoleread user_dst dst n s =
     bnd (consoleread_loop user_dst dst n n s) (\<lambda>r.
       case r of RdDone k s \<Rightarrow> Inr (k, s) | RdSleep _ _ _ \<Rightarrow> Inl (Sleep ChConsole))"

section \<open>Input\<close>

lemma uartputc_sync_only:
  assumes "uartputc_sync c s = Inr s'"
  shows "\<exists>ev. s' = s\<lparr>uart_ev := ev\<rparr>"
  using assms wait_idle_fields [of s] by (auto simp: uartputc_sync_def WriteReg_def split: if_splits option.splits)

lemma consputc_only:
  assumes "consputc c s = Inr s'"
  shows "\<exists>ev. s' = s\<lparr>uart_ev := ev\<rparr>"
proof (cases "c = BACKSPACE")
  case True
  then obtain s1 s2 where s: "uartputc_sync 8 s = Inr s1" "uartputc_sync 0x20 s1 = Inr s2" "uartputc_sync 8 s2 = Inr s'"
    using assms by (auto simp: consputc_def bnd_eq_Inr)
  show ?thesis using uartputc_sync_only [OF s(1)] uartputc_sync_only [OF s(2)] uartputc_sync_only [OF s(3)] by auto
qed (use assms uartputc_sync_only in \<open>simp add: consputc_def\<close>)

lemma consputc_cons:
  assumes "consputc c s = Inr s'"
  shows "cons_e s' = cons_e s" "cons_w s' = cons_w s" "cons_r s' = cons_r s" "cons_buf s' = cons_buf s"
  using consputc_only [OF assms] by auto

function kill_line :: "'a dev_state_scheme \<Rightarrow> 'a dev_state_scheme res" where
  "kill_line s =
     (if cons_e s \<noteq> cons_w s \<and> cons_buf s (unat ((cons_e s - 1) mod INPUT_BUF_SIZE)) \<noteq> 10
      then bnd (consputc BACKSPACE (s\<lparr>cons_e := cons_e s - 1\<rparr>)) kill_line
      else Inr s)"
  by pat_completeness auto

termination kill_line
proof (relation "measure (\<lambda>s. unat (cons_e s - cons_w s))")
  fix s s' :: "'a dev_state_scheme"
  assume a: "cons_e s \<noteq> cons_w s \<and> cons_buf s (unat ((cons_e s - 1) mod INPUT_BUF_SIZE)) \<noteq> 10"
    and b: "consputc BACKSPACE (s\<lparr>cons_e := cons_e s - 1\<rparr>) = Inr s'"
  have "cons_e s' - cons_w s' = cons_e s - cons_w s - 1" using consputc_cons [OF b] by (simp add: algebra_simps)
  moreover have "cons_e s - cons_w s \<noteq> 0" using a by simp
  ultimately show "(s', s) \<in> measure (\<lambda>s. unat (cons_e s - cons_w s))" by (simp add: unat_minus_one unat_gt_0)
qed simp

declare kill_line.simps [simp del]

text \<open>A character that is echoed and stored.\<close>

definition putkey :: "int \<Rightarrow> 'a dev_state_scheme \<Rightarrow> 'a dev_state_scheme res" where
  "putkey c s =
     bnd (consputc (word_of_int c) s) (\<lambda>s.
       let s = s\<lparr>cons_buf := (cons_buf s)(unat (cons_e s mod INPUT_BUF_SIZE) := word_of_int c), cons_e := cons_e s + 1\<rparr> in
       if c = 10 \<or> c = Ctl CHR ''D'' \<or> cons_e s - cons_r s = INPUT_BUF_SIZE
       then Inr (wakeup ChConsole (s\<lparr>cons_w := cons_e s\<rparr>))
       else Inr s)"

definition consoleintr :: "int \<Rightarrow> 'a dev_state_scheme \<Rightarrow> 'a dev_state_scheme res" where
  "consoleintr c s =
     (if c = Ctl CHR ''P'' then procdump s
      else if c = Ctl CHR ''U'' then kill_line s
      else if c = Ctl CHR ''H'' \<or> c = 0x7f then
        if cons_e s \<noteq> cons_w s then consputc BACKSPACE (s\<lparr>cons_e := cons_e s - 1\<rparr>) else Inr s
      else if c \<noteq> 0 \<and> cons_e s - cons_r s < INPUT_BUF_SIZE then
        putkey (if c = 13 then 10 else c) s
      else Inr s)"

definition consoleinit :: "'a dev_state_scheme \<Rightarrow> 'a dev_state_scheme" where
  "consoleinit s =
     (let s = uartinit s;
          s = s\<lparr>devsw_read := (devsw_read s)(CONSOLE \<mapsto> Consoleread)\<rparr>
      in s\<lparr>devsw_write := (devsw_write s)(CONSOLE \<mapsto> Consolewrite)\<rparr>)"

text \<open>The loop of \<open>uartintr\<close> goes on as long as the device has input; \<open>None\<close> is a device that always has.\<close>

partial_function (option) uartintr_loop :: "'a dev_state_scheme \<Rightarrow> 'a dev_state_scheme res option" where
  "uartintr_loop s =
     (if fst (uartgetc s) = - 1 then Some (Inr (snd (uartgetc s)))
      else (case consoleintr (fst (uartgetc s)) (snd (uartgetc s)) of
          Inl e \<Rightarrow> Some (Inl e)
        | Inr s \<Rightarrow> uartintr_loop s))"

definition uartintr :: "'a dev_state_scheme \<Rightarrow> 'a dev_state_scheme res" where
  "uartintr s =
     (case uartintr_loop s of None \<Rightarrow> Inl Diverge | Some r \<Rightarrow> bnd r (\<lambda>s. Inr (uartstart s)))"

section \<open>The line discipline\<close>

interpretation cq: ring INPUT_BUF_SIZE
  by unfold_locales (simp_all add: INPUT_BUF_SIZE_def)

text \<open>What readers may take, and the line being edited; together they are the buffer.\<close>

definition cqueue :: "'a dev_state_scheme \<Rightarrow> byte list" where
  "cqueue s = ring_contents INPUT_BUF_SIZE (cons_buf s) (cons_r s) (cons_w s)"

definition cline :: "'a dev_state_scheme \<Rightarrow> byte list" where
  "cline s = ring_contents INPUT_BUF_SIZE (cons_buf s) (cons_w s) (cons_e s)"

definition cons_ok :: "'a dev_state_scheme \<Rightarrow> bool" where
  "cons_ok s =
     (ring_used (cons_r s) (cons_e s) = ring_used (cons_r s) (cons_w s) + ring_used (cons_w s) (cons_e s) \<and>
      ring_used (cons_r s) (cons_e s) \<le> 128 \<and> 10 \<notin> set (cline s))"

text \<open>What a key is meant to do to the two.\<close>

definition key :: "int \<Rightarrow> byte list \<times> byte list \<Rightarrow> byte list \<times> byte list" where
  "key c ql = (case ql of (q, l) \<Rightarrow>
     if c = 0x10 \<or> c = 0 then (q, l)
     else if c = 0x15 then (q, [])
     else if c = 8 \<or> c = 0x7f then (q, butlast l)
     else if length q + length l < 128 then
       let b = (if c = 13 then 10 else word_of_int c); l = l @ [b] in
       if b = 10 \<or> b = 4 \<or> length q + length l = 128 then (q @ l, []) else (q, l)
     else (q, l))"

lemma Ctl_simps [simp]: "Ctl CHR ''P'' = 0x10" "Ctl CHR ''U'' = 0x15" "Ctl CHR ''H'' = 8" "Ctl CHR ''D'' = 4"
  by (simp_all add: Ctl_def)

lemma cqueue_all: "cons_ok s \<Longrightarrow> cqueue s @ cline s = ring_contents INPUT_BUF_SIZE (cons_buf s) (cons_r s) (cons_e s)"
  unfolding cqueue_def cline_def cons_ok_def
  using cq.prefix_contents [of "cons_r s" "cons_w s" "cons_e s" "cons_buf s"]
    cq.suffix_contents [of "cons_r s" "cons_e s" "cons_w s" "cons_buf s"] by simp

lemma length_cqueue: "length (cqueue s) = ring_used (cons_r s) (cons_w s)" "length (cline s) = ring_used (cons_w s) (cons_e s)"
  by (simp_all add: cqueue_def cline_def)

text \<open>The two lists, read off a state whose counters and buffer are known.\<close>

lemma cons_lists:
  assumes "ring_used r e = ring_used r w + ring_used w e" "ring_contents INPUT_BUF_SIZE buf r e = q @ l" "length q = ring_used r w"
  shows "ring_contents INPUT_BUF_SIZE buf r w = q" "ring_contents INPUT_BUF_SIZE buf w e = l"
  using assms cq.prefix_contents [of r w e buf] cq.suffix_contents [of r e w buf] by simp_all

lemma used_room: "e - r < INPUT_BUF_SIZE \<longleftrightarrow> ring_used r e < 128"
  by (simp add: word_less_nat_alt ring_used_def INPUT_BUF_SIZE_def)

lemma unput_ok:
  assumes "cons_ok s" "cons_e s \<noteq> cons_w s"
  shows "cons_ok (s\<lparr>cons_e := cons_e s - 1\<rparr>)" "cqueue (s\<lparr>cons_e := cons_e s - 1\<rparr>) = cqueue s"
    "cline (s\<lparr>cons_e := cons_e s - 1\<rparr>) = butlast (cline s)"
proof -
  have l: "cline s = cline (s\<lparr>cons_e := cons_e s - 1\<rparr>) @ [cons_buf s (unat (cons_e s - 1) mod unat INPUT_BUF_SIZE)]"
    using cq.unput_contents [OF assms(2)] by (simp add: cline_def)
  then show "cline (s\<lparr>cons_e := cons_e s - 1\<rparr>) = butlast (cline s)" by simp
  have "0 < ring_used (cons_w s) (cons_e s)" using cq.used_unput [OF assms(2)] by simp
  then have "cons_e s \<noteq> cons_r s" using assms(1) by (auto simp: cons_ok_def)
  then show "cons_ok (s\<lparr>cons_e := cons_e s - 1\<rparr>)"
    using assms(1) l cq.used_unput [OF assms(2)] cq.used_unput [of "cons_e s" "cons_r s"] by (simp add: cons_ok_def)
  show "cqueue (s\<lparr>cons_e := cons_e s - 1\<rparr>) = cqueue s" by (simp add: cqueue_def)
qed

lemma put_ok:
  fixes s :: "'a dev_state_scheme" and c :: byte
  assumes "cons_ok s" "ring_used (cons_r s) (cons_e s) < 128"
  defines "s' \<equiv> s\<lparr>cons_buf := (cons_buf s)(unat (cons_e s mod INPUT_BUF_SIZE) := c), cons_e := cons_e s + 1\<rparr>"
  shows "ring_used (cons_r s') (cons_e s') = Suc (ring_used (cons_r s) (cons_e s))"
    "ring_used (cons_r s') (cons_e s') = ring_used (cons_r s') (cons_w s') + ring_used (cons_w s') (cons_e s')"
    "cqueue s' = cqueue s" "cline s' = cline s @ [c]"
    "ring_contents INPUT_BUF_SIZE (cons_buf s') (cons_r s') (cons_e s') = cqueue s @ cline s @ [c]"
proof -
  have c: "unat INPUT_BUF_SIZE = 128" by (simp add: INPUT_BUF_SIZE_def)
  have u: "ring_used (cons_r s) (cons_e s + 1) = Suc (ring_used (cons_r s) (cons_e s))"
    "ring_used (cons_w s) (cons_e s + 1) = Suc (ring_used (cons_w s) (cons_e s))"
    using assms(1) by (intro cq.used_put; use assms(2) in \<open>simp add: c cons_ok_def\<close>)+
  then show "ring_used (cons_r s') (cons_e s') = Suc (ring_used (cons_r s) (cons_e s))" by (simp add: s'_def)
  show e: "ring_used (cons_r s') (cons_e s') = ring_used (cons_r s') (cons_w s') + ring_used (cons_w s') (cons_e s')"
    using u assms(1) by (simp add: s'_def cons_ok_def)
  show all: "ring_contents INPUT_BUF_SIZE (cons_buf s') (cons_r s') (cons_e s') = cqueue s @ cline s @ [c]"
    using cq.put_contents [of "cons_r s" "cons_e s" "cons_buf s" c] assms(2) cqueue_all [OF assms(1)]
    by (simp add: s'_def c unat_mod)
  show "cqueue s' = cqueue s" "cline s' = cline s @ [c]"
    using cons_lists [OF e all] by (simp_all add: cqueue_def cline_def s'_def)
qed

lemma view_emits:
  assumes "emits bs s s'"
  shows "cqueue s' = cqueue s" "cline s' = cline s" "cons_ok s' = cons_ok s"
  using emits_fields [OF assms] by (simp_all add: cqueue_def cline_def cons_ok_def)

lemma kill_line_ok:
  assumes "cons_ok s" "responsive s" "\<not> panicked s"
  shows "\<exists>s'. kill_line s = Inr s' \<and> cons_ok s' \<and> cqueue s' = cqueue s \<and> cline s' = []"
  using assms
proof (induction s rule: kill_line.induct)
  case (1 s)
  show ?case
  proof (cases "cons_e s = cons_w s")
    case True
    then have "kill_line s = Inr s" "cline s = []" by (simp_all add: kill_line.simps cline_def)
    then show ?thesis using "1.prems" by blast
  next
    case False
    let ?s = "s\<lparr>cons_e := cons_e s - 1\<rparr>" and ?c = "cons_buf s (unat ((cons_e s - 1) mod INPUT_BUF_SIZE))"
    have "?c \<in> set (cline s)" using cq.unput_contents [OF False] by (simp add: cline_def unat_mod)
    then have c: "?c \<noteq> 10" using "1.prems"(1) by (auto simp: cons_ok_def)
    have "responsive ?s" "\<not> panicked ?s" using "1.prems" by (simp_all add: responsive_def)
    then obtain s' where s': "consputc BACKSPACE ?s = Inr s'" "emits [8, 0x20, 8] ?s s'" by (rule consputc_backspace)
    have "cons_ok s'" "responsive s'" "\<not> panicked s'" "cqueue s' = cqueue s"
      using view_emits [OF s'(2)] unput_ok [OF "1.prems"(1) False] emits_ready [OF s'(2) \<open>responsive ?s\<close> \<open>\<not> panicked ?s\<close>] by simp_all
    then have "\<exists>s''. kill_line s' = Inr s'' \<and> cons_ok s'' \<and> cqueue s'' = cqueue s \<and> cline s'' = []"
      using "1.IH" [OF _ s'(1)] False c by simp
    moreover have "kill_line s = kill_line s'" using False c s'(1) by (subst kill_line.simps) simp
    ultimately show ?thesis by simp
  qed
qed

lemma backspace_ok:
  assumes "cons_ok s" "responsive s" "\<not> panicked s"
  shows "\<exists>s'. (if cons_e s \<noteq> cons_w s then consputc BACKSPACE (s\<lparr>cons_e := cons_e s - 1\<rparr>) else Inr s) = Inr s' \<and>
    cons_ok s' \<and> cqueue s' = cqueue s \<and> cline s' = butlast (cline s)"
proof (cases "cons_e s = cons_w s")
  case True
  then show ?thesis using assms by (simp add: cline_def)
next
  case False
  let ?s = "s\<lparr>cons_e := cons_e s - 1\<rparr>"
  have "responsive ?s" "\<not> panicked ?s" using assms by (simp_all add: responsive_def)
  then obtain s' where s': "consputc BACKSPACE ?s = Inr s'" "emits [8, 0x20, 8] ?s s'" by (rule consputc_backspace)
  then show ?thesis using False view_emits [OF s'(2)] unput_ok [OF assms(1) False] by simp
qed

text \<open>A character that is stored; \<open>b\<close> is its byte.\<close>

lemma putkey_ok:
  assumes ok: "cons_ok s" and dev: "responsive s" "\<not> panicked s" and b: "0 \<le> b" "b < 256"
    and room: "ring_used (cons_r s) (cons_e s) < 128"
  shows "\<exists>s'. putkey b s = Inr s' \<and> cons_ok s' \<and>
    (cqueue s', cline s') =
      (if b = 10 \<or> b = 4 \<or> Suc (ring_used (cons_r s) (cons_e s)) = 128 then (cqueue s @ cline s @ [word_of_int b], [])
       else (cqueue s, cline s @ [word_of_int b]))"
proof -
  have ne: "(word_of_int b :: u32) \<noteq> BACKSPACE" and ten: "(word_of_int b :: byte) = 10 \<longleftrightarrow> b = 10"
    using byte_of_int [OF b] by (simp_all add: BACKSPACE_def)
  obtain s1 where s1: "consputc (word_of_int b) s = Inr s1" "emits [ucast (word_of_int b :: u32)] s s1"
    using consputc_emits [OF dev ne] by blast
  let ?s = "s1\<lparr>cons_buf := (cons_buf s1)(unat (cons_e s1 mod INPUT_BUF_SIZE) := word_of_int b), cons_e := cons_e s1 + 1\<rparr>"
  have v: "cqueue s1 = cqueue s" "cline s1 = cline s" "cons_ok s1" "cons_e s1 = cons_e s" "cons_r s1 = cons_r s"
    using view_emits [OF s1(2)] emits_fields [OF s1(2)] ok by simp_all
  have room1: "ring_used (cons_r s1) (cons_e s1) < 128" using room v by simp
  note p = put_ok [OF v(3) room1, of "word_of_int b"]
  have full: "cons_e ?s - cons_r ?s = INPUT_BUF_SIZE \<longleftrightarrow> Suc (ring_used (cons_r s) (cons_e s)) = 128"
  proof -
    have "unat (cons_e ?s - cons_r ?s) = Suc (ring_used (cons_r s) (cons_e s))" using p(1) v unfolding ring_used_def by simp
    then show ?thesis unfolding word_unat_eq_iff INPUT_BUF_SIZE_def by simp
  qed
  show ?thesis
  proof (cases "b = 10 \<or> b = 4 \<or> Suc (ring_used (cons_r s) (cons_e s)) = 128")
    case True
    let ?w = "wakeup ChConsole (?s\<lparr>cons_w := cons_e ?s\<rparr>)"
    have "cqueue ?w = cqueue s @ cline s @ [word_of_int b]" "cline ?w = []" using p(5) v by (simp_all add: cqueue_def cline_def)
    moreover have "cons_ok ?w" using p(1) room1 by (simp add: cons_ok_def cline_def)
    ultimately show ?thesis using s1(1) True full by (simp add: Let_def putkey_def)
  next
    case False
    have "cons_ok ?s" using p(1,2) room1 p(4) v ok ten False by (simp add: cons_ok_def)
    then show ?thesis using s1(1) False full p(3,4) v by (simp add: Let_def putkey_def)
  qed
qed

section \<open>Properties\<close>

text \<open>C19: The console is a line discipline.  On every character the interrupt handler does to the ring
  buffer what \<open>key\<close> does to a queue of finished input and an unfinished line: control-U drops the
  line, backspace its last character, a carriage return counts as a newline, and newline,
  control-D and the 128th byte hand the line over to the readers.  The handler returns, and its
  buffer stays well formed, at any value of the wrapping counters.\<close>

theorem consoleintr_refines:
  assumes ok: "cons_ok s" and dev: "responsive s" "\<not> panicked s" and c: "0 \<le> c" "c < 256"
  shows "\<exists>s'. consoleintr c s = Inr s' \<and> cons_ok s' \<and> (cqueue s', cline s') = key c (cqueue s, cline s)"
proof -
  have len: "length (cqueue s) + length (cline s) = ring_used (cons_r s) (cons_e s)"
    using ok by (simp add: length_cqueue cons_ok_def)
  consider "c = 0x10" | "c = 0x15" | "c = 8 \<or> c = 0x7f" | "c = 0 \<or> \<not> ring_used (cons_r s) (cons_e s) < 128" "c \<noteq> 0x10" "c \<noteq> 0x15" "c \<noteq> 8" "c \<noteq> 0x7f"
    | "c \<noteq> 0" "ring_used (cons_r s) (cons_e s) < 128" "c \<noteq> 0x10" "c \<noteq> 0x15" "c \<noteq> 8" "c \<noteq> 0x7f" by blast
  then show ?thesis
  proof cases
    case 1
    obtain s' bs where s': "procdump s = Inr s'" "emits bs s s'" using procdump_runs [OF dev] unfolding runs_def by blast
    then show ?thesis using 1 ok view_emits [OF s'(2)] by (simp add: consoleintr_def key_def)
  next
    case 2
    then show ?thesis using kill_line_ok [OF ok dev] by (auto simp: consoleintr_def key_def)
  next
    case 3
    then show ?thesis using backspace_ok [OF ok dev] by (auto simp: consoleintr_def key_def)
  next
    case 4
    then show ?thesis using ok len by (auto simp: consoleintr_def key_def used_room)
  next
    case 5
    then show ?thesis using putkey_ok [OF ok dev, of "if c = 13 then 10 else c"] c len byte_of_int [OF c]
      by (auto simp: consoleintr_def key_def used_room Let_def)
  qed
qed

theorem consoleintr_refines_witness:
  "\<exists>s'. consoleintr 0x61 idle_uart = Inr s' \<and> cons_ok s' \<and> (cqueue s', cline s') = ([], [0x61])"
proof -
  have "cons_ok idle_uart" "cqueue idle_uart = []" "cline idle_uart = []" by (simp_all add: cons_ok_def cqueue_def cline_def)
  then show ?thesis using consoleintr_refines [of idle_uart "0x61"] idle_uart_ready by (simp add: key_def)
qed

end
