(* ===== verification/Pipe.thy ===== *)
theory Pipe
  imports Fs Console
begin

text \<open>
  Pipes, \<^verbatim>\<open>kernel/pipe.c\<close>, and the state of the file layer above them.  A pipe lives in a page of its own
  and is named by the address of that page; its contents are kept in a typed store next to
  memory.  \<^verbatim>\<open>pi->lock\<close> makes each routine one step up to the point where it sleeps; \<open>pipewrite\<close>, which may
  sleep after it has stored some bytes, then returns its progress.
\<close>

unbundle bit_operations_syntax

definition PIPESIZE :: u32 where "PIPESIZE = 512"
definition NFILE :: nat where "NFILE = 100"
definition NOFILE :: nat where "NOFILE = 16"
definition NDEV :: int where "NDEV = 10"

record pipe =
  pi_data :: "nat \<Rightarrow> byte"
  pi_nread :: u32
  pi_nwrite :: u32
  pi_readopen :: bool
  pi_writeopen :: bool

datatype ftype = FD_NONE | FD_PIPE | FD_INODE | FD_DEVICE

record kfile =
  f_type :: ftype
  f_ref :: int
  f_readable :: bool
  f_writable :: bool
  f_pipe :: addr
  f_ip :: "nat option"
  f_off :: u32
  f_major :: u16

text \<open>\<open>stack_pad\<close> is what happens to be on the kernel stack under the padding of a local variable.\<close>

record file_state = fs_state +
  ftable :: "nat \<Rightarrow> kfile"
  pipes :: "addr \<Rightarrow> pipe"
  stack_pad :: "byte list"

definition upd_pipe :: "addr \<Rightarrow> (pipe \<Rightarrow> pipe) \<Rightarrow> 'a file_state_scheme \<Rightarrow> 'a file_state_scheme" where
  "upd_pipe pi f s = s\<lparr>pipes := (pipes s)(pi := f (pipes s pi))\<rparr>"

definition upd_file :: "nat \<Rightarrow> (kfile \<Rightarrow> kfile) \<Rightarrow> 'a file_state_scheme \<Rightarrow> 'a file_state_scheme" where
  "upd_file f g s = s\<lparr>ftable := (ftable s)(f := g (ftable s f))\<rparr>"

section \<open>Operations\<close>

definition pipeclose :: "addr \<Rightarrow> bool \<Rightarrow> 'a file_state_scheme \<Rightarrow> 'a file_state_scheme res" where
  "pipeclose pi writable s =
     (let s = (if writable
               then wakeup (ChPipeRead pi) (upd_pipe pi (\<lambda>p. p\<lparr>pi_writeopen := False\<rparr>) s)
               else wakeup (ChPipeWrite pi) (upd_pipe pi (\<lambda>p. p\<lparr>pi_readopen := False\<rparr>) s))
      in if \<not> pi_readopen (pipes s pi) \<and> \<not> pi_writeopen (pipes s pi) then kfree pi s else Inr s)"

text \<open>\<open>WrSleep i s\<close>: asleep on \<^verbatim>\<open>&pi->nwrite\<close> with \<open>i\<close> bytes stored.\<close>

datatype 's wrres = WrDone int 's | WrSleep int 's

definition pipe_put :: "addr \<Rightarrow> byte \<Rightarrow> 'a file_state_scheme \<Rightarrow> 'a file_state_scheme" where
  "pipe_put pi c s = upd_pipe pi (\<lambda>p. p\<lparr>pi_data := (pi_data p)(unat (pi_nwrite p mod PIPESIZE) := c), pi_nwrite := pi_nwrite p + 1\<rparr>) s"

function pipewrite_loop ::
    "addr \<Rightarrow> u64 \<Rightarrow> int \<Rightarrow> int \<Rightarrow> 'a file_state_scheme \<Rightarrow> 'a file_state_scheme wrres res" where
  "pipewrite_loop pi addr n i s =
     (if i < n then
        if \<not> pi_readopen (pipes s pi) \<or> killed (myproc s) s then Inr (WrDone (- 1) s)
        else if pi_nwrite (pipes s pi) = pi_nread (pipes s pi) + PIPESIZE
        then Inr (WrSleep i (wakeup (ChPipeRead pi) s))
        else bnd (copyin (p_pagetable (mp s)) (addr + word_of_int i) 1 s) (\<lambda>(r, ch).
          if r = - 1 then Inr (WrDone i (wakeup (ChPipeRead pi) s))
          else pipewrite_loop pi addr n (i + 1) (pipe_put pi (hd ch) s))
      else Inr (WrDone i (wakeup (ChPipeRead pi) s)))"
  by pat_completeness auto

termination pipewrite_loop
  by (relation "measure (\<lambda>(pi, addr, n, i, s). nat (n - i))") auto

declare pipewrite_loop.simps [simp del]

definition pipewrite :: "addr \<Rightarrow> u64 \<Rightarrow> int \<Rightarrow> 'a file_state_scheme \<Rightarrow> (int \<times> 'a file_state_scheme) res" where
  "pipewrite pi addr n s =
     bnd (pipewrite_loop pi addr n 0 s) (\<lambda>r.
       case r of WrDone k s \<Rightarrow> Inr (k, s) | WrSleep _ _ \<Rightarrow> Inl (Sleep (ChPipeWrite pi)))"

definition pipe_get :: "addr \<Rightarrow> 'a file_state_scheme \<Rightarrow> 'a file_state_scheme" where
  "pipe_get pi s = upd_pipe pi (\<lambda>p. p\<lparr>pi_nread := pi_nread p + 1\<rparr>) s"

function piperead_loop ::
    "addr \<Rightarrow> u64 \<Rightarrow> int \<Rightarrow> int \<Rightarrow> 'a file_state_scheme \<Rightarrow> (int \<times> 'a file_state_scheme) res" where
  "piperead_loop pi addr n i s =
     (if i < n \<and> pi_nread (pipes s pi) \<noteq> pi_nwrite (pipes s pi) then
        let ch = pi_data (pipes s pi) (unat (pi_nread (pipes s pi) mod PIPESIZE));
            s = pipe_get pi s in
        bnd (copyout (p_pagetable (mp s)) (addr + word_of_int i) [ch] s) (\<lambda>(r, s).
          if r = - 1 then Inr (i, s) else piperead_loop pi addr n (i + 1) s)
      else Inr (i, s))"
  by pat_completeness auto

termination piperead_loop
  by (relation "measure (\<lambda>(pi, addr, n, i, s). nat (n - i))") auto

declare piperead_loop.simps [simp del]

definition piperead :: "addr \<Rightarrow> u64 \<Rightarrow> int \<Rightarrow> 'a file_state_scheme \<Rightarrow> (int \<times> 'a file_state_scheme) res" where
  "piperead pi addr n s =
     (if pi_nread (pipes s pi) = pi_nwrite (pipes s pi) \<and> pi_writeopen (pipes s pi) then
        if killed (myproc s) s then Inr (- 1, s) else Inl (Sleep (ChPipeRead pi))
      else bnd (piperead_loop pi addr n 0 s) (\<lambda>(i, s). Inr (i, wakeup (ChPipeWrite pi) s)))"

section \<open>A pipe is a queue\<close>

interpretation pq: ring PIPESIZE
  by unfold_locales (simp_all add: PIPESIZE_def)

definition pcontents :: "addr \<Rightarrow> 'a file_state_scheme \<Rightarrow> byte list" where
  "pcontents pi s = ring_contents PIPESIZE (pi_data (pipes s pi)) (pi_nread (pipes s pi)) (pi_nwrite (pipes s pi))"

definition pipe_ok :: "addr \<Rightarrow> 'a file_state_scheme \<Rightarrow> bool" where
  "pipe_ok pi s = (ring_used (pi_nread (pipes s pi)) (pi_nwrite (pipes s pi)) \<le> unat PIPESIZE)"

lemma PIPESIZE_nat [simp]: "unat PIPESIZE = 512"
  by (simp add: PIPESIZE_def)

lemma length_pcontents: "length (pcontents pi s) = ring_used (pi_nread (pipes s pi)) (pi_nwrite (pipes s pi))"
  by (simp add: pcontents_def)

lemma pipe_full: "pipe_ok pi s \<Longrightarrow> pi_nwrite (pipes s pi) = pi_nread (pipes s pi) + PIPESIZE \<longleftrightarrow> length (pcontents pi s) = 512"
  using pq.full_iff [of "pi_nread (pipes s pi)" "pi_nwrite (pipes s pi)"] by (simp add: pipe_ok_def length_pcontents)

lemma pipe_empty: "pi_nread (pipes s pi) = pi_nwrite (pipes s pi) \<longleftrightarrow> pcontents pi s = []"
  using pq.empty_iff [of "pi_data (pipes s pi)" "pi_nread (pipes s pi)" "pi_nwrite (pipes s pi)"] by (auto simp: pcontents_def)

lemma wakeup_files [simp]:
  "pipes (wakeup ch s) = pipes s" "ftable (wakeup ch s) = ftable s" "inodes (wakeup ch s) = inodes s" "sb (wakeup ch s) = sb s"
  "pcontents pi (wakeup ch s) = pcontents pi s" "pipe_ok pi (wakeup ch s) = pipe_ok pi s"
  by (simp_all add: wakeup_eq pcontents_def pipe_ok_def)

lemma pipe_put_fields [simp]:
  "pmem (pipe_put pi c s) = pmem s" "mp (pipe_put pi c s) = mp s" "killed p (pipe_put pi c s) = killed p s"
  "myproc (pipe_put pi c s) = myproc s" "pi_readopen (pipes (pipe_put pi c s) pi) = pi_readopen (pipes s pi)"
  by (simp_all add: pipe_put_def upd_pipe_def mp_def myproc_def killed_def)

lemma pipe_put_queue:
  assumes "pipe_ok pi s" "length (pcontents pi s) < 512"
  shows "pcontents pi (pipe_put pi c s) = pcontents pi s @ [c]" "pipe_ok pi (pipe_put pi c s)"
proof -
  have u: "ring_used (pi_nread (pipes s pi)) (pi_nwrite (pipes s pi)) < unat PIPESIZE"
    using assms(2) by (simp add: length_pcontents)
  show "pcontents pi (pipe_put pi c s) = pcontents pi s @ [c]"
    using pq.put_contents [OF u] by (simp add: pcontents_def pipe_put_def upd_pipe_def unat_mod)
  show "pipe_ok pi (pipe_put pi c s)"
    using pq.used_put [OF u] u by (simp add: pipe_ok_def pipe_put_def upd_pipe_def)
qed

text \<open>The loop from byte \<open>i\<close> on; \<open>bs\<close> are the bytes the writer has at its address.\<close>

lemma pipewrite_loop_queue:
  assumes "pipe_ok pi s" "pi_readopen (pipes s pi)" "\<not> killed (myproc s) s" "i \<le> length bs"
    "\<And>j. j < length bs \<Longrightarrow> copyin (p_pagetable (mp s)) (addr + of_nat j) 1 s = Inr (0, [bs ! j])"
  defines "k \<equiv> min (length bs) (i + (512 - length (pcontents pi s)))"
  shows "\<exists>s'. pipewrite_loop pi addr (int (length bs)) (int i) s =
      Inr (if k = length bs then WrDone (int k) s' else WrSleep (int k) s') \<and>
    pipe_ok pi s' \<and> pcontents pi s' = pcontents pi s @ take (k - i) (drop i bs)"
  using assms(1-5) unfolding k_def
proof (induction "length bs - i" arbitrary: i s)
  case 0
  then have i: "i = length bs" by simp
  then show ?case using 0 by (intro exI [of _ "wakeup (ChPipeRead pi) s"]) (subst pipewrite_loop.simps, simp)
next
  case (Suc d)
  then have i: "i < length bs" by simp
  show ?case
  proof (cases "length (pcontents pi s) = 512")
    case True
    then have "pipewrite_loop pi addr (int (length bs)) (int i) s = Inr (WrSleep (int i) (wakeup (ChPipeRead pi) s))"
      using Suc.prems i pipe_full [of pi s] by (subst pipewrite_loop.simps) simp
    then show ?thesis using True i Suc.prems by (intro exI [of _ "wakeup (ChPipeRead pi) s"]) simp
  next
    case False
    let ?s = "pipe_put pi (bs ! i) s"
    have lt: "length (pcontents pi s) < 512" using False Suc.prems(1) by (simp add: length_pcontents pipe_ok_def)
    note q = pipe_put_queue [OF Suc.prems(1) lt, of "bs ! i"]
    have "copyin (p_pagetable (mp ?s)) (addr + of_nat j) 1 ?s = Inr (0, [bs ! j])" if "j < length bs" for j
      using Suc.prems(5) [OF that] copyin_cong [of ?s s] by simp
    then obtain s' where s': "pipewrite_loop pi addr (int (length bs)) (int (Suc i)) ?s =
        Inr (if min (length bs) (Suc i + (512 - length (pcontents pi ?s))) = length bs
             then WrDone (int (min (length bs) (Suc i + (512 - length (pcontents pi ?s))))) s'
             else WrSleep (int (min (length bs) (Suc i + (512 - length (pcontents pi ?s))))) s')" "pipe_ok pi s'"
        "pcontents pi s' = pcontents pi ?s @ take (min (length bs) (Suc i + (512 - length (pcontents pi ?s))) - Suc i) (drop (Suc i) bs)"
      using Suc.hyps(1) [of "Suc i" ?s] Suc.hyps(2) Suc.prems q i by fastforce
    have e: "Suc i + (512 - length (pcontents pi ?s)) = i + (512 - length (pcontents pi s))" using lt by (simp add: q)
    have l: "pipewrite_loop pi addr (int (length bs)) (int i) s = pipewrite_loop pi addr (int (length bs)) (int (Suc i)) ?s"
      using Suc.prems i lt pipe_full [of pi s] Suc.prems(5) [OF i] by (subst pipewrite_loop.simps) (simp add: add.commute)
    have t: "take (min (length bs) (i + (512 - length (pcontents pi s))) - i) (drop i bs)
        = bs ! i # take (min (length bs) (i + (512 - length (pcontents pi s))) - Suc i) (drop (Suc i) bs)"
      using i lt by (subst Cons_nth_drop_Suc [symmetric, of i bs]) (auto simp: take_Cons')
    have "pcontents pi s' = pcontents pi s @ take (min (length bs) (i + (512 - length (pcontents pi s))) - i) (drop i bs)"
      using s'(3) unfolding e t by (simp only: q(1) append.assoc append_Cons append_Nil)
    then show ?thesis using s'(1,2) unfolding e l by blast
  qed
qed

lemma pipe_get_fields [simp]:
  "pmem (pipe_get pi s) = pmem s" "mp (pipe_get pi s) = mp s" "vm_ok (pipe_get pi s) root T xs = vm_ok s root T xs"
  "user_ok (pipe_get pi s) T xs = user_ok s T xs"
  by (simp_all add: pipe_get_def upd_pipe_def mp_def myproc_def vm_ok_def kmem_inv_def page_ok_def user_ok_def leaves_ok_def leaf_ok_def)

lemma pipe_get_queue:
  assumes "pipe_ok pi s" "pcontents pi s = c # cs"
  shows "pi_data (pipes s pi) (unat (pi_nread (pipes s pi) mod PIPESIZE)) = c" "pcontents pi (pipe_get pi s) = cs"
    "pipe_ok pi (pipe_get pi s)" "pi_nread (pipes s pi) \<noteq> pi_nwrite (pipes s pi)"
proof -
  show ne: "pi_nread (pipes s pi) \<noteq> pi_nwrite (pipes s pi)" using assms(2) pipe_empty [of s pi] by auto
  note g = pq.get_contents [OF ne [symmetric], of "pi_data (pipes s pi)"] and u = pq.used_get [OF ne [symmetric]]
  show "pi_data (pipes s pi) (unat (pi_nread (pipes s pi) mod PIPESIZE)) = c" "pcontents pi (pipe_get pi s) = cs"
    using g assms(2) by (simp_all add: pcontents_def pipe_get_def upd_pipe_def unat_mod)
  show "pipe_ok pi (pipe_get pi s)" using u assms(1) by (simp add: pipe_ok_def pipe_get_def upd_pipe_def)
qed

lemma kmem_only_files:
  assumes "kmem_only s s'"
  shows "pipes s' = pipes s" "mp s' = mp s" "pcontents pi s' = pcontents pi s" "pipe_ok pi s' = pipe_ok pi s"
  using assms by (auto simp: kmem_only_def mp_def myproc_def pcontents_def pipe_ok_def)

text \<open>One byte stored at a writable user address.\<close>

lemma copyout_byte:
  assumes "vm_ok s root T xs" "user_ok s T xs" "uwritable (pmem s) T va"
  obtains s' where "copyout root va [c] s = Inr (0, s')" "vm_ok s' root T xs" "user_ok s' T xs" "kmem_only s s'"
    "\<And>w. uwritable (pmem s') T w = uwritable (pmem s) T w" "\<And>w. uget (pmem s') T w = (if w = va then Some c else uget (pmem s) T w)"
proof -
  obtain s' where s': "copyout root va [c] s = Inr (0, s')" "vm_ok s' root T xs" "user_ok s' T xs"
    "\<And>v. leaf (pmem s') T v = leaf (pmem s) T v"
    "\<And>w. uget (pmem s') T w = (if in_range va 1 w then Some ([c] ! unat (w - va)) else uget (pmem s) T w)"
    using copyout_spec [OF assms(1,2), of "[c]" va] assms(3) by auto
  have "in_range va 1 w \<longleftrightarrow> w = va" for w by (auto simp: in_range_def unat_eq_0)
  then have "uget (pmem s') T w = (if w = va then Some c else uget (pmem s) T w)" for w using s'(5) by simp
  moreover have "uwritable (pmem s') T w = uwritable (pmem s) T w" for w using s'(4) by (simp add: uwritable_def)
  ultimately show ?thesis using that s'(1,2,3) copyout_frame [OF s'(1)] by blast
qed

lemma of_nat_u64_inj: "i < 2 ^ 64 \<Longrightarrow> j < 2 ^ 64 \<Longrightarrow> addr + of_nat i = addr + (of_nat j :: u64) \<longleftrightarrow> i = j"
  by (auto simp: word_of_nat_eq_iff take_bit_nat_eq_self)

lemma piperead_loop_queue:
  assumes "pipe_ok pi s" "vm_ok s (p_pagetable (mp s)) T xs" "user_ok s T xs" "i \<le> n" "n < 2 ^ 64"
    "\<And>j. j < n \<Longrightarrow> uwritable (pmem s) T (addr + of_nat j)"
  defines "k \<equiv> min n (i + length (pcontents pi s))"
  shows "\<exists>s'. piperead_loop pi addr (int n) (int i) s = Inr (int k, s') \<and> pipe_ok pi s' \<and>
    pcontents pi s' = drop (k - i) (pcontents pi s) \<and>
    (\<forall>j < k - i. uget (pmem s') T (addr + of_nat (i + j)) = Some (pcontents pi s ! j)) \<and>
    (\<forall>w. (\<forall>j. i \<le> j \<longrightarrow> j < k \<longrightarrow> w \<noteq> addr + of_nat j) \<longrightarrow> uget (pmem s') T w = uget (pmem s) T w)"
  using assms(1-6) unfolding k_def
proof (induction "n - i" arbitrary: i s)
  case 0
  then show ?case by (subst piperead_loop.simps) simp
next
  case (Suc d)
  then have i: "i < n" by simp
  show ?case
  proof (cases "pcontents pi s")
    case Nil
    then show ?thesis using Suc.prems i pipe_empty [of s pi] by (subst piperead_loop.simps) simp
  next
    case (Cons c cs)
    note g = pipe_get_queue [OF Suc.prems(1) Cons]
    let ?s = "pipe_get pi s"
    have a: "vm_ok ?s (p_pagetable (mp s)) T xs" "user_ok ?s T xs" "uwritable (pmem ?s) T (addr + of_nat i)"
      using Suc.prems(2,3) Suc.prems(6) [OF i] by simp_all
    obtain s1 where s1: "copyout (p_pagetable (mp s)) (addr + of_nat i) [c] ?s = Inr (0, s1)"
      "vm_ok s1 (p_pagetable (mp s)) T xs" "user_ok s1 T xs" "kmem_only ?s s1"
      "\<And>w. uwritable (pmem s1) T w = uwritable (pmem ?s) T w"
      "\<And>w. uget (pmem s1) T w = (if w = addr + of_nat i then Some c else uget (pmem ?s) T w)"
      using copyout_byte [OF a] by blast
    note f = kmem_only_files [OF s1(4)]
    have q1: "pcontents pi s1 = cs" "pipe_ok pi s1" "mp s1 = mp s" using f g by simp_all
    let ?k = "min n (Suc i + length cs)"
    obtain s' where s': "piperead_loop pi addr (int n) (int (Suc i)) s1 = Inr (int ?k, s')" "pipe_ok pi s'"
        "pcontents pi s' = drop (?k - Suc i) cs"
        "\<forall>j < ?k - Suc i. uget (pmem s') T (addr + of_nat (Suc i + j)) = Some (cs ! j)"
        "\<forall>w. (\<forall>j. Suc i \<le> j \<longrightarrow> j < ?k \<longrightarrow> w \<noteq> addr + of_nat j) \<longrightarrow> uget (pmem s') T w = uget (pmem s1) T w"
    proof -
      have "d = n - Suc i" "vm_ok s1 (p_pagetable (mp s1)) T xs" "Suc i \<le> n" "\<And>j. j < n \<Longrightarrow> uwritable (pmem s1) T (addr + of_nat j)"
        using Suc.hyps(2) s1(2,5) q1(3) i Suc.prems(6) by simp_all
      from Suc.hyps(1) [OF this(1) q1(2) this(2) s1(3) this(3) Suc.prems(5) this(4), unfolded q1(1)] show ?thesis using that by blast
    qed
    have l: "piperead_loop pi addr (int n) (int i) s = piperead_loop pi addr (int n) (int (Suc i)) s1"
    proof -
      have si: "int (Suc i) = int i + 1" by simp
      show ?thesis unfolding si using i g(1,4) s1(1) by (subst piperead_loop.simps) simp
    qed
    have "uget (pmem s') T (addr + of_nat i) = Some c"
      using s'(5) s1(6) [of "addr + of_nat i"] of_nat_u64_inj [of i _ addr] Suc.prems(5) i by auto
    then have "\<forall>j < min n (i + length (pcontents pi s)) - i. uget (pmem s') T (addr + of_nat (i + j)) = Some (pcontents pi s ! j)"
      using s'(4) Cons by (auto simp: nth_Cons ac_simps split: nat.splits)
    moreover have "\<forall>w. (\<forall>j. i \<le> j \<longrightarrow> j < min n (i + length (pcontents pi s)) \<longrightarrow> w \<noteq> addr + of_nat j) \<longrightarrow> uget (pmem s') T w = uget (pmem s) T w"
      using s'(5) s1(6) i Cons by auto
    moreover have "pcontents pi s' = drop (min n (i + length (pcontents pi s)) - i) (pcontents pi s)"
      using s'(3) i Cons by (simp add: Suc_diff_le [symmetric] drop_Cons' min_def)
    ultimately show ?thesis using s'(1,2) l Cons by (intro exI [of _ s']) simp
  qed
qed

section \<open>Properties\<close>

text \<open>C17: \<open>pipewrite\<close> appends to the pipe exactly the bytes at the writer's address, in order, as many as
  fit; it returns when all are in, and otherwise sleeps with the pipe full and knows how many it
  has stored.  The 32-bit counters may wrap.\<close>

theorem pipewrite_appends:
  assumes "pipe_ok pi s" "pi_readopen (pipes s pi)" "\<not> killed (myproc s) s"
    "\<forall>j < length bs. copyin (p_pagetable (mp s)) (addr + of_nat j) 1 s = Inr (0, [bs ! j])"
  shows "\<exists>k s'. k = min (length bs) (512 - length (pcontents pi s)) \<and>
    pipewrite_loop pi addr (int (length bs)) 0 s =
      Inr (if k = length bs then WrDone (int k) s' else WrSleep (int k) s') \<and>
    pipe_ok pi s' \<and> pcontents pi s' = pcontents pi s @ take k bs"
  using pipewrite_loop_queue [OF assms(1-3), of 0 bs addr] assms(4)
  unfolding int_ops(1) add_0_left diff_zero drop_0 by blast

text \<open>C18: \<open>piperead\<close> on a pipe with data hands out its oldest bytes, in order, at most as many as asked
  for: the reader finds them at its address, they are gone from the pipe, and the rest of its
  memory is as before.\<close>

theorem piperead_takes:
  assumes "pipe_ok pi s" "pcontents pi s \<noteq> []" "vm_ok s (p_pagetable (mp s)) T xs" "user_ok s T xs" "n < 2 ^ 31"
    "\<forall>j < n. uwritable (pmem s) T (addr + of_nat j)"
  shows "\<exists>k s'. k = min n (length (pcontents pi s)) \<and> piperead pi addr (int n) s = Inr (int k, s') \<and>
    pipe_ok pi s' \<and> pcontents pi s' = drop k (pcontents pi s) \<and>
    (\<forall>j < k. uget (pmem s') T (addr + of_nat j) = Some (pcontents pi s ! j)) \<and>
    (\<forall>w. (\<forall>j < k. w \<noteq> addr + of_nat j) \<longrightarrow> uget (pmem s') T w = uget (pmem s) T w)"
proof -
  obtain s' where s': "piperead_loop pi addr (int n) 0 s = Inr (int (min n (length (pcontents pi s))), s')" "pipe_ok pi s'"
      "pcontents pi s' = drop (min n (length (pcontents pi s))) (pcontents pi s)"
      "\<forall>j < min n (length (pcontents pi s)). uget (pmem s') T (addr + of_nat j) = Some (pcontents pi s ! j)"
      "\<forall>w. (\<forall>j < min n (length (pcontents pi s)). w \<noteq> addr + of_nat j) \<longrightarrow> uget (pmem s') T w = uget (pmem s) T w"
    using piperead_loop_queue [of pi s T xs 0 n addr] assms by auto
  have "piperead pi addr (int n) s = Inr (int (min n (length (pcontents pi s))), wakeup (ChPipeWrite pi) s')"
    using s'(1) assms(2) pipe_empty [of s pi] by (simp add: piperead_def)
  moreover have "pmem (wakeup (ChPipeWrite pi) s') = pmem s'" "pipe_ok pi (wakeup (ChPipeWrite pi) s') = pipe_ok pi s'"
    "pcontents pi (wakeup (ChPipeWrite pi) s') = pcontents pi s'" by simp_all
  ultimately show ?thesis using s'(2-5) by (intro exI [of _ "min n (length (pcontents pi s))"] exI [of _ "wakeup (ChPipeWrite pi) s'"]) (simp only: simp_thms)
qed

section \<open>A machine with one process and one pipe\<close>

definition no_file :: kfile where
  "no_file = \<lparr>f_type = FD_NONE, f_ref = 0, f_readable = False, f_writable = False, f_pipe = 0, f_ip = None, f_off = 0, f_major = 0\<rparr>"

definition no_pipe :: pipe where
  "no_pipe = \<lparr>pi_data = (\<lambda>_. 0), pi_nread = 0, pi_nwrite = 0, pi_readopen = True, pi_writeopen = True\<rparr>"

definition blank_file_state :: file_state where
  "blank_file_state = fs_state.extend (log_state.extend blank_log_state (fs_state.fields small_sb (\<lambda>_. no_inode)))
     (file_state.fields (\<lambda>_. no_file) (\<lambda>_. no_pipe) [0, 0, 0, 0])"

text \<open>The process runs on the one-page address space; the pipe holds the bytes 7, 8 and 9.\<close>

definition pipe_machine :: file_state where
  "pipe_machine = blank_file_state\<lparr>pmem := one_page_mem, freelist := 0, ram_end := 0x80005000, kend := 0x80001000,
     procs := (\<lambda>_. no_proc\<lparr>p_pagetable := 0x80001000, p_killed := False\<rparr>), curproc := Some 0,
     pipes := (\<lambda>_. no_pipe\<lparr>pi_data := (\<lambda>i. of_nat i + 7), pi_nwrite := 3\<rparr>)\<rparr>"

lemma pipe_machine_fields [simp]:
  "pmem pipe_machine = one_page_mem" "freelist pipe_machine = 0" "ram_end pipe_machine = 0x80005000" "kend pipe_machine = 0x80001000"
  "pipes pipe_machine = (\<lambda>_. no_pipe\<lparr>pi_data := (\<lambda>i. of_nat i + 7), pi_nwrite := 3\<rparr>)"
  "p_pagetable (mp pipe_machine) = 0x80001000" "\<not> killed (myproc pipe_machine) pipe_machine"
  by (simp_all add: pipe_machine_def mp_def myproc_def killed_def)

lemma pipe_machine_pipe: "pipe_ok pi pipe_machine" "pcontents pi pipe_machine = [7, 8, 9]" "pi_readopen (pipes pipe_machine pi)"
  by (simp_all add: pipe_ok_def pcontents_def ring_contents_def ring_used_def no_pipe_def PIPESIZE_def upt_rec)

lemma pipe_machine_vm: "vm_ok pipe_machine 0x80001000 one_page_tree []" "user_ok pipe_machine one_page_tree []"
  using one_page_ok one_page_user(1)
  by (simp_all add: vm_ok_def kmem_inv_def page_ok_def user_ok_def leaves_ok_def leaf_ok_def one_page_state_def)

lemma small_address: "i < 3 \<Longrightarrow> i < page_rest 0"
  by (simp add: page_rest_def PGROUNDDOWN_def)

lemma pipe_machine_writable: "i < 3 \<Longrightarrow> uwritable one_page_mem one_page_tree (0 + of_nat i)"
  using same_page(1) [OF small_address, of i] one_page_user(2) by (simp add: uwritable_def one_page_state_def)

lemma pipe_machine_zero: "i < 3 \<Longrightarrow> uget one_page_mem one_page_tree (0 + of_nat i) = Some 0"
proof -
  assume i: "i < 3"
  have z: "one_page_mem (0x80004000 + of_nat j) = 0" if "j = 0 \<or> j = 1 \<or> j = 2" for j
    using that unfolding one_page_mem_def by (auto simp: in_range_def pte_addr_def)
  have "i = 0 \<or> i = 1 \<or> i = 2" using i by auto
  then show ?thesis
    using uget_same_page [OF small_address [OF i], of one_page_mem one_page_tree] one_page_leaf [OF page_aligned_0] z [of i]
    by (simp add: PGROUNDDOWN_def MAXVA_eq one_page_state_def user_pte_def PA2PTE_def PTE2PA_def)
qed

lemma pipe_machine_copyin:
  assumes "j < 3"
  shows "copyin 0x80001000 (0 + of_nat j) 1 pipe_machine = Inr (0, [0])"
proof -
  obtain r bs where "copyin 0x80001000 (0 + of_nat j) 1 pipe_machine = Inr (r, bs)"
    "if \<forall>i < 1. uget one_page_mem one_page_tree (0 + of_nat j + of_nat i) \<noteq> None
     then r = 0 \<and> length bs = 1 \<and> (\<forall>i < 1. uget one_page_mem one_page_tree (0 + of_nat j + of_nat i) = Some (bs ! i)) else r = - 1"
    using copyin_spec [OF pipe_machine_vm(1) user_ok_nonzero [OF pipe_machine_vm], of "0 + of_nat j" 1]
    unfolding pipe_machine_fields(1) by blast
  then show ?thesis using pipe_machine_zero [OF assms] by (cases bs) auto
qed

theorem pipewrite_appends_witness:
  "\<exists>s'. pipewrite_loop 0x80002000 0 3 0 pipe_machine = Inr (WrDone 3 s') \<and> pcontents 0x80002000 s' = [7, 8, 9, 0, 0, 0]"
proof -
  have "\<forall>j < length [0 :: byte, 0, 0]. copyin (p_pagetable (mp pipe_machine)) (0 + of_nat j) 1 pipe_machine = Inr (0, [[0, 0, 0] ! j])"
    using pipe_machine_copyin [of 0] pipe_machine_copyin [of 1] pipe_machine_copyin [of 2] by (auto simp: less_Suc_eq)
  from pipewrite_appends [OF pipe_machine_pipe(1,3) pipe_machine_fields(7) this]
  show ?thesis by (simp add: pipe_machine_pipe(2)) blast
qed

theorem piperead_takes_witness:
  "\<exists>s'. piperead 0x80002000 0 2 pipe_machine = Inr (2, s') \<and> pcontents 0x80002000 s' = [9] \<and>
    uget (pmem s') one_page_tree 1 = Some 8"
proof -
  have "pcontents 0x80002000 pipe_machine \<noteq> []" "vm_ok pipe_machine (p_pagetable (mp pipe_machine)) one_page_tree []"
    "\<forall>j < 2. uwritable (pmem pipe_machine) one_page_tree (0 + of_nat j)"
    using pipe_machine_writable pipe_machine_vm(1) by (simp_all add: pipe_machine_pipe(2))
  from piperead_takes [OF pipe_machine_pipe(1) this(1,2) pipe_machine_vm(2) _ this(3)]
  obtain s' where "piperead 0x80002000 0 2 pipe_machine = Inr (2, s')" "pcontents 0x80002000 s' = [9]"
    "\<forall>j < 2. uget (pmem s') one_page_tree (0 + of_nat j) = Some ([7, 8, 9] ! j)"
    by (auto simp: pipe_machine_pipe(2))
  then show ?thesis by (auto dest: spec [of _ 1])
qed

end
