(* ===== verification/FsPath.thy ===== *)
theory FsPath
  imports Fs
begin

text \<open>
  Directories and path names, the last part of \<^verbatim>\<open>kernel/fs.c\<close>.  A directory is a file of 16-byte
  entries: an inode number and a name padded with zeros to \<open>DIRSIZ\<close> bytes.
\<close>

section \<open>Directories\<close>

text \<open>\<^verbatim>\<open>strncmp\<close> on such strings.\<close>

fun name_strncmp :: "byte list \<Rightarrow> byte list \<Rightarrow> nat \<Rightarrow> int" where
  "name_strncmp p q 0 = 0"
| "name_strncmp p q (Suc n) =
     (if head0 p \<noteq> 0 \<and> head0 p = head0 q then name_strncmp (tl p) (tl q) n else uint (head0 p) - uint (head0 q))"

definition namecmp :: "byte list \<Rightarrow> byte list \<Rightarrow> int" where
  "namecmp s t = name_strncmp s t DIRSIZ"

record dirent =
  de_inum :: u16
  de_name :: "byte list"

definition get_dirent :: "byte list \<Rightarrow> dirent" where
  "get_dirent d = \<lparr>de_inum = get16 0 d, de_name = get_bytes 2 DIRSIZ d\<rparr>"

definition dirent_bytes :: "dirent \<Rightarrow> byte list" where
  "dirent_bytes de = le_bytes 2 (de_inum de) @ de_name de"

definition dirent_size :: nat where "dirent_size = 16"

text \<open>\<open>strncpy(de.name, name, DIRSIZ)\<close>: the name cut or padded to the size of the field.\<close>

definition pad_name :: "byte list \<Rightarrow> byte list" where
  "pad_name name = take DIRSIZ name @ replicate (DIRSIZ - length name) 0"

function dirlookup_loop ::
    "nat \<Rightarrow> byte list \<Rightarrow> nat \<Rightarrow> nat \<Rightarrow> 'a fs_state_scheme \<Rightarrow> ((nat \<times> u32) option \<times> 'a fs_state_scheme) res" where
  "dirlookup_loop dp name off sz s =
     (if off < sz then
        bnd (readi dp ToLocal (of_nat off) (of_nat dirent_size) s) (\<lambda>(r, bs, s).
          if r \<noteq> int dirent_size then panic ''dirlookup read''
          else let de = get_dirent bs in
            if de_inum de \<noteq> 0 \<and> namecmp name (de_name de) = 0
            then bnd (iget (i_dev (inodes s dp)) (ucast (de_inum de)) s) (\<lambda>(ip, s). Inr (Some (ip, of_nat off), s))
            else dirlookup_loop dp name (off + dirent_size) sz s)
      else Inr (None, s))"
  by pat_completeness auto
termination by (relation "measure (\<lambda>(dp, name, off, sz, s). sz - off)") (auto simp: dirent_size_def)

declare dirlookup_loop.simps [simp del]

text \<open>The entry found comes with its offset, which the source stores in \<^verbatim>\<open>*poff\<close>.\<close>

definition dirlookup :: "nat \<Rightarrow> byte list \<Rightarrow> 'a fs_state_scheme \<Rightarrow> ((nat \<times> u32) option \<times> 'a fs_state_scheme) res" where
  "dirlookup dp name s =
     (if i_type (inodes s dp) \<noteq> T_DIR then panic ''dirlookup not DIR''
      else dirlookup_loop dp name 0 (unat (i_size (inodes s dp))) s)"

text \<open>The search of \<open>dirlink\<close> for an empty entry; the offset where it ends.\<close>

function dirlink_scan :: "nat \<Rightarrow> nat \<Rightarrow> nat \<Rightarrow> 'a fs_state_scheme \<Rightarrow> (nat \<times> 'a fs_state_scheme) res" where
  "dirlink_scan dp off sz s =
     (if off < sz then
        bnd (readi dp ToLocal (of_nat off) (of_nat dirent_size) s) (\<lambda>(r, bs, s).
          if r \<noteq> int dirent_size then panic ''dirlink read''
          else if de_inum (get_dirent bs) = 0 then Inr (off, s)
          else dirlink_scan dp (off + dirent_size) sz s)
      else Inr (off, s))"
  by pat_completeness auto
termination by (relation "measure (\<lambda>(dp, off, sz, s). sz - off)") (auto simp: dirent_size_def)

declare dirlink_scan.simps [simp del]

definition dirlink :: "nat \<Rightarrow> byte list \<Rightarrow> u32 \<Rightarrow> 'a fs_state_scheme \<Rightarrow> (int \<times> 'a fs_state_scheme) res" where
  "dirlink dp name inum s =
     bnd (dirlookup dp name s) (\<lambda>(r, s).
       case r of
         Some (ip, _) \<Rightarrow> bnd (iput ip s) (\<lambda>s. Inr (- 1, s))
       | None \<Rightarrow>
           bnd (dirlink_scan dp 0 (unat (i_size (inodes s dp))) s) (\<lambda>(off, s).
             let de = \<lparr>de_inum = ucast inum, de_name = pad_name name\<rparr> in
             bnd (writei dp (FromLocal (dirent_bytes de)) (of_nat off) (of_nat dirent_size) s) (\<lambda>(r, s).
               Inr (if r \<noteq> int dirent_size then - 1 else 0, s))))"

section \<open>Paths\<close>

definition slash :: byte where "slash = 0x2f"

text \<open>
  The next element of a path and what follows it.  The buffer \<open>name\<close> receives at most \<open>DIRSIZ\<close> bytes; a
  shorter element is terminated by a zero, so its later bytes are never read.
\<close>

definition skipelem :: "byte list \<Rightarrow> (byte list \<times> byte list) option" where
  "skipelem path =
     (let path = dropWhile (\<lambda>c. c = slash) path in
      if head0 path = 0 then None
      else let s = takeWhile (\<lambda>c. c \<noteq> slash \<and> c \<noteq> 0) path;
               rest = dropWhile (\<lambda>c. c \<noteq> slash \<and> c \<noteq> 0) path in
        Some (dropWhile (\<lambda>c. c = slash) rest, take DIRSIZ s))"

lemma skipelem_shorter: "skipelem path = Some (rest, name) \<Longrightarrow> length rest < length path"
proof -
  assume a: "skipelem path = Some (rest, name)"
  let ?p = "dropWhile (\<lambda>c. c = slash) path"
  have h: "head0 ?p \<noteq> 0"
  proof
    assume "head0 ?p = 0"
    then show False using a by (simp add: skipelem_def Let_def)
  qed
  then have r: "rest = dropWhile (\<lambda>c. c = slash) (dropWhile (\<lambda>c. c \<noteq> slash \<and> c \<noteq> 0) ?p)"
    using a by (simp only: skipelem_def Let_def if_False option.inject prod.inject)
  obtain c cs where p: "?p = c # cs" using h by (cases ?p) auto
  have "hd ?p \<noteq> slash" by (rule hd_dropWhile) (simp add: p)
  then have cn: "c \<noteq> slash" "c \<noteq> 0" using h by (simp_all add: p)
  have "rest = dropWhile (\<lambda>c. c = slash) (dropWhile (\<lambda>c. c \<noteq> slash \<and> c \<noteq> 0) cs)" unfolding r p using cn by simp
  then have "length rest \<le> length cs" by (simp add: le_trans [OF length_dropWhile_le length_dropWhile_le])
  also have "length cs < length ?p" using p by simp
  also have "length ?p \<le> length path" by (rule length_dropWhile_le)
  finally show ?thesis .
qed

function namex_loop ::
    "byte list \<Rightarrow> bool \<Rightarrow> nat \<Rightarrow> 'a fs_state_scheme \<Rightarrow> ((nat \<times> byte list) option \<times> 'a fs_state_scheme) res" where
  "namex_loop path parent ip s =
     (case skipelem path of
        None \<Rightarrow> if parent then bnd (iput ip s) (\<lambda>s. Inr (None, s)) else Inr (Some (ip, []), s)
      | Some (rest, name) \<Rightarrow>
          bnd (ilock (Some ip) s) (\<lambda>s.
            if i_type (inodes s ip) \<noteq> T_DIR then bnd (iunlockput ip s) (\<lambda>s. Inr (None, s))
            else if parent \<and> head0 rest = 0 then bnd (iunlock (Some ip) s) (\<lambda>s. Inr (Some (ip, name), s))
            else bnd (dirlookup ip name s) (\<lambda>(r, s).
              case r of
                None \<Rightarrow> bnd (iunlockput ip s) (\<lambda>s. Inr (None, s))
              | Some (nxt, _) \<Rightarrow> bnd (iunlockput ip s) (\<lambda>s. namex_loop rest parent nxt s))))"
  by pat_completeness auto
termination by (relation "measure (\<lambda>(path, parent, ip, s). length path)") (auto dest!: skipelem_shorter)

declare namex_loop.simps [simp del]

definition namex ::
    "byte list \<Rightarrow> bool \<Rightarrow> 'a fs_state_scheme \<Rightarrow> ((nat \<times> byte list) option \<times> 'a fs_state_scheme) res" where
  "namex path parent s =
     (if head0 path = slash then bnd (iget ROOTDEV ROOTINO s) (\<lambda>(ip, s). namex_loop path parent ip s)
      else case p_cwd (mp s) of
        None \<Rightarrow> panic ''kerneltrap''
      | Some ip \<Rightarrow> namex_loop path parent ip (idup ip s))"

definition namei :: "byte list \<Rightarrow> 'a fs_state_scheme \<Rightarrow> (nat option \<times> 'a fs_state_scheme) res" where
  "namei path s = bnd (namex path False s) (\<lambda>(r, s). Inr (map_option fst r, s))"

definition nameiparent ::
    "byte list \<Rightarrow> 'a fs_state_scheme \<Rightarrow> ((nat \<times> byte list) option \<times> 'a fs_state_scheme) res" where
  "nameiparent path s = namex path True s"

end
