(* ===== verification/File.thy ===== *)
theory File
  imports Pipe FsPath
begin

text \<open>
  Open files, \<^verbatim>\<open>kernel/file.c\<close>, with \<open>pipealloc\<close> of \<^verbatim>\<open>kernel/pipe.c\<close>, which needs them.  A file is named by its index
  in \<^verbatim>\<open>ftable.file\<close>; \<^verbatim>\<open>ftable.lock\<close> makes the changes of the reference count one step.
\<close>

unbundle bit_operations_syntax

definition fileinit :: "'a file_state_scheme \<Rightarrow> 'a file_state_scheme" where
  "fileinit s = s"

definition filealloc :: "'a file_state_scheme \<Rightarrow> nat option \<times> 'a file_state_scheme" where
  "filealloc s =
     (case find (\<lambda>f. f_ref (ftable s f) = 0) [0..<NFILE] of
        None \<Rightarrow> (None, s)
      | Some f \<Rightarrow> (Some f, upd_file f (\<lambda>x. x\<lparr>f_ref := 1\<rparr>) s))"

definition filedup :: "nat \<Rightarrow> 'a file_state_scheme \<Rightarrow> 'a file_state_scheme res" where
  "filedup f s =
     (if f_ref (ftable s f) < 1 then panic ''filedup'' else Inr (upd_file f (\<lambda>x. x\<lparr>f_ref := f_ref x + 1\<rparr>) s))"

text \<open>A null \<^verbatim>\<open>ip\<close> would fault in the kernel, which \<^verbatim>\<open>kerneltrap\<close> turns into a panic.\<close>

definition iput_ptr :: "nat option \<Rightarrow> 'a fs_state_scheme \<Rightarrow> 'a fs_state_scheme res" where
  "iput_ptr p s = (case p of None \<Rightarrow> panic ''kerneltrap'' | Some ip \<Rightarrow> iput ip s)"

definition fileclose :: "nat \<Rightarrow> 'a file_state_scheme \<Rightarrow> 'a file_state_scheme res" where
  "fileclose f s =
     (if f_ref (ftable s f) < 1 then panic ''fileclose''
      else
        let s = upd_file f (\<lambda>x. x\<lparr>f_ref := f_ref x - 1\<rparr>) s in
        if f_ref (ftable s f) > 0 then Inr s
        else
          let ff = ftable s f;
              s = upd_file f (\<lambda>x. x\<lparr>f_ref := 0, f_type := FD_NONE\<rparr>) s in
          if f_type ff = FD_PIPE then pipeclose (f_pipe ff) (f_writable ff) s
          else if f_type ff = FD_INODE \<or> f_type ff = FD_DEVICE then
            bnd (begin_op s) (\<lambda>s. bnd (iput_ptr (f_ip ff) s) (\<lambda>s. end_op s))
          else Inr s)"

text \<open>The two files are returned as a pair; \<open>None\<close> is the result \<open>-1\<close>.\<close>

definition close_opt :: "nat option \<Rightarrow> 'a file_state_scheme \<Rightarrow> 'a file_state_scheme res" where
  "close_opt f s = (case f of None \<Rightarrow> Inr s | Some f \<Rightarrow> fileclose f s)"

definition pipealloc :: "'a file_state_scheme \<Rightarrow> ((nat \<times> nat) option \<times> 'a file_state_scheme) res" where
  "pipealloc s =
     (let bad = (\<lambda>f0 f1 s. bnd (close_opt f0 s) (\<lambda>s. bnd (close_opt f1 s) (\<lambda>s. Inr (None, s)))) in
      case filealloc s of
        (None, s) \<Rightarrow> bad None None s
      | (Some f0, s) \<Rightarrow>
        (case filealloc s of
           (None, s) \<Rightarrow> bad (Some f0) None s
         | (Some f1, s) \<Rightarrow>
           (case kalloc s of (pi, s) \<Rightarrow>
            if pi = 0 then bad (Some f0) (Some f1) s
            else
              let s = upd_pipe pi (\<lambda>p. p\<lparr>pi_readopen := True, pi_writeopen := True, pi_nwrite := 0, pi_nread := 0\<rparr>) s;
                  s = upd_file f0 (\<lambda>x. x\<lparr>f_type := FD_PIPE, f_readable := True, f_writable := False, f_pipe := pi\<rparr>) s;
                  s = upd_file f1 (\<lambda>x. x\<lparr>f_type := FD_PIPE, f_readable := False, f_writable := True, f_pipe := pi\<rparr>) s
              in Inr (Some (f0, f1), s))))"

text \<open>\<^verbatim>\<open>struct stat\<close> as the user sees it; the four bytes before \<^verbatim>\<open>size\<close> are padding that nobody sets.\<close>

definition stat_bytes :: "stat \<Rightarrow> byte list \<Rightarrow> byte list" where
  "stat_bytes st pad = le_bytes 4 (st_dev st) @ le_bytes 4 (st_ino st) @ le_bytes 2 (st_type st) @ le_bytes 2 (st_nlink st) @
     pad @ le_bytes 8 (st_size st)"

definition filestat :: "nat \<Rightarrow> u64 \<Rightarrow> 'a file_state_scheme \<Rightarrow> (int \<times> 'a file_state_scheme) res" where
  "filestat f addr s =
     (let ff = ftable s f in
      if f_type ff = FD_INODE \<or> f_type ff = FD_DEVICE then
        bnd (ilock (f_ip ff) s) (\<lambda>s.
          let st = stati (the (f_ip ff)) s in
          bnd (iunlock (f_ip ff) s) (\<lambda>s.
          bnd (copyout (p_pagetable (mp s)) addr (stat_bytes st (stack_pad s)) s) (\<lambda>(r, s).
            Inr (if r < 0 then - 1 else 0, s))))
      else Inr (- 1, s))"

definition dev_call :: "devfn \<Rightarrow> u64 \<Rightarrow> int \<Rightarrow> 'a dev_state_scheme \<Rightarrow> (int \<times> 'a dev_state_scheme) res" where
  "dev_call d addr n s = (case d of Consoleread \<Rightarrow> consoleread True addr n s | Consolewrite \<Rightarrow> consolewrite True addr n s)"

definition dev_major :: "u16 \<Rightarrow> (nat \<Rightarrow> devfn option) \<Rightarrow> devfn option" where
  "dev_major m tbl = (if sint m < 0 \<or> sint m \<ge> NDEV then None else tbl (nat (sint m)))"

definition fileread :: "nat \<Rightarrow> u64 \<Rightarrow> int \<Rightarrow> 'a file_state_scheme \<Rightarrow> (int \<times> 'a file_state_scheme) res" where
  "fileread f addr n s =
     (let ff = ftable s f in
      if \<not> f_readable ff then Inr (- 1, s)
      else case f_type ff of
        FD_PIPE \<Rightarrow> piperead (f_pipe ff) addr n s
      | FD_DEVICE \<Rightarrow> (case dev_major (f_major ff) (devsw_read s) of None \<Rightarrow> Inr (- 1, s) | Some d \<Rightarrow> dev_call d addr n s)
      | FD_INODE \<Rightarrow>
          bnd (ilock (f_ip ff) s) (\<lambda>s.
          bnd (readi (the (f_ip ff)) (ToUser addr) (f_off (ftable s f)) (word_of_int n) s) (\<lambda>(r, _, s).
          let s = (if r > 0 then upd_file f (\<lambda>x. x\<lparr>f_off := f_off x + word_of_int r\<rparr>) s else s) in
          bnd (iunlock (f_ip ff) s) (\<lambda>s. Inr (r, s))))
      | FD_NONE \<Rightarrow> panic ''fileread'')"

text \<open>The most bytes one transaction writes: \<open>((MAXOPBLOCKS - 1 - 1 - 2) / 2) * BSIZE\<close>.\<close>

definition write_max :: int where
  "write_max = ((MAXOPBLOCKS - 1 - 1 - 2) div 2) * int BSIZE"

lemma write_max_eq: "write_max = 3072"
  by (simp add: write_max_def MAXOPBLOCKS_def BSIZE_def)

function filewrite_loop ::
    "nat \<Rightarrow> nat option \<Rightarrow> u64 \<Rightarrow> int \<Rightarrow> int \<Rightarrow> 'a file_state_scheme \<Rightarrow> (int \<times> 'a file_state_scheme) res" where
  "filewrite_loop f ip addr n i s =
     (if i < n then
        let n1 = (if n - i > write_max then write_max else n - i) in
        bnd (begin_op s) (\<lambda>s.
        bnd (ilock ip s) (\<lambda>s.
        bnd (writei (the ip) (FromUser (addr + word_of_int i)) (f_off (ftable s f)) (word_of_int n1) s) (\<lambda>(r, s).
        let s = (if r > 0 then upd_file f (\<lambda>x. x\<lparr>f_off := f_off x + word_of_int r\<rparr>) s else s) in
        bnd (iunlock ip s) (\<lambda>s.
        bnd (end_op s) (\<lambda>s.
          if r \<noteq> n1 then Inr (i, s) else filewrite_loop f ip addr n (i + r) s)))))
      else Inr (i, s))"
  by pat_completeness auto

termination filewrite_loop
  by (relation "measure (\<lambda>(f, ip, addr, n, i, s). nat (n - i))") (auto simp: write_max_eq)

declare filewrite_loop.simps [simp del]

definition filewrite :: "nat \<Rightarrow> u64 \<Rightarrow> int \<Rightarrow> 'a file_state_scheme \<Rightarrow> (int \<times> 'a file_state_scheme) res" where
  "filewrite f addr n s =
     (let ff = ftable s f in
      if \<not> f_writable ff then Inr (- 1, s)
      else case f_type ff of
        FD_PIPE \<Rightarrow> pipewrite (f_pipe ff) addr n s
      | FD_DEVICE \<Rightarrow> (case dev_major (f_major ff) (devsw_write s) of None \<Rightarrow> Inr (- 1, s) | Some d \<Rightarrow> dev_call d addr n s)
      | FD_INODE \<Rightarrow> bnd (filewrite_loop f (f_ip ff) addr n 0 s) (\<lambda>(i, s). Inr (if i = n then n else - 1, s))
      | FD_NONE \<Rightarrow> panic ''filewrite'')"

end
