(* ===== verification/ProcLife.thy ===== *)
theory ProcLife
  imports File
begin

text \<open>
  The life of a process, the rest of \<^verbatim>\<open>kernel/proc.c\<close>: \<open>userinit\<close>, \<open>fork\<close>, \<open>exit\<close> and \<open>wait\<close>.  \<^verbatim>\<open>wait_lock\<close> and \<^verbatim>\<open>p->lock\<close>
  make the parts between their acquisition and release one step.  \<open>exit\<close> does not return to its
  caller: the value of the model is the state in which the CPU enters the scheduler.
\<close>

unbundle bit_operations_syntax

section \<open>The first process\<close>

definition initcode :: "byte list" where
  "initcode = [
    0x17, 0x05, 0x00, 0x00, 0x13, 0x05, 0x45, 0x02,
    0x97, 0x05, 0x00, 0x00, 0x93, 0x85, 0x35, 0x02,
    0x93, 0x08, 0x70, 0x00, 0x73, 0x00, 0x00, 0x00,
    0x93, 0x08, 0x20, 0x00, 0x73, 0x00, 0x00, 0x00,
    0xef, 0xf0, 0x9f, 0xff, 0x2f, 0x69, 0x6e, 0x69,
    0x74, 0x00, 0x00, 0x24, 0x00, 0x00, 0x00, 0x00,
    0x00, 0x00, 0x00, 0x00]"

text \<open>
  \<^verbatim>\<open>safestrcpy\<close> into the sixteen bytes of \<^verbatim>\<open>p->name\<close>: at most fifteen bytes and a zero; the bytes behind
  it stay.
\<close>

definition set_name :: "byte list \<Rightarrow> byte list \<Rightarrow> byte list" where
  "set_name src old = (let t = take 15 (cstr src) in t @ 0 # drop (Suc (length t)) old)"

definition userinit :: "'a file_state_scheme \<Rightarrow> 'a file_state_scheme res" where
  "userinit s =
     bnd (allocproc s) (\<lambda>(r, s).
       let s = s\<lparr>initproc := r\<rparr> in
       case r of
         None \<Rightarrow> panic ''kerneltrap''
       | Some p \<Rightarrow>
         bnd (uvmfirst (p_pagetable (procs s p)) initcode s) (\<lambda>s.
           let s = upd_proc p (\<lambda>q. q\<lparr>p_sz := PGSIZE\<rparr>) s;
               s = tf_set (p_trapframe (procs s p)) Epc 0 s;
               s = tf_set (p_trapframe (procs s p)) (XReg 2) PGSIZE s;
               s = upd_proc p (\<lambda>q. q\<lparr>p_name := set_name (bytes_of ''initcode'') (p_name q)\<rparr>) s in
           bnd (namei (bytes_of ''/'') s) (\<lambda>(ip, s).
           Inr (upd_proc p (\<lambda>q. q\<lparr>p_cwd := ip, p_state := RUNNABLE\<rparr>) s))))"

section \<open>fork\<close>

definition fork_fd :: "nat \<Rightarrow> nat \<Rightarrow> nat \<Rightarrow> 'a file_state_scheme \<Rightarrow> 'a file_state_scheme res" where
  "fork_fd p np i s =
     (case p_ofile (procs s p) i of
        None \<Rightarrow> Inr s
      | Some f \<Rightarrow> bnd (filedup f s) (\<lambda>s. Inr (upd_proc np (\<lambda>q. q\<lparr>p_ofile := (p_ofile q)(i := Some f)\<rparr>) s)))"

definition fork :: "'a file_state_scheme \<Rightarrow> (int \<times> 'a file_state_scheme) res" where
  "fork s =
     (let p = myproc s in
      bnd (allocproc s) (\<lambda>(r, s).
        case r of
          None \<Rightarrow> Inr (- 1, s)
        | Some np \<Rightarrow>
          bnd (uvmcopy (p_pagetable (procs s p)) (p_pagetable (procs s np)) (p_sz (procs s p)) s) (\<lambda>(r, s).
            if r < 0 then bnd (freeproc np s) (\<lambda>s. Inr (- 1, s))
            else
              let s = upd_proc np (\<lambda>q. q\<lparr>p_sz := p_sz (procs s p)\<rparr>) s;
                  s = s\<lparr>pmem := write_bytes (pmem s) (p_trapframe (procs s np)) (read_bytes (pmem s) (p_trapframe (procs s p)) tf_size)\<rparr>;
                  s = tf_set (p_trapframe (procs s np)) (AReg 0) 0 s in
              bnd (foldM (fork_fd p np) [0..<NOFILE] s) (\<lambda>s.
                case p_cwd (procs s p) of
                  None \<Rightarrow> panic ''kerneltrap''
                | Some cwd \<Rightarrow>
                  let s = idup cwd s;
                      s = upd_proc np (\<lambda>q. q\<lparr>p_cwd := Some cwd\<rparr>) s;
                      s = upd_proc np (\<lambda>q. q\<lparr>p_name := set_name (p_name (procs s p)) (p_name q)\<rparr>) s;
                      pid = p_pid (procs s np);
                      s = upd_proc np (\<lambda>q. q\<lparr>p_parent := Some p\<rparr>) s;
                      s = upd_proc np (\<lambda>q. q\<lparr>p_state := RUNNABLE\<rparr>) s
                  in Inr (pid, s)))))"

section \<open>exit and wait\<close>

text \<open>\<^verbatim>\<open>wakeup\<close> on a process structure; nobody sleeps on the null pointer.\<close>

definition wakeup_proc :: "nat option \<Rightarrow> 'a proc_state_scheme \<Rightarrow> 'a proc_state_scheme" where
  "wakeup_proc q s = (case q of None \<Rightarrow> s | Some i \<Rightarrow> wakeup (ChProc i) s)"

definition reparent_one :: "nat \<Rightarrow> nat \<Rightarrow> 'a proc_state_scheme \<Rightarrow> 'a proc_state_scheme" where
  "reparent_one p pp s =
     (if p_parent (procs s pp) = Some p
      then wakeup_proc (initproc s) (upd_proc pp (\<lambda>q. q\<lparr>p_parent := initproc s\<rparr>) s) else s)"

definition reparent :: "nat \<Rightarrow> 'a proc_state_scheme \<Rightarrow> 'a proc_state_scheme" where
  "reparent p s = fold (reparent_one p) [0..<NPROC] s"

definition exit_fd :: "nat \<Rightarrow> nat \<Rightarrow> 'a file_state_scheme \<Rightarrow> 'a file_state_scheme res" where
  "exit_fd p fd s =
     (case p_ofile (procs s p) fd of
        None \<Rightarrow> Inr s
      | Some f \<Rightarrow> bnd (fileclose f s) (\<lambda>s. Inr (upd_proc p (\<lambda>q. q\<lparr>p_ofile := (p_ofile q)(fd := None)\<rparr>) s)))"

definition exit :: "int \<Rightarrow> 'a file_state_scheme \<Rightarrow> 'a file_state_scheme res" where
  "exit status s =
     (let p = myproc s in
      if initproc s = Some p then panic ''init exiting''
      else bnd (foldM (exit_fd p) [0..<NOFILE] s) (\<lambda>s.
        bnd (begin_op s) (\<lambda>s.
        bnd (iput_ptr (p_cwd (procs s p)) s) (\<lambda>s.
        bnd (end_op s) (\<lambda>s.
          let s = upd_proc p (\<lambda>q. q\<lparr>p_cwd := None\<rparr>) s;
              s = reparent p s;
              s = wakeup_proc (p_parent (procs s p)) s
          in Inr (upd_proc p (\<lambda>q. q\<lparr>p_xstate := status, p_state := ZOMBIE\<rparr>) s))))))"

text \<open>One scan of the table: the result of \<open>wait\<close> if it ends there, otherwise whether there are children.\<close>

fun wait_scan :: "nat \<Rightarrow> u64 \<Rightarrow> bool \<Rightarrow> nat list \<Rightarrow> 'a file_state_scheme \<Rightarrow> (int option \<times> bool \<times> 'a file_state_scheme) res" where
  "wait_scan p addr havekids [] s = Inr (None, havekids, s)"
| "wait_scan p addr havekids (pp # pps) s =
     (if p_parent (procs s pp) = Some p then
        if p_state (procs s pp) = ZOMBIE then
          let pid = p_pid (procs s pp) in
          bnd (if addr \<noteq> 0 then copyout (p_pagetable (procs s p)) addr (le_bytes 4 (word_of_int (p_xstate (procs s pp)) :: u32)) s
               else Inr (0, s)) (\<lambda>(r, s).
            if r < 0 then Inr (Some (- 1), True, s)
            else bnd (freeproc pp s) (\<lambda>s. Inr (Some pid, True, s)))
        else wait_scan p addr True pps s
      else wait_scan p addr havekids pps s)"

definition wait :: "u64 \<Rightarrow> 'a file_state_scheme \<Rightarrow> (int \<times> 'a file_state_scheme) res" where
  "wait addr s =
     (let p = myproc s in
      bnd (wait_scan p addr False [0..<NPROC] s) (\<lambda>(r, havekids, s).
        case r of
          Some pid \<Rightarrow> Inr (pid, s)
        | None \<Rightarrow> if \<not> havekids \<or> killed p s then Inr (- 1, s) else Inl (Sleep (ChProc p))))"

text \<open>\<open>yield\<close> up to the call of \<^verbatim>\<open>sched\<close>.\<close>

definition yield :: "'a proc_state_scheme \<Rightarrow> 'a proc_state_scheme" where
  "yield s = upd_proc (myproc s) (\<lambda>q. q\<lparr>p_state := RUNNABLE\<rparr>) s"

end
