(* ===== verification/Sbi.thy ===== *)
theory Sbi
  imports ProcLife
begin

text \<open>
  Calls to the firmware, \<^verbatim>\<open>kernel/sbi.c\<close> and \<^verbatim>\<open>kernel/sbi.h\<close>, and \<^verbatim>\<open>kernel/shutdown.c\<close>.  The firmware is the environment:
  \<open>sbi_fw\<close> is the answer it gives to a call after a history of calls.  \<open>r_tp\<close> is the thread pointer
  register, in which the kernel keeps the number of the hart.
\<close>

unbundle bit_operations_syntax

record sbiret =
  sr_error :: int
  sr_value :: int

record sbicall =
  sc_extension :: u64
  sc_function :: u64
  sc_args :: "u64 list"

record hart_state = file_state +
  r_tp :: u64
  sbi_fw :: "sbicall list \<Rightarrow> sbicall \<Rightarrow> sbiret"
  sbi_log :: "sbicall list"

datatype sbierr =
    SBI_SUCCESS | SBI_ERR_FAILED | SBI_ERR_NOT_SUPPORTED | SBI_ERR_INVALID_PARAM | SBI_ERR_DENIED
  | SBI_ERR_INVALID_ADDRESS | SBI_ERR_ALREADY_AVAILABLE | SBI_ERR_ALREADY_STARTED
  | SBI_ERR_ALREADY_STOPPED | SBI_ERR_NO_SHMEM

fun sbierr_code :: "sbierr \<Rightarrow> int" where
  "sbierr_code SBI_SUCCESS = 0"
| "sbierr_code SBI_ERR_FAILED = - 1"
| "sbierr_code SBI_ERR_NOT_SUPPORTED = - 2"
| "sbierr_code SBI_ERR_INVALID_PARAM = - 3"
| "sbierr_code SBI_ERR_DENIED = - 4"
| "sbierr_code SBI_ERR_INVALID_ADDRESS = - 5"
| "sbierr_code SBI_ERR_ALREADY_AVAILABLE = - 6"
| "sbierr_code SBI_ERR_ALREADY_STARTED = - 7"
| "sbierr_code SBI_ERR_ALREADY_STOPPED = - 8"
| "sbierr_code SBI_ERR_NO_SHMEM = - 9"

datatype sbiext =
    SBI_EXTENSION_BASE | SBI_EXTENSION_TIME | SBI_EXTENSION_IPI | SBI_EXTENSION_RFNC | SBI_EXTENSION_HSM
  | SBI_EXTENSION_SRST | SBI_EXTENSION_PMU | SBI_EXTENSION_DBCN | SBI_EXTENSION_SUSP | SBI_EXTENSION_CPPC
  | SBI_EXTENSION_NACL | SBI_EXTENSION_STA | SBI_EXTENSION_FWFT

fun sbiext_code :: "sbiext \<Rightarrow> u64" where
  "sbiext_code SBI_EXTENSION_BASE = 0x10"
| "sbiext_code SBI_EXTENSION_TIME = 0x54494D45"
| "sbiext_code SBI_EXTENSION_IPI = 0x735049"
| "sbiext_code SBI_EXTENSION_RFNC = 0x52464E43"
| "sbiext_code SBI_EXTENSION_HSM = 0x48534D"
| "sbiext_code SBI_EXTENSION_SRST = 0x53525354"
| "sbiext_code SBI_EXTENSION_PMU = 0x504D55"
| "sbiext_code SBI_EXTENSION_DBCN = 0x4442434E"
| "sbiext_code SBI_EXTENSION_SUSP = 0x53555350"
| "sbiext_code SBI_EXTENSION_CPPC = 0x43505043"
| "sbiext_code SBI_EXTENSION_NACL = 0x4E41434C"
| "sbiext_code SBI_EXTENSION_STA = 0x535441"
| "sbiext_code SBI_EXTENSION_FWFT = 0x46574654"

definition SBI_FEAT_SHADOW_STACK :: u64 where "SBI_FEAT_SHADOW_STACK = 2"
definition SBI_RESET_SHUTDOWN :: u64 where "SBI_RESET_SHUTDOWN = 0"
definition SBI_RESET_NO_REASON :: u64 where "SBI_RESET_NO_REASON = 0"

definition SBI_SPEC_VERSION_MAJOR :: "u32 \<Rightarrow> u32" where
  "SBI_SPEC_VERSION_MAJOR x = drop_bit 6 x AND 0xFF"

definition SBI_SPEC_VERSION_MINOR :: "u32 \<Rightarrow> u32" where
  "SBI_SPEC_VERSION_MINOR x = x AND 0xFFFFFF"

definition ecall :: "sbiext \<Rightarrow> u64 \<Rightarrow> u64 list \<Rightarrow> 'a hart_state_scheme \<Rightarrow> sbiret \<times> 'a hart_state_scheme" where
  "ecall extension function args s =
     (let c = \<lparr>sc_extension = sbiext_code extension, sc_function = function, sc_args = args\<rparr> in
      (sbi_fw s (sbi_log s) c, s\<lparr>sbi_log := sbi_log s @ [c]\<rparr>))"

definition sbi_value :: "sbiext \<Rightarrow> u64 \<Rightarrow> u64 list \<Rightarrow> 'a hart_state_scheme \<Rightarrow> u64 \<times> 'a hart_state_scheme" where
  "sbi_value ext f args s = (let (r, s) = ecall ext f args s in (word_of_int (sr_value r), s))"

fun sbi_error_str :: "sbierr \<Rightarrow> string" where
  "sbi_error_str SBI_SUCCESS = ''SBI_SUCCESS''"
| "sbi_error_str SBI_ERR_FAILED = ''SBI_ERR_FAILED''"
| "sbi_error_str SBI_ERR_NOT_SUPPORTED = ''SBI_ERR_NOT_SUPPORTED''"
| "sbi_error_str SBI_ERR_INVALID_PARAM = ''SBI_ERR_INVALID_PARAM''"
| "sbi_error_str SBI_ERR_DENIED = ''SBI_ERR_DENIED''"
| "sbi_error_str SBI_ERR_INVALID_ADDRESS = ''SBI_ERR_INVALID_ADDRESS''"
| "sbi_error_str SBI_ERR_ALREADY_AVAILABLE = ''SBI_ERR_ALREADY_AVAILABLE''"
| "sbi_error_str SBI_ERR_ALREADY_STARTED = ''SBI_ERR_ALREADY_STARTED''"
| "sbi_error_str SBI_ERR_ALREADY_STOPPED = ''SBI_ERR_ALREADY_STOPPED''"
| "sbi_error_str SBI_ERR_NO_SHMEM = ''SBI_ERR_NO_SHMEM''"

definition sbi_get_spec_version :: "'a hart_state_scheme \<Rightarrow> u32 \<times> 'a hart_state_scheme" where
  "sbi_get_spec_version s = (let (v, s) = sbi_value SBI_EXTENSION_BASE 0 [0, 0, 0, 0, 0, 0] s in (ucast v, s))"

definition sbi_get_impl_id :: "'a hart_state_scheme \<Rightarrow> u64 \<times> 'a hart_state_scheme" where
  "sbi_get_impl_id = sbi_value SBI_EXTENSION_BASE 1 [0, 0, 0, 0, 0, 0]"

definition sbi_get_impl_str :: "'a hart_state_scheme \<Rightarrow> string \<times> 'a hart_state_scheme" where
  "sbi_get_impl_str s =
     (let (v, s) = sbi_get_impl_id s in
      (if v = 0 then ''BBL''
       else if v = 1 then ''OpenSBI''
       else if v = 2 then ''Xvisor''
       else if v = 3 then ''KVM''
       else if v = 4 then ''RustSBI''
       else if v = 5 then ''Dioxis''
       else if v = 6 then ''Coffer''
       else if v = 7 then ''Xen''
       else if v = 8 then ''PolarFire Hart Software Services''
       else ''Unknown'', s))"

definition sbi_get_impl_version :: "'a hart_state_scheme \<Rightarrow> u64 \<times> 'a hart_state_scheme" where
  "sbi_get_impl_version = sbi_value SBI_EXTENSION_BASE 2 [0, 0, 0, 0, 0, 0]"

definition sbi_probe_extension :: "sbiext \<Rightarrow> 'a hart_state_scheme \<Rightarrow> u64 \<times> 'a hart_state_scheme" where
  "sbi_probe_extension e = sbi_value SBI_EXTENSION_BASE 3 [sbiext_code e, 0, 0, 0, 0, 0]"

definition sbi_get_mvendorid :: "'a hart_state_scheme \<Rightarrow> u64 \<times> 'a hart_state_scheme" where
  "sbi_get_mvendorid = sbi_value SBI_EXTENSION_BASE 4 [0, 0, 0, 0, 0, 0]"

definition sbi_get_marchid :: "'a hart_state_scheme \<Rightarrow> u64 \<times> 'a hart_state_scheme" where
  "sbi_get_marchid = sbi_value SBI_EXTENSION_BASE 5 [0, 0, 0, 0, 0, 0]"

definition sbi_get_mimpid :: "'a hart_state_scheme \<Rightarrow> u64 \<times> 'a hart_state_scheme" where
  "sbi_get_mimpid = sbi_value SBI_EXTENSION_BASE 6 [0, 0, 0, 0, 0, 0]"

definition sbi_set_timer :: "u64 \<Rightarrow> 'a hart_state_scheme \<Rightarrow> 'a hart_state_scheme" where
  "sbi_set_timer stime_value s = snd (ecall SBI_EXTENSION_TIME 0 [stime_value, 0, 0, 0, 0, 0] s)"

definition sbi_debug_console_write :: "u64 \<Rightarrow> u64 \<Rightarrow> 'a hart_state_scheme \<Rightarrow> sbiret \<times> 'a hart_state_scheme" where
  "sbi_debug_console_write num_bytes ptr =
     ecall SBI_EXTENSION_DBCN 0 [num_bytes, ptr AND 0xffffffff, ucast (ucast (drop_bit 16 (drop_bit 16 ptr)) :: u32), 0, 0, 0]"

definition sbi_hart_start :: "u64 \<Rightarrow> u64 \<Rightarrow> u64 \<Rightarrow> 'a hart_state_scheme \<Rightarrow> sbiret \<times> 'a hart_state_scheme" where
  "sbi_hart_start hartid addr opaque = ecall SBI_EXTENSION_HSM 0 [hartid, addr, opaque, 0, 0, 0]"

definition sbi_hart_stop :: "'a hart_state_scheme \<Rightarrow> sbiret \<times> 'a hart_state_scheme" where
  "sbi_hart_stop = ecall SBI_EXTENSION_HSM 1 [0, 0, 0, 0, 0, 0]"

definition sbi_hart_get_status :: "u64 \<Rightarrow> 'a hart_state_scheme \<Rightarrow> sbiret \<times> 'a hart_state_scheme" where
  "sbi_hart_get_status hartid = ecall SBI_EXTENSION_HSM 2 [hartid, 0, 0, 0, 0, 0]"

definition sbi_fwft_set :: "u64 \<Rightarrow> u64 \<Rightarrow> u64 \<Rightarrow> 'a hart_state_scheme \<Rightarrow> sbiret \<times> 'a hart_state_scheme" where
  "sbi_fwft_set feature val flags = ecall SBI_EXTENSION_FWFT 0 [feature, val, flags, 0, 0, 0]"

definition sbi_fwft_get :: "u64 \<Rightarrow> 'a hart_state_scheme \<Rightarrow> sbiret \<times> 'a hart_state_scheme" where
  "sbi_fwft_get feature = ecall SBI_EXTENSION_FWFT 0 [feature, 0, 0, 0, 0, 0]"

definition sbi_system_reset :: "u64 \<Rightarrow> u64 \<Rightarrow> 'a hart_state_scheme \<Rightarrow> sbiret \<times> 'a hart_state_scheme" where
  "sbi_system_reset type reason = ecall SBI_EXTENSION_SRST type [reason, 0, 0, 0, 0, 0]"

section \<open>Shutdown\<close>

definition cpuid :: "'a hart_state_scheme \<Rightarrow> u64" where
  "cpuid s = scast (ucast (r_tp s) :: u32)"

text \<open>An error code outside the enumeration has no string: the source then returns nothing.\<close>

definition error_str :: "int \<Rightarrow> parg" where
  "error_str e = (case find (\<lambda>x. sbierr_code x = e)
      [SBI_SUCCESS, SBI_ERR_FAILED, SBI_ERR_NOT_SUPPORTED, SBI_ERR_INVALID_PARAM, SBI_ERR_DENIED,
       SBI_ERR_INVALID_ADDRESS, SBI_ERR_ALREADY_AVAILABLE, SBI_ERR_ALREADY_STARTED, SBI_ERR_ALREADY_STOPPED, SBI_ERR_NO_SHMEM]
     of None \<Rightarrow> PNum 0 | Some x \<Rightarrow> PStr (Some (bytes_of (sbi_error_str x))))"

definition sys_shutdown :: "'a hart_state_scheme \<Rightarrow> (u64 \<times> 'a hart_state_scheme) res" where
  "sys_shutdown s =
     (let (v, s) = sbi_probe_extension SBI_EXTENSION_SRST s in
      if v = 0 then
        bnd (printf (bytes_of ''kernel(%d): system reset extension not supported'' @ [10]) [PNum (cpuid s)] s) (\<lambda>(_, s). Inr (- 1, s))
      else let (r, s) = sbi_system_reset SBI_RESET_SHUTDOWN SBI_RESET_NO_REASON s in
        if sr_error r \<noteq> sbierr_code SBI_SUCCESS then
          bnd (printf (bytes_of ''kernel(%d): shutdown failed: %s'' @ [10]) [PNum (cpuid s), error_str (sr_error r)] s) (\<lambda>(_, s). Inr (- 1, s))
        else Inr (0, s))"

end
