(* ===== verification/Exec.thy ===== *)
theory Exec
  imports Sbi
begin

text \<open>
  \<open>exec\<close>, \<^verbatim>\<open>kernel/exec.c\<close>, with the ELF headers of \<^verbatim>\<open>kernel/elf.h\<close>.  The headers read into local variables are
  decoded from their bytes; the argument vector is a list of strings.
\<close>

unbundle bit_operations_syntax

section \<open>ELF\<close>

definition ELF_MAGIC :: u32 where "ELF_MAGIC = 0x464C457F"
definition ELF_PROG_LOAD :: u32 where "ELF_PROG_LOAD = 1"
definition MAXARG :: nat where "MAXARG = 32"

record elfhdr =
  eh_magic :: u32
  eh_entry :: u64
  eh_phoff :: u64
  eh_phnum :: u16

record proghdr =
  ph_type :: u32
  ph_flags :: u32
  ph_off :: u64
  ph_vaddr :: u64
  ph_filesz :: u64
  ph_memsz :: u64

definition elfhdr_size :: nat where "elfhdr_size = 64"
definition proghdr_size :: nat where "proghdr_size = 56"

definition get_elfhdr :: "byte list \<Rightarrow> elfhdr" where
  "get_elfhdr d = \<lparr>eh_magic = get32 0 d, eh_entry = get64 24 d, eh_phoff = get64 32 d, eh_phnum = get16 56 d\<rparr>"

definition get_proghdr :: "byte list \<Rightarrow> proghdr" where
  "get_proghdr d = \<lparr>ph_type = get32 0 d, ph_flags = get32 4 d, ph_off = get64 8 d, ph_vaddr = get64 16 d,
     ph_filesz = get64 32 d, ph_memsz = get64 40 d\<rparr>"

definition flags2perm :: "u32 \<Rightarrow> u64" where
  "flags2perm flags =
     (let perm = (if flags AND 1 \<noteq> 0 then PTE_X else 0)
      in if flags AND 2 \<noteq> 0 then perm OR PTE_W else perm)"

definition min_uint :: "u32 \<Rightarrow> u32 \<Rightarrow> u32" where
  "min_uint a b = (if a < b then a else b)"

section \<open>Loading\<close>

text \<open>
  The offset of the loop is 32 bits wide.  If it wraps, the loop starts over on the same pages and
  never ends.
\<close>

function loadseg_loop :: "addr \<Rightarrow> u64 \<Rightarrow> nat \<Rightarrow> u32 \<Rightarrow> u32 \<Rightarrow> u32 \<Rightarrow> 'a fs_state_scheme \<Rightarrow> (int \<times> 'a fs_state_scheme) res" where
  "loadseg_loop pagetable va ip offset sz i s =
     (if i < sz then
        bnd (walkaddr pagetable (va + ucast i) s) (\<lambda>pa.
          if pa = 0 then panic ''loadseg: address should exist''
          else let n = (if sz - i < 4096 then sz - i else 4096) in
            bnd (readi ip (ToKernel pa) (offset + i) n s) (\<lambda>(r, _, s).
              if r \<noteq> uint n then Inr (- 1, s)
              else if i + 4096 < i then Inl Diverge
              else loadseg_loop pagetable va ip offset sz (i + 4096) s))
      else Inr (0, s))"
  by pat_completeness auto

lemma loadseg_step:
  fixes i sz :: u32
  assumes "i < sz" "\<not> i + 4096 < i"
  shows "unat sz - unat (i + 4096) < unat sz - unat i"
proof -
  have "i \<noteq> i + 4096" by simp
  then have "i < i + 4096" using assms(2) neq_iff [of i "i + 4096"] by blast
  then have "unat i < unat (i + 4096)" by (simp only: word_less_nat_alt)
  moreover have "unat i < unat sz" using assms(1) by (simp add: word_less_nat_alt)
  ultimately show ?thesis by linarith
qed

termination loadseg_loop
  by (relation "measure (\<lambda>(pagetable, va, ip, offset, sz, i, s). unat sz - unat i)") (auto intro: loadseg_step)

declare loadseg_loop.simps [simp del]

definition loadseg :: "addr \<Rightarrow> u64 \<Rightarrow> nat \<Rightarrow> u32 \<Rightarrow> u32 \<Rightarrow> 'a fs_state_scheme \<Rightarrow> (int \<times> 'a fs_state_scheme) res" where
  "loadseg pagetable va ip offset sz s =
     (if va mod PGSIZE \<noteq> 0 then
        let pgleft = 4096 - ucast (va AND 0xfff) in
        bnd (walkaddr pagetable va s) (\<lambda>pa.
          if pa = 0 then panic ''loadseg: address should exist''
          else let n = min_uint pgleft sz in
            bnd (readi ip (ToKernel pa) offset n s) (\<lambda>(r, _, s).
              if r \<noteq> uint n then Inr (- 1, s)
              else if sz \<le> pgleft then Inr (0, s)
              else loadseg_loop pagetable va ip offset sz n s))
      else loadseg_loop pagetable va ip offset sz 0 s)"

text \<open>A message about the program being loaded.\<close>

definition exec_msg :: "string \<Rightarrow> byte list \<Rightarrow> parg list \<Rightarrow> 'a hart_state_scheme \<Rightarrow> 'a hart_state_scheme res" where
  "exec_msg msg path args s =
     bnd (printf (bytes_of (''kernel(%d): exec %s: '' @ msg)) (PNum (cpuid s) # PStr (Some (cstr path)) # args) s) (\<lambda>(_, s). Inr s)"

text \<open>The loop over the program headers: the size reached, and whether all went well.\<close>

fun exec_load ::
    "byte list \<Rightarrow> addr \<Rightarrow> nat \<Rightarrow> nat list \<Rightarrow> u32 \<Rightarrow> u64 \<Rightarrow> 'a hart_state_scheme \<Rightarrow> (u64 \<times> bool \<times> 'a hart_state_scheme) res" where
  "exec_load path pagetable ip [] off sz s = Inr (sz, True, s)"
| "exec_load path pagetable ip (i # is) off sz s =
     bnd (readi ip ToLocal off (of_nat proghdr_size) s) (\<lambda>(r, d, s).
       if r \<noteq> int proghdr_size then
         bnd (exec_msg (''could not get program header %d'' @ [CHR 0x0A]) path [PNum (of_nat i)] s) (\<lambda>s. Inr (sz, False, s))
       else let ph = get_proghdr d; off' = off + of_nat proghdr_size in
         if ph_type ph \<noteq> ELF_PROG_LOAD then exec_load path pagetable ip is off' sz s
         else if ph_memsz ph < ph_filesz ph then
           bnd (exec_msg (''program header %d memory size is smaller than file size'' @ [CHR 0x0A]) path [PNum (of_nat i)] s) (\<lambda>s. Inr (sz, False, s))
         else if ph_vaddr ph + ph_memsz ph < ph_vaddr ph then
           bnd (exec_msg ''unknown error on program header %d'' path [PNum (of_nat i)] s) (\<lambda>s. Inr (sz, False, s))
         else bnd (uvmalloc pagetable sz (ph_vaddr ph + ph_memsz ph) (flags2perm (ph_flags ph)) s) (\<lambda>(sz1, s).
           if sz1 = 0 then
             bnd (exec_msg (''program header %d could not be mapped'' @ [CHR 0x0A]) path [PNum (of_nat i)] s) (\<lambda>s. Inr (sz, False, s))
           else bnd (loadseg pagetable (ph_vaddr ph) ip (ucast (ph_off ph)) (ucast (ph_filesz ph)) s) (\<lambda>(r, s).
             if r < 0 then Inr (sz1, False, s)
             else exec_load path pagetable ip is off' sz1 s)))"

section \<open>The arguments\<close>

text \<open>The strings are pushed one below the other; the result is the stack pointer and the pointers.\<close>

fun exec_push ::
    "addr \<Rightarrow> u64 \<Rightarrow> byte list list \<Rightarrow> u64 \<Rightarrow> u64 list \<Rightarrow> 'a kmem_state_scheme \<Rightarrow> ((u64 \<times> u64 list) option \<times> 'a kmem_state_scheme) res" where
  "exec_push pagetable stackbase [] sp ustack s = Inr (Some (sp, ustack), s)"
| "exec_push pagetable stackbase (arg # argv) sp ustack s =
     (if length ustack \<ge> MAXARG then Inr (None, s)
      else let sp = sp - of_nat (length arg + 1);
               sp = sp - sp mod 16 in
        if sp < stackbase then Inr (None, s)
        else bnd (copyout pagetable sp (arg @ [0]) s) (\<lambda>(r, s).
          if r < 0 then Inr (None, s)
          else exec_push pagetable stackbase argv sp (ustack @ [sp]) s))"

definition last_elem :: "byte list \<Rightarrow> byte list" where
  "last_elem path = rev (takeWhile (\<lambda>c. c \<noteq> slash) (rev (cstr path)))"

section \<open>exec\<close>

definition exec_bad :: "addr \<Rightarrow> u64 \<Rightarrow> nat option \<Rightarrow> 'a hart_state_scheme \<Rightarrow> (int \<times> 'a hart_state_scheme) res" where
  "exec_bad pagetable sz ip s =
     bnd (if pagetable \<noteq> 0 then proc_freepagetable pagetable sz s else Inr s) (\<lambda>s.
     bnd (case ip of None \<Rightarrow> Inr s | Some ip \<Rightarrow> bnd (iunlockput ip s) (\<lambda>s. end_op s)) (\<lambda>s.
     Inr (- 1, s)))"

text \<open>From the moment the program is loaded and its inode released.\<close>

definition exec_commit ::
    "byte list \<Rightarrow> byte list list \<Rightarrow> u64 \<Rightarrow> addr \<Rightarrow> u64 \<Rightarrow> 'a hart_state_scheme \<Rightarrow> (int \<times> 'a hart_state_scheme) res" where
  "exec_commit path argv entry pagetable sz s =
     (let p = myproc s;
          oldsz = p_sz (procs s p);
          sz = PGROUNDUP sz in
      bnd (uvmalloc pagetable sz (sz + 2 * PGSIZE) PTE_W s) (\<lambda>(sz1, s).
        if sz1 = 0 then exec_bad pagetable sz None s
        else bnd (uvmclear pagetable (sz1 - 2 * PGSIZE) s) (\<lambda>s.
          let stackbase = sz1 - PGSIZE in
          bnd (exec_push pagetable stackbase argv sz1 [] s) (\<lambda>(r, s).
            case r of
              None \<Rightarrow> exec_bad pagetable sz1 None s
            | Some (sp, ustack) \<Rightarrow>
              let argc = length ustack;
                  sp = sp - of_nat (argc + 1) * 8;
                  sp = sp - sp mod 16 in
              if sp < stackbase then exec_bad pagetable sz1 None s
              else bnd (copyout pagetable sp (concat (map (le_bytes 8) (ustack @ [0]))) s) (\<lambda>(r, s).
                if r < 0 then exec_bad pagetable sz1 None s
                else
                  let s = tf_set (p_trapframe (procs s p)) (AReg 1) sp s;
                      s = upd_proc p (\<lambda>q. q\<lparr>p_name := set_name (last_elem path) (p_name q)\<rparr>) s;
                      oldpagetable = p_pagetable (procs s p);
                      s = upd_proc p (\<lambda>q. q\<lparr>p_pagetable := pagetable, p_sz := sz1\<rparr>) s;
                      s = tf_set (p_trapframe (procs s p)) Epc entry s;
                      s = tf_set (p_trapframe (procs s p)) (XReg 2) sp s;
                      s = tf_set (p_trapframe (procs s p)) Ssp (SHADOW_STACK + PGSIZE - 8) s
                  in bnd (proc_freepagetable oldpagetable oldsz s) (\<lambda>s. Inr (int argc, s)))))))"

definition exec :: "byte list \<Rightarrow> byte list list \<Rightarrow> 'a hart_state_scheme \<Rightarrow> (int \<times> 'a hart_state_scheme) res" where
  "exec path argv s =
     (let p = myproc s in
      bnd (begin_op s) (\<lambda>s.
      bnd (namei path s) (\<lambda>(r, s).
        case r of
          None \<Rightarrow> bnd (end_op s) (\<lambda>s. Inr (- 1, s))
        | Some ip \<Rightarrow>
          bnd (ilock (Some ip) s) (\<lambda>s.
          bnd (readi ip ToLocal 0 (of_nat elfhdr_size) s) (\<lambda>(r, d, s).
            if r \<noteq> int elfhdr_size then
              bnd (exec_msg (''malformed header'' @ [CHR 0x0A]) path [] s) (\<lambda>s. exec_bad 0 0 (Some ip) s)
            else let elf = get_elfhdr d in
              if eh_magic elf \<noteq> ELF_MAGIC then
                bnd (exec_msg (''wrong magic'' @ [CHR 0x0A]) path [] s) (\<lambda>s. exec_bad 0 0 (Some ip) s)
              else bnd (proc_pagetable p s) (\<lambda>(pagetable, s).
                if pagetable = 0 then
                  bnd (exec_msg (''could not get own pagetable'' @ [CHR 0x0A]) path [] s) (\<lambda>s. exec_bad 0 0 (Some ip) s)
                else bnd (exec_load path pagetable ip [0..<unat (eh_phnum elf)] (ucast (eh_phoff elf)) 0 s) (\<lambda>(sz, ok, s).
                  if \<not> ok then exec_bad pagetable sz (Some ip) s
                  else bnd (iunlockput ip s) (\<lambda>s.
                    bnd (end_op s) (\<lambda>s.
                    exec_commit path argv (eh_entry elf) pagetable sz s)))))))))"

end
