(* ===== verification/SysArgs.thy ===== *)
theory SysArgs
  imports Exec
begin

text \<open>
  The arguments of system calls, the first part of \<^verbatim>\<open>kernel/syscall.c\<close>, and the calls of \<^verbatim>\<open>kernel/sysproc.c\<close>.  A string
  copied into a local array is its list of bytes without the terminating zero.
\<close>

unbundle bit_operations_syntax

section \<open>Arguments\<close>

definition fetchaddr :: "u64 \<Rightarrow> 'a proc_state_scheme \<Rightarrow> u64 option res" where
  "fetchaddr addr s =
     (if addr \<ge> p_sz (mp s) \<or> addr + 8 > p_sz (mp s) then Inr None
      else bnd (copyin (p_pagetable (mp s)) addr 8 s) (\<lambda>(r, bs).
        Inr (if r \<noteq> 0 then None else Some (le_word bs))))"

text \<open>The bytes stored in the buffer, and the string if the call succeeds.\<close>

definition fetchstr :: "u64 \<Rightarrow> nat \<Rightarrow> 'a proc_state_scheme \<Rightarrow> (byte list \<times> byte list option) res" where
  "fetchstr addr mx s =
     bnd (copyinstr (p_pagetable (mp s)) addr mx s) (\<lambda>(r, bs).
       Inr (bs, if r < 0 then None else Some (cstr bs)))"

definition argraw :: "nat \<Rightarrow> 'a proc_state_scheme \<Rightarrow> u64 res" where
  "argraw n s = (if n \<le> 5 then Inr (tf_get (p_trapframe (mp s)) (AReg n) s) else panic ''argraw'')"

definition argint :: "nat \<Rightarrow> 'a proc_state_scheme \<Rightarrow> int res" where
  "argint n s = bnd (argraw n s) (\<lambda>x. Inr (sint (ucast x :: u32)))"

definition argaddr :: "nat \<Rightarrow> 'a proc_state_scheme \<Rightarrow> u64 res" where
  "argaddr n s = argraw n s"

definition argstr :: "nat \<Rightarrow> nat \<Rightarrow> 'a proc_state_scheme \<Rightarrow> byte list option res" where
  "argstr n mx s = bnd (argaddr n s) (\<lambda>addr. bnd (fetchstr addr mx s) (\<lambda>(_, r). Inr r))"

section \<open>Calls on processes\<close>

definition sys_exit :: "'a file_state_scheme \<Rightarrow> 'a file_state_scheme res" where
  "sys_exit s = bnd (argint 0 s) (\<lambda>n. exit n s)"

definition sys_getpid :: "'a proc_state_scheme \<Rightarrow> (u64 \<times> 'a proc_state_scheme) res" where
  "sys_getpid s = Inr (word_of_int (p_pid (mp s)), s)"

definition sys_fork :: "'a file_state_scheme \<Rightarrow> (u64 \<times> 'a file_state_scheme) res" where
  "sys_fork s = bnd (fork s) (\<lambda>(pid, s). Inr (word_of_int pid, s))"

definition sys_wait :: "'a file_state_scheme \<Rightarrow> (u64 \<times> 'a file_state_scheme) res" where
  "sys_wait s = bnd (argaddr 0 s) (\<lambda>p. bnd (wait p s) (\<lambda>(pid, s). Inr (word_of_int pid, s)))"

definition sys_sbrk :: "'a proc_state_scheme \<Rightarrow> (u64 \<times> 'a proc_state_scheme) res" where
  "sys_sbrk s =
     bnd (argint 0 s) (\<lambda>n.
       let addr = p_sz (mp s) in
       bnd (growproc n s) (\<lambda>(r, s). Inr (if r < 0 then - 1 else addr, s)))"

text \<open>The loop of \<open>sys_sleep\<close>; a woken thread goes on here with the tick it started at.\<close>

definition sleep_loop :: "int \<Rightarrow> u32 \<Rightarrow> 'a proc_state_scheme \<Rightarrow> (u64 \<times> 'a proc_state_scheme) res" where
  "sleep_loop n ticks0 s =
     (if ticks s - ticks0 < word_of_int n then
        if killed (myproc s) s then Inr (- 1, s) else Inl (Sleep ChTicks)
      else Inr (0, s))"

definition sys_sleep :: "'a proc_state_scheme \<Rightarrow> (u64 \<times> 'a proc_state_scheme) res" where
  "sys_sleep s =
     bnd (argint 0 s) (\<lambda>n.
       let n = (if n < 0 then 0 else n) in sleep_loop n (ticks s) s)"

definition sys_kill :: "'a proc_state_scheme \<Rightarrow> (u64 \<times> 'a proc_state_scheme) res" where
  "sys_kill s = bnd (argint 0 s) (\<lambda>pid. case kill pid s of (r, s) \<Rightarrow> Inr (word_of_int r, s))"

definition sys_uptime :: "'a proc_state_scheme \<Rightarrow> (u64 \<times> 'a proc_state_scheme) res" where
  "sys_uptime s = Inr (ucast (ticks s), s)"

end
