(* ===== verification/SysFile.thy ===== *)
theory SysFile
  imports SysArgs
begin

text \<open>
  The system calls on files, \<^verbatim>\<open>kernel/sysfile.c\<close>.  Each is one definition from its arguments to its result;
  the labels \<^verbatim>\<open>bad\<close> and \<^verbatim>\<open>fail\<close> of the source are definitions of their own where several paths lead
  to them.
\<close>

unbundle bit_operations_syntax

definition MAXPATH :: nat where "MAXPATH = 128"
definition O_RDONLY :: u32 where "O_RDONLY = 0"
definition O_WRONLY :: u32 where "O_WRONLY = 1"
definition O_RDWR :: u32 where "O_RDWR = 2"
definition O_CREATE :: u32 where "O_CREATE = 0x200"
definition O_TRUNC :: u32 where "O_TRUNC = 0x400"

section \<open>Descriptors\<close>

definition argfd :: "nat \<Rightarrow> 'a proc_state_scheme \<Rightarrow> (nat \<times> nat) option res" where
  "argfd n s =
     bnd (argint n s) (\<lambda>fd.
       Inr (if fd < 0 \<or> fd \<ge> int NOFILE then None
            else map_option (\<lambda>f. (nat fd, f)) (p_ofile (mp s) (nat fd))))"

definition set_ofile :: "nat \<Rightarrow> nat option \<Rightarrow> 'a proc_state_scheme \<Rightarrow> 'a proc_state_scheme" where
  "set_ofile fd f s = upd_proc (myproc s) (\<lambda>q. q\<lparr>p_ofile := (p_ofile q)(fd := f)\<rparr>) s"

definition fdalloc :: "nat \<Rightarrow> 'a proc_state_scheme \<Rightarrow> nat option \<times> 'a proc_state_scheme" where
  "fdalloc f s =
     (case find (\<lambda>fd. p_ofile (mp s) fd = None) [0..<NOFILE] of
        None \<Rightarrow> (None, s)
      | Some fd \<Rightarrow> (Some fd, set_ofile fd (Some f) s))"

definition sys_dup :: "'a file_state_scheme \<Rightarrow> (u64 \<times> 'a file_state_scheme) res" where
  "sys_dup s =
     bnd (argfd 0 s) (\<lambda>r.
       case r of
         None \<Rightarrow> Inr (- 1, s)
       | Some (_, f) \<Rightarrow>
         (case fdalloc f s of
            (None, s) \<Rightarrow> Inr (- 1, s)
          | (Some fd, s) \<Rightarrow> bnd (filedup f s) (\<lambda>s. Inr (of_nat fd, s))))"

definition sys_read :: "'a file_state_scheme \<Rightarrow> (u64 \<times> 'a file_state_scheme) res" where
  "sys_read s =
     bnd (argaddr 1 s) (\<lambda>p. bnd (argint 2 s) (\<lambda>n. bnd (argfd 0 s) (\<lambda>r.
       case r of
         None \<Rightarrow> Inr (- 1, s)
       | Some (_, f) \<Rightarrow> bnd (fileread f p n s) (\<lambda>(k, s). Inr (word_of_int k, s)))))"

definition sys_write :: "'a file_state_scheme \<Rightarrow> (u64 \<times> 'a file_state_scheme) res" where
  "sys_write s =
     bnd (argaddr 1 s) (\<lambda>p. bnd (argint 2 s) (\<lambda>n. bnd (argfd 0 s) (\<lambda>r.
       case r of
         None \<Rightarrow> Inr (- 1, s)
       | Some (_, f) \<Rightarrow> bnd (filewrite f p n s) (\<lambda>(k, s). Inr (word_of_int k, s)))))"

definition sys_close :: "'a file_state_scheme \<Rightarrow> (u64 \<times> 'a file_state_scheme) res" where
  "sys_close s =
     bnd (argfd 0 s) (\<lambda>r.
       case r of
         None \<Rightarrow> Inr (- 1, s)
       | Some (fd, f) \<Rightarrow> bnd (fileclose f (set_ofile fd None s)) (\<lambda>s. Inr (0, s)))"

definition sys_fstat :: "'a file_state_scheme \<Rightarrow> (u64 \<times> 'a file_state_scheme) res" where
  "sys_fstat s =
     bnd (argaddr 1 s) (\<lambda>st. bnd (argfd 0 s) (\<lambda>r.
       case r of
         None \<Rightarrow> Inr (- 1, s)
       | Some (_, f) \<Rightarrow> bnd (filestat f st s) (\<lambda>(k, s). Inr (word_of_int k, s))))"

section \<open>Links\<close>

text \<open>The common end of a call that fails inside a transaction.\<close>

definition fail_op :: "'a fs_state_scheme \<Rightarrow> (u64 \<times> 'a fs_state_scheme) res" where
  "fail_op s = bnd (end_op s) (\<lambda>s. Inr (- 1, s))"

definition sys_link_bad :: "nat \<Rightarrow> 'a fs_state_scheme \<Rightarrow> (u64 \<times> 'a fs_state_scheme) res" where
  "sys_link_bad ip s =
     bnd (ilock (Some ip) s) (\<lambda>s.
     bnd (iupdate ip (upd_inode ip (\<lambda>x. x\<lparr>i_nlink := i_nlink x - 1\<rparr>) s)) (\<lambda>s.
     bnd (iunlockput ip s) (\<lambda>s. fail_op s)))"

definition sys_link :: "'a fs_state_scheme \<Rightarrow> (u64 \<times> 'a fs_state_scheme) res" where
  "sys_link s =
     bnd (argstr 0 MAXPATH s) (\<lambda>old.
       case old of
         None \<Rightarrow> Inr (- 1, s)
       | Some old \<Rightarrow>
         bnd (argstr 1 MAXPATH s) (\<lambda>new.
           case new of
             None \<Rightarrow> Inr (- 1, s)
           | Some new \<Rightarrow>
             bnd (begin_op s) (\<lambda>s. bnd (namei old s) (\<lambda>(r, s).
               case r of
                 None \<Rightarrow> fail_op s
               | Some ip \<Rightarrow>
                 bnd (ilock (Some ip) s) (\<lambda>s.
                   if i_type (inodes s ip) = T_DIR then bnd (iunlockput ip s) (\<lambda>s. fail_op s)
                   else
                     bnd (iupdate ip (upd_inode ip (\<lambda>x. x\<lparr>i_nlink := i_nlink x + 1\<rparr>) s)) (\<lambda>s.
                     bnd (iunlock (Some ip) s) (\<lambda>s.
                     bnd (nameiparent new s) (\<lambda>(r, s).
                       case r of
                         None \<Rightarrow> sys_link_bad ip s
                       | Some (dp, name) \<Rightarrow>
                         bnd (ilock (Some dp) s) (\<lambda>s.
                           if i_dev (inodes s dp) \<noteq> i_dev (inodes s ip) then bnd (iunlockput dp s) (\<lambda>s. sys_link_bad ip s)
                           else bnd (dirlink dp name (i_inum (inodes s ip)) s) (\<lambda>(r, s).
                             if r < 0 then bnd (iunlockput dp s) (\<lambda>s. sys_link_bad ip s)
                             else bnd (iunlockput dp s) (\<lambda>s.
                               bnd (iput ip s) (\<lambda>s.
                               bnd (end_op s) (\<lambda>s. Inr (0, s))))))))))))))"

function isdirempty_loop :: "nat \<Rightarrow> nat \<Rightarrow> nat \<Rightarrow> 'a fs_state_scheme \<Rightarrow> (bool \<times> 'a fs_state_scheme) res" where
  "isdirempty_loop dp off sz s =
     (if off < sz then
        bnd (readi dp ToLocal (of_nat off) (of_nat dirent_size) s) (\<lambda>(r, d, s).
          if r \<noteq> int dirent_size then panic ''isdirempty: readi''
          else if de_inum (get_dirent d) \<noteq> 0 then Inr (False, s)
          else isdirempty_loop dp (off + dirent_size) sz s)
      else Inr (True, s))"
  by pat_completeness auto

termination isdirempty_loop
  by (relation "measure (\<lambda>(dp, off, sz, s). sz - off)") (auto simp: dirent_size_def)

declare isdirempty_loop.simps [simp del]

definition isdirempty :: "nat \<Rightarrow> 'a fs_state_scheme \<Rightarrow> (bool \<times> 'a fs_state_scheme) res" where
  "isdirempty dp s = isdirempty_loop dp (2 * dirent_size) (unat (i_size (inodes s dp))) s"

definition sys_unlink_bad :: "nat \<Rightarrow> 'a fs_state_scheme \<Rightarrow> (u64 \<times> 'a fs_state_scheme) res" where
  "sys_unlink_bad dp s = bnd (iunlockput dp s) (\<lambda>s. fail_op s)"

definition sys_unlink :: "'a fs_state_scheme \<Rightarrow> (u64 \<times> 'a fs_state_scheme) res" where
  "sys_unlink s =
     bnd (argstr 0 MAXPATH s) (\<lambda>path.
       case path of
         None \<Rightarrow> Inr (- 1, s)
       | Some path \<Rightarrow>
         bnd (begin_op s) (\<lambda>s. bnd (nameiparent path s) (\<lambda>(r, s).
           case r of
             None \<Rightarrow> fail_op s
           | Some (dp, name) \<Rightarrow>
             bnd (ilock (Some dp) s) (\<lambda>s.
               if namecmp name (bytes_of ''.'') = 0 \<or> namecmp name (bytes_of ''..'') = 0 then sys_unlink_bad dp s
               else bnd (dirlookup dp name s) (\<lambda>(r, s).
                 case r of
                   None \<Rightarrow> sys_unlink_bad dp s
                 | Some (ip, off) \<Rightarrow>
                   bnd (ilock (Some ip) s) (\<lambda>s.
                     if sint (i_nlink (inodes s ip)) < 1 then panic ''unlink: nlink < 1''
                     else bnd (if i_type (inodes s ip) = T_DIR then isdirempty ip s else Inr (True, s)) (\<lambda>(empty, s).
                       if \<not> empty then bnd (iunlockput ip s) (\<lambda>s. sys_unlink_bad dp s)
                       else bnd (writei dp (FromLocal (replicate dirent_size 0)) off (of_nat dirent_size) s) (\<lambda>(r, s).
                         if r \<noteq> int dirent_size then panic ''unlink: writei''
                         else bnd (if i_type (inodes s ip) = T_DIR
                                   then iupdate dp (upd_inode dp (\<lambda>x. x\<lparr>i_nlink := i_nlink x - 1\<rparr>) s) else Inr s) (\<lambda>s.
                           bnd (iunlockput dp s) (\<lambda>s.
                           bnd (iupdate ip (upd_inode ip (\<lambda>x. x\<lparr>i_nlink := i_nlink x - 1\<rparr>) s)) (\<lambda>s.
                           bnd (iunlockput ip s) (\<lambda>s.
                           bnd (end_op s) (\<lambda>s. Inr (0, s))))))))))))))"

section \<open>Creating and opening\<close>

definition create_fail :: "nat \<Rightarrow> nat \<Rightarrow> 'a fs_state_scheme \<Rightarrow> (nat option \<times> 'a fs_state_scheme) res" where
  "create_fail ip dp s =
     bnd (iupdate ip (upd_inode ip (\<lambda>x. x\<lparr>i_nlink := 0\<rparr>) s)) (\<lambda>s.
     bnd (iunlockput ip s) (\<lambda>s.
     bnd (iunlockput dp s) (\<lambda>s. Inr (None, s))))"

text \<open>The entries \<^verbatim>\<open>.\<close> and \<^verbatim>\<open>..\<close> of a new directory; negative if one of them fails.\<close>

definition create_dots :: "nat \<Rightarrow> nat \<Rightarrow> 'a fs_state_scheme \<Rightarrow> (int \<times> 'a fs_state_scheme) res" where
  "create_dots ip dp s =
     bnd (dirlink ip (bytes_of ''.'') (i_inum (inodes s ip)) s) (\<lambda>(r, s).
       if r < 0 then Inr (r, s) else dirlink ip (bytes_of ''..'') (i_inum (inodes s dp)) s)"

definition create ::
    "byte list \<Rightarrow> u16 \<Rightarrow> u16 \<Rightarrow> u16 \<Rightarrow> 'a fs_state_scheme \<Rightarrow> (nat option \<times> 'a fs_state_scheme) res" where
  "create path type major minor s =
     bnd (nameiparent path s) (\<lambda>(r, s).
       case r of
         None \<Rightarrow> Inr (None, s)
       | Some (dp, name) \<Rightarrow>
         bnd (ilock (Some dp) s) (\<lambda>s.
         bnd (dirlookup dp name s) (\<lambda>(r, s).
           case r of
             Some (ip, _) \<Rightarrow>
               bnd (iunlockput dp s) (\<lambda>s.
               bnd (ilock (Some ip) s) (\<lambda>s.
                 if type = T_FILE \<and> (i_type (inodes s ip) = T_FILE \<or> i_type (inodes s ip) = T_DEVICE) then Inr (Some ip, s)
                 else bnd (iunlockput ip s) (\<lambda>s. Inr (None, s))))
           | None \<Rightarrow>
               bnd (ialloc (i_dev (inodes s dp)) type s) (\<lambda>(r, s).
                 case r of
                   None \<Rightarrow> bnd (iunlockput dp s) (\<lambda>s. Inr (None, s))
                 | Some ip \<Rightarrow>
                   bnd (ilock (Some ip) s) (\<lambda>s.
                   bnd (iupdate ip (upd_inode ip (\<lambda>x. x\<lparr>i_major := major, i_minor := minor, i_nlink := 1\<rparr>) s)) (\<lambda>s.
                   bnd (if type = T_DIR then create_dots ip dp s else Inr (0, s)) (\<lambda>(r, s).
                     if r < 0 then create_fail ip dp s
                     else bnd (dirlink dp name (i_inum (inodes s ip)) s) (\<lambda>(r, s).
                       if r < 0 then create_fail ip dp s
                       else bnd (if type = T_DIR then iupdate dp (upd_inode dp (\<lambda>x. x\<lparr>i_nlink := i_nlink x + 1\<rparr>) s) else Inr s) (\<lambda>s.
                         bnd (iunlockput dp s) (\<lambda>s. Inr (Some ip, s)))))))))))"

text \<open>\<open>sys_open\<close> up to the locked inode, and from there.\<close>

definition open_inode :: "byte list \<Rightarrow> u32 \<Rightarrow> 'a fs_state_scheme \<Rightarrow> (nat option \<times> 'a fs_state_scheme) res" where
  "open_inode path omode s =
     (if omode AND O_CREATE \<noteq> 0 then create path T_FILE 0 0 s
      else bnd (namei path s) (\<lambda>(r, s).
        case r of
          None \<Rightarrow> Inr (None, s)
        | Some ip \<Rightarrow>
          bnd (ilock (Some ip) s) (\<lambda>s.
            if i_type (inodes s ip) = T_DIR \<and> omode \<noteq> O_RDONLY then bnd (iunlockput ip s) (\<lambda>s. Inr (None, s))
            else Inr (Some ip, s))))"

definition open_file :: "nat \<Rightarrow> nat \<Rightarrow> u32 \<Rightarrow> 'a file_state_scheme \<Rightarrow> 'a file_state_scheme" where
  "open_file f ip omode s =
     (let s = (if i_type (inodes s ip) = T_DEVICE
               then upd_file f (\<lambda>x. x\<lparr>f_type := FD_DEVICE, f_major := i_major (inodes s ip)\<rparr>) s
               else upd_file f (\<lambda>x. x\<lparr>f_type := FD_INODE, f_off := 0\<rparr>) s)
      in upd_file f (\<lambda>x. x\<lparr>f_ip := Some ip, f_readable := (omode AND O_WRONLY = 0),
           f_writable := (omode AND O_WRONLY \<noteq> 0 \<or> omode AND O_RDWR \<noteq> 0)\<rparr>) s)"

definition sys_open :: "'a file_state_scheme \<Rightarrow> (u64 \<times> 'a file_state_scheme) res" where
  "sys_open s =
     bnd (argraw 1 s) (\<lambda>m.
       let omode = ucast m in
       bnd (argstr 0 MAXPATH s) (\<lambda>path.
         case path of
           None \<Rightarrow> Inr (- 1, s)
         | Some path \<Rightarrow>
           bnd (begin_op s) (\<lambda>s.
           bnd (open_inode path omode s) (\<lambda>(r, s).
             case r of
               None \<Rightarrow> fail_op s
             | Some ip \<Rightarrow>
               if i_type (inodes s ip) = T_DEVICE \<and> (sint (i_major (inodes s ip)) < 0 \<or> sint (i_major (inodes s ip)) \<ge> NDEV)
               then bnd (iunlockput ip s) (\<lambda>s. fail_op s)
               else
                 (case filealloc s of
                    (None, s) \<Rightarrow> bnd (iunlockput ip s) (\<lambda>s. fail_op s)
                  | (Some f, s) \<Rightarrow>
                    (case fdalloc f s of
                       (None, s) \<Rightarrow> bnd (fileclose f s) (\<lambda>s. bnd (iunlockput ip s) (\<lambda>s. fail_op s))
                     | (Some fd, s) \<Rightarrow>
                       let s = open_file f ip omode s in
                       bnd (if omode AND O_TRUNC \<noteq> 0 \<and> i_type (inodes s ip) = T_FILE then itrunc ip s else Inr s) (\<lambda>s.
                       bnd (iunlock (Some ip) s) (\<lambda>s.
                       bnd (end_op s) (\<lambda>s. Inr (of_nat fd, s))))))))))"

definition finish_create :: "nat option \<times> 'a fs_state_scheme \<Rightarrow> (u64 \<times> 'a fs_state_scheme) res" where
  "finish_create rs =
     (case rs of
        (None, s) \<Rightarrow> fail_op s
      | (Some ip, s) \<Rightarrow> bnd (iunlockput ip s) (\<lambda>s. bnd (end_op s) (\<lambda>s. Inr (0, s))))"

definition sys_mkdir :: "'a fs_state_scheme \<Rightarrow> (u64 \<times> 'a fs_state_scheme) res" where
  "sys_mkdir s =
     bnd (begin_op s) (\<lambda>s.
     bnd (argstr 0 MAXPATH s) (\<lambda>path.
       case path of
         None \<Rightarrow> fail_op s
       | Some path \<Rightarrow> bnd (create path T_DIR 0 0 s) finish_create))"

definition sys_mknod :: "'a fs_state_scheme \<Rightarrow> (u64 \<times> 'a fs_state_scheme) res" where
  "sys_mknod s =
     bnd (begin_op s) (\<lambda>s.
     bnd (argint 1 s) (\<lambda>major.
     bnd (argint 2 s) (\<lambda>minor.
     bnd (argstr 0 MAXPATH s) (\<lambda>path.
       case path of
         None \<Rightarrow> fail_op s
       | Some path \<Rightarrow> bnd (create path T_DEVICE (word_of_int major) (word_of_int minor) s) finish_create))))"

definition sys_chdir :: "'a fs_state_scheme \<Rightarrow> (u64 \<times> 'a fs_state_scheme) res" where
  "sys_chdir s =
     (let p = myproc s in
      bnd (begin_op s) (\<lambda>s.
      bnd (argstr 0 MAXPATH s) (\<lambda>path.
        case path of
          None \<Rightarrow> fail_op s
        | Some path \<Rightarrow>
          bnd (namei path s) (\<lambda>(r, s).
            case r of
              None \<Rightarrow> fail_op s
            | Some ip \<Rightarrow>
              bnd (ilock (Some ip) s) (\<lambda>s.
                if i_type (inodes s ip) \<noteq> T_DIR then bnd (iunlockput ip s) (\<lambda>s. fail_op s)
                else bnd (iunlock (Some ip) s) (\<lambda>s.
                  bnd (iput_ptr (p_cwd (procs s p)) s) (\<lambda>s.
                  bnd (end_op s) (\<lambda>s.
                  Inr (0, upd_proc p (\<lambda>q. q\<lparr>p_cwd := Some ip\<rparr>) s)))))))))"

section \<open>exec and pipe\<close>

text \<open>
  The argument vector, fetched into one page per string.  The flag says whether the null pointer
  that ends it was met; the pages are those to be freed either way.
\<close>

fun exec_args :: "nat \<Rightarrow> nat \<Rightarrow> u64 \<Rightarrow> 'a proc_state_scheme \<Rightarrow> (bool \<times> (addr \<times> byte list) list \<times> 'a proc_state_scheme) res" where
  "exec_args 0 i uargv s = Inr (False, [], s)"
| "exec_args (Suc k) i uargv s =
     bnd (fetchaddr (uargv + 8 * of_nat i) s) (\<lambda>uarg.
       case uarg of
         None \<Rightarrow> Inr (False, [], s)
       | Some uarg \<Rightarrow>
         if uarg = 0 then Inr (True, [], s)
         else (case kalloc s of (page, s) \<Rightarrow>
           if page = 0 then Inr (False, [], s)
           else bnd (fetchstr uarg 4096 s) (\<lambda>(bs, str).
             let s = s\<lparr>pmem := write_bytes (pmem s) page bs\<rparr> in
             case str of
               None \<Rightarrow> Inr (False, [(page, [])], s)
             | Some str \<Rightarrow> bnd (exec_args k (Suc i) uargv s) (\<lambda>(ok, rest, s). Inr (ok, (page, str) # rest, s)))))"

definition sys_exec :: "'a hart_state_scheme \<Rightarrow> (u64 \<times> 'a hart_state_scheme) res" where
  "sys_exec s =
     bnd (argaddr 1 s) (\<lambda>uargv.
     bnd (argstr 0 MAXPATH s) (\<lambda>path.
       case path of
         None \<Rightarrow> Inr (- 1, s)
       | Some path \<Rightarrow>
         bnd (exec_args MAXARG 0 uargv s) (\<lambda>(ok, argv, s).
           if ok then
             bnd (exec path (map snd argv) s) (\<lambda>(ret, s).
             bnd (foldM kfree (map fst argv) s) (\<lambda>s. Inr (word_of_int ret, s)))
           else bnd (foldM kfree (map fst argv) s) (\<lambda>s. Inr (- 1, s)))))"

definition close_both :: "nat \<Rightarrow> nat \<Rightarrow> 'a file_state_scheme \<Rightarrow> (u64 \<times> 'a file_state_scheme) res" where
  "close_both rfile wfile s = bnd (fileclose rfile s) (\<lambda>s. bnd (fileclose wfile s) (\<lambda>s. Inr (- 1, s)))"

definition sys_pipe :: "'a file_state_scheme \<Rightarrow> (u64 \<times> 'a file_state_scheme) res" where
  "sys_pipe s =
     bnd (argaddr 0 s) (\<lambda>fdarray.
     bnd (pipealloc s) (\<lambda>(r, s).
       case r of
         None \<Rightarrow> Inr (- 1, s)
       | Some (rfile, wfile) \<Rightarrow>
         (case fdalloc rfile s of
            (None, s) \<Rightarrow> close_both rfile wfile s
          | (Some fd0, s) \<Rightarrow>
            (case fdalloc wfile s of
               (None, s) \<Rightarrow> close_both rfile wfile (set_ofile fd0 None s)
             | (Some fd1, s) \<Rightarrow>
               bnd (copyout (p_pagetable (mp s)) fdarray (le_bytes 4 (of_nat fd0 :: u32)) s) (\<lambda>(r, s).
               bnd (if r < 0 then Inr (r, s) else copyout (p_pagetable (mp s)) (fdarray + 4) (le_bytes 4 (of_nat fd1 :: u32)) s) (\<lambda>(r, s).
                 if r < 0 then close_both rfile wfile (set_ofile fd1 None (set_ofile fd0 None s))
                 else Inr (0, s)))))))"

end
