(* ===== verification/Virtio.thy ===== *)
theory Virtio
  imports Buf
begin

text \<open>
  The disk driver, \<^verbatim>\<open>kernel/virtio_disk.c\<close>.  The device is a parameter: \<open>rd\<close> gives the value of a
  register after a history of register writes, and \<open>dev\<close> what the device does to the shared memory
  and the disk while the driver sleeps.  \<open>serves\<close> is what the virtio specification promises of a
  block device that finds a well-formed request in its queue.  Under it the driver implements
  \<open>disk_rw\<close>, the disk the buffer cache uses.  \<^verbatim>\<open>disk.vdisk_lock\<close> makes the code between two sleeps one
  step.
\<close>

unbundle bit_operations_syntax

section \<open>Registers\<close>

definition VIRTIO_MMIO_MAGIC_VALUE :: u32 where "VIRTIO_MMIO_MAGIC_VALUE = 0x000"
definition VIRTIO_MMIO_VERSION :: u32 where "VIRTIO_MMIO_VERSION = 0x004"
definition VIRTIO_MMIO_DEVICE_ID :: u32 where "VIRTIO_MMIO_DEVICE_ID = 0x008"
definition VIRTIO_MMIO_VENDOR_ID :: u32 where "VIRTIO_MMIO_VENDOR_ID = 0x00c"
definition VIRTIO_MMIO_DEVICE_FEATURES :: u32 where "VIRTIO_MMIO_DEVICE_FEATURES = 0x010"
definition VIRTIO_MMIO_DRIVER_FEATURES :: u32 where "VIRTIO_MMIO_DRIVER_FEATURES = 0x020"
definition VIRTIO_MMIO_QUEUE_SEL :: u32 where "VIRTIO_MMIO_QUEUE_SEL = 0x030"
definition VIRTIO_MMIO_QUEUE_NUM_MAX :: u32 where "VIRTIO_MMIO_QUEUE_NUM_MAX = 0x034"
definition VIRTIO_MMIO_QUEUE_NUM :: u32 where "VIRTIO_MMIO_QUEUE_NUM = 0x038"
definition VIRTIO_MMIO_QUEUE_READY :: u32 where "VIRTIO_MMIO_QUEUE_READY = 0x044"
definition VIRTIO_MMIO_QUEUE_NOTIFY :: u32 where "VIRTIO_MMIO_QUEUE_NOTIFY = 0x050"
definition VIRTIO_MMIO_INTERRUPT_STATUS :: u32 where "VIRTIO_MMIO_INTERRUPT_STATUS = 0x060"
definition VIRTIO_MMIO_INTERRUPT_ACK :: u32 where "VIRTIO_MMIO_INTERRUPT_ACK = 0x064"
definition VIRTIO_MMIO_STATUS :: u32 where "VIRTIO_MMIO_STATUS = 0x070"
definition VIRTIO_MMIO_QUEUE_DESC_LOW :: u32 where "VIRTIO_MMIO_QUEUE_DESC_LOW = 0x080"
definition VIRTIO_MMIO_QUEUE_DESC_HIGH :: u32 where "VIRTIO_MMIO_QUEUE_DESC_HIGH = 0x084"
definition VIRTIO_MMIO_DRIVER_DESC_LOW :: u32 where "VIRTIO_MMIO_DRIVER_DESC_LOW = 0x090"
definition VIRTIO_MMIO_DRIVER_DESC_HIGH :: u32 where "VIRTIO_MMIO_DRIVER_DESC_HIGH = 0x094"
definition VIRTIO_MMIO_DEVICE_DESC_LOW :: u32 where "VIRTIO_MMIO_DEVICE_DESC_LOW = 0x0a0"
definition VIRTIO_MMIO_DEVICE_DESC_HIGH :: u32 where "VIRTIO_MMIO_DEVICE_DESC_HIGH = 0x0a4"
definition VIRTIO_CONFIG_S_ACKNOWLEDGE :: u32 where "VIRTIO_CONFIG_S_ACKNOWLEDGE = 1"
definition VIRTIO_CONFIG_S_DRIVER :: u32 where "VIRTIO_CONFIG_S_DRIVER = 2"
definition VIRTIO_CONFIG_S_DRIVER_OK :: u32 where "VIRTIO_CONFIG_S_DRIVER_OK = 4"
definition VIRTIO_CONFIG_S_FEATURES_OK :: u32 where "VIRTIO_CONFIG_S_FEATURES_OK = 8"
definition VIRTIO_BLK_F_RO :: nat where "VIRTIO_BLK_F_RO = 5"
definition VIRTIO_BLK_F_SCSI :: nat where "VIRTIO_BLK_F_SCSI = 7"
definition VIRTIO_BLK_F_CONFIG_WCE :: nat where "VIRTIO_BLK_F_CONFIG_WCE = 11"
definition VIRTIO_BLK_F_MQ :: nat where "VIRTIO_BLK_F_MQ = 12"
definition VIRTIO_F_ANY_LAYOUT :: nat where "VIRTIO_F_ANY_LAYOUT = 27"
definition VIRTIO_RING_F_INDIRECT_DESC :: nat where "VIRTIO_RING_F_INDIRECT_DESC = 28"
definition VIRTIO_RING_F_EVENT_IDX :: nat where "VIRTIO_RING_F_EVENT_IDX = 29"
definition VRING_DESC_F_NEXT :: u16 where "VRING_DESC_F_NEXT = 1"
definition VRING_DESC_F_WRITE :: u16 where "VRING_DESC_F_WRITE = 2"
definition VIRTIO_BLK_T_IN :: u32 where "VIRTIO_BLK_T_IN = 0"
definition VIRTIO_BLK_T_OUT :: u32 where "VIRTIO_BLK_T_OUT = 1"

type_synonym regs = "(u32 \<times> u32) list \<Rightarrow> u32 \<Rightarrow> u32"

definition reg_write :: "u32 \<Rightarrow> u32 \<Rightarrow> 'a disk_state_scheme \<Rightarrow> 'a disk_state_scheme" where
  "reg_write r v = upd_vdk (\<lambda>d. d\<lparr>vq_mmio := vq_mmio d @ [(r, v)]\<rparr>)"

definition reg_read :: "regs \<Rightarrow> u32 \<Rightarrow> 'a disk_state_scheme \<Rightarrow> u32" where
  "reg_read rd r s = rd (vq_mmio (vdk s)) r"

section \<open>Finding and starting the device\<close>

definition virtio_disk_probe :: "regs \<Rightarrow> 'a disk_state_scheme \<Rightarrow> int" where
  "virtio_disk_probe rd s =
     (if reg_read rd VIRTIO_MMIO_MAGIC_VALUE s \<noteq> 0x74726976 \<or>
         reg_read rd VIRTIO_MMIO_VERSION s \<noteq> 2 \<or>
         reg_read rd VIRTIO_MMIO_DEVICE_ID s \<noteq> 2 \<or>
         reg_read rd VIRTIO_MMIO_VENDOR_ID s \<noteq> 0x554d4551 then 1 else 0)"

definition no_desc :: virtq_desc where
  "no_desc = \<lparr>vd_addr = DmaNull, vd_len = 0, vd_flags = 0, vd_next = 0\<rparr>"

text \<open>The features the driver accepts, lines 100 to 107.\<close>

definition accepted_features :: "u32 \<Rightarrow> u64" where
  "accepted_features offered =
     ucast offered AND NOT (push_bit VIRTIO_BLK_F_RO 1) AND NOT (push_bit VIRTIO_BLK_F_SCSI 1)
       AND NOT (push_bit VIRTIO_BLK_F_CONFIG_WCE 1) AND NOT (push_bit VIRTIO_BLK_F_MQ 1)
       AND NOT (push_bit VIRTIO_F_ANY_LAYOUT 1) AND NOT (push_bit VIRTIO_RING_F_EVENT_IDX 1)
       AND NOT (push_bit VIRTIO_RING_F_INDIRECT_DESC 1)"

text \<open>Lines 88 to 117: reset, acknowledge, negotiate.\<close>

definition virtio_negotiate :: "regs \<Rightarrow> 'a disk_state_scheme \<Rightarrow> (u32 \<times> 'a disk_state_scheme) res" where
  "virtio_negotiate rd s =
     (let s = reg_write VIRTIO_MMIO_STATUS 0 s;
          s = reg_write VIRTIO_MMIO_STATUS VIRTIO_CONFIG_S_ACKNOWLEDGE s;
          s = reg_write VIRTIO_MMIO_STATUS (VIRTIO_CONFIG_S_ACKNOWLEDGE OR VIRTIO_CONFIG_S_DRIVER) s;
          features = accepted_features (reg_read rd VIRTIO_MMIO_DEVICE_FEATURES s);
          s = reg_write VIRTIO_MMIO_DRIVER_FEATURES (ucast features) s;
          s = reg_write VIRTIO_MMIO_STATUS
                (VIRTIO_CONFIG_S_ACKNOWLEDGE OR VIRTIO_CONFIG_S_DRIVER OR VIRTIO_CONFIG_S_FEATURES_OK) s;
          status = reg_read rd VIRTIO_MMIO_STATUS s in
      if status AND VIRTIO_CONFIG_S_FEATURES_OK = 0 then panic ''virtio disk FEATURES_OK unset''
      else Inr (status, s))"

text \<open>Lines 143 to 155: tell the device where the three areas are.\<close>

definition virtio_set_queue :: "'a disk_state_scheme \<Rightarrow> 'a disk_state_scheme" where
  "virtio_set_queue s =
     (let d = vq_desc_at (vdk s); a = vq_avail_at (vdk s); u = vq_used_at (vdk s);
          s = reg_write VIRTIO_MMIO_QUEUE_NUM (of_nat NUM) s;
          s = reg_write VIRTIO_MMIO_QUEUE_DESC_LOW (ucast d) s;
          s = reg_write VIRTIO_MMIO_QUEUE_DESC_HIGH (ucast (drop_bit 32 d)) s;
          s = reg_write VIRTIO_MMIO_DRIVER_DESC_LOW (ucast a) s;
          s = reg_write VIRTIO_MMIO_DRIVER_DESC_HIGH (ucast (drop_bit 32 a)) s;
          s = reg_write VIRTIO_MMIO_DEVICE_DESC_LOW (ucast u) s;
          s = reg_write VIRTIO_MMIO_DEVICE_DESC_HIGH (ucast (drop_bit 32 u)) s in
      reg_write VIRTIO_MMIO_QUEUE_READY 1 s)"

definition virtio_disk_init :: "regs \<Rightarrow> 'a disk_state_scheme \<Rightarrow> 'a disk_state_scheme res" where
  "virtio_disk_init rd s =
     (if virtio_disk_probe rd s \<noteq> 0 then panic ''could not find virtio disk''
      else bnd (virtio_negotiate rd s) (\<lambda>(status, s).
        let s = reg_write VIRTIO_MMIO_QUEUE_SEL 0 s in
        if reg_read rd VIRTIO_MMIO_QUEUE_READY s \<noteq> 0 then panic ''virtio disk should not be ready''
        else if reg_read rd VIRTIO_MMIO_QUEUE_NUM_MAX s = 0 then panic ''virtio disk has no queue 0''
        else if reg_read rd VIRTIO_MMIO_QUEUE_NUM_MAX s < of_nat NUM then panic ''virtio disk max queue too short''
        else case kalloc s of (d, s) \<Rightarrow> case kalloc s of (a, s) \<Rightarrow> case kalloc s of (u, s) \<Rightarrow>
          if d = 0 \<or> a = 0 \<or> u = 0 then panic ''virtio disk kalloc''
          else
            let s = s\<lparr>pmem := memset (memset (memset (pmem s) d 0 4096) a 0 4096) u 0 4096\<rparr>;
                s = upd_vdk (\<lambda>k. k\<lparr>vq_desc_at := d, vq_avail_at := a, vq_used_at := u, vq_desc := (\<lambda>_. no_desc),
                  vq_avail_idx := 0, vq_avail_ring := (\<lambda>_. 0), vq_used_idx := 0, vq_used_ring := (\<lambda>_. 0)\<rparr>) s;
                s = virtio_set_queue s;
                s = upd_vdk (\<lambda>k. k\<lparr>vk_free := (\<lambda>i. i < NUM \<or> vk_free k i)\<rparr>) s in
            Inr (reg_write VIRTIO_MMIO_STATUS (status OR VIRTIO_CONFIG_S_DRIVER_OK) s)))"

section \<open>Descriptors\<close>

fun alloc_desc_loop :: "nat list \<Rightarrow> 'a disk_state_scheme \<Rightarrow> nat option \<times> 'a disk_state_scheme" where
  "alloc_desc_loop [] s = (None, s)"
| "alloc_desc_loop (i # is) s =
     (if vk_free (vdk s) i then (Some i, upd_vdk (\<lambda>d. d\<lparr>vk_free := (vk_free d)(i := False)\<rparr>) s)
      else alloc_desc_loop is s)"

definition alloc_desc :: "'a disk_state_scheme \<Rightarrow> nat option \<times> 'a disk_state_scheme" where
  "alloc_desc s = alloc_desc_loop [0..<NUM] s"

definition free_desc :: "nat \<Rightarrow> 'a disk_state_scheme \<Rightarrow> 'a disk_state_scheme res" where
  "free_desc i s =
     (if i \<ge> NUM then panic ''free_desc 1''
      else if vk_free (vdk s) i then panic ''free_desc 2''
      else Inr (wakeup ChDisk (upd_vdk (\<lambda>d. d\<lparr>vq_desc := (vq_desc d)(i := no_desc),
             vk_free := (vk_free d)(i := True)\<rparr>) s)))"

definition used_descs :: "'a disk_state_scheme \<Rightarrow> nat set" where
  "used_descs s = {i. i < NUM \<and> \<not> vk_free (vdk s) i}"

lemma free_desc_used: "free_desc i s = Inr s' \<Longrightarrow> used_descs s' = used_descs s - {i} \<and> i \<in> used_descs s"
  by (auto simp: free_desc_def used_descs_def split: if_splits)

function free_chain :: "nat \<Rightarrow> 'a disk_state_scheme \<Rightarrow> 'a disk_state_scheme res" where
  "free_chain i s =
     (let flag = vd_flags (vq_desc (vdk s) i); nxt = unat (vd_next (vq_desc (vdk s) i)) in
      bnd (free_desc i s) (\<lambda>s'. if flag AND VRING_DESC_F_NEXT \<noteq> 0 then free_chain nxt s' else Inr s'))"
  by pat_completeness auto
termination
proof (relation "measure (\<lambda>(i, s). card (used_descs s))")
  show "wf (measure (\<lambda>(i, s). card (used_descs s)))" by simp
next
  fix i :: nat and s s' :: "'a disk_state_scheme" and flag nxt
  assume "free_desc i s = Inr s'"
  then have "used_descs s' = used_descs s - {i}" "i \<in> used_descs s" by (simp_all add: free_desc_used)
  moreover have "finite (used_descs s)" by (simp add: used_descs_def)
  ultimately have "card (used_descs s') < card (used_descs s)" by (metis card_Diff1_less)
  then show "((nxt, s'), i, s) \<in> measure (\<lambda>(i, s). card (used_descs s))" by simp
qed

declare free_chain.simps [simp del]

definition alloc3_desc :: "'a disk_state_scheme \<Rightarrow> ((nat \<times> nat \<times> nat) option \<times> 'a disk_state_scheme) res" where
  "alloc3_desc s =
     (case alloc_desc s of
        (None, s) \<Rightarrow> Inr (None, s)
      | (Some i, s) \<Rightarrow> (case alloc_desc s of
          (None, s) \<Rightarrow> bnd (free_desc i s) (\<lambda>s. Inr (None, s))
        | (Some j, s) \<Rightarrow> (case alloc_desc s of
            (None, s) \<Rightarrow> bnd (free_desc i s) (\<lambda>s. bnd (free_desc j s) (\<lambda>s. Inr (None, s)))
          | (Some k, s) \<Rightarrow> Inr (Some (i, j, k), s))))"

section \<open>Transfers\<close>

text \<open>Lines 251 to 294: the three descriptors, the book-keeping, the ring, the notification.\<close>

definition virtio_submit :: "nat \<Rightarrow> bool \<Rightarrow> nat \<Rightarrow> nat \<Rightarrow> nat \<Rightarrow> 'a disk_state_scheme \<Rightarrow> 'a disk_state_scheme" where
  "virtio_submit b write i j k s =
     (let sector = ucast (b_blockno (bufs s b) * of_nat (BSIZE div 512));
          s = upd_vdk (\<lambda>d. d\<lparr>
            vk_ops := (vk_ops d)(i := \<lparr>br_type = (if write then VIRTIO_BLK_T_OUT else VIRTIO_BLK_T_IN),
                                      br_reserved = 0, br_sector = sector\<rparr>),
            vq_desc := (vq_desc d)(
              i := \<lparr>vd_addr = DmaOps i, vd_len = 16, vd_flags = VRING_DESC_F_NEXT, vd_next = of_nat j\<rparr>,
              j := \<lparr>vd_addr = DmaData b, vd_len = of_nat BSIZE,
                    vd_flags = (if write then 0 else VRING_DESC_F_WRITE) OR VRING_DESC_F_NEXT, vd_next = of_nat k\<rparr>,
              k := \<lparr>vd_addr = DmaStatus i, vd_len = 1, vd_flags = VRING_DESC_F_WRITE, vd_next = 0\<rparr>),
            vk_info_status := (vk_info_status d)(i := 0xff)\<rparr>) s;
          s = upd_buf b (\<lambda>x. x\<lparr>b_disk := True\<rparr>) s;
          s = upd_vdk (\<lambda>d. d\<lparr>vk_info_b := (vk_info_b d)(i := Some b)\<rparr>) s;
          s = upd_vdk (\<lambda>d. d\<lparr>vq_avail_ring := (vq_avail_ring d)(unat (vq_avail_idx d) mod NUM := of_nat i)\<rparr>) s;
          s = upd_vdk (\<lambda>d. d\<lparr>vq_avail_idx := vq_avail_idx d + 1\<rparr>) s in
      reg_write VIRTIO_MMIO_QUEUE_NOTIFY 0 s)"

text \<open>The loop of the interrupt handler; a completion without a buffer faults on the null pointer.\<close>

function virtio_intr_loop :: "'a disk_state_scheme \<Rightarrow> 'a disk_state_scheme res" where
  "virtio_intr_loop s =
     (let d = vdk s in
      if vk_used_idx d = vq_used_idx d then Inr s
      else
        let n = unat (vq_used_ring d (unat (vk_used_idx d) mod NUM)) in
        if vk_info_status d n \<noteq> 0 then panic ''virtio_disk_intr status''
        else case vk_info_b d n of
          None \<Rightarrow> panic ''kerneltrap''
        | Some b \<Rightarrow>
            virtio_intr_loop (upd_vdk (\<lambda>d. d\<lparr>vk_used_idx := vk_used_idx d + 1\<rparr>)
              (wakeup (ChBuf b) (upd_buf b (\<lambda>x. x\<lparr>b_disk := False\<rparr>) s))))"
  by pat_completeness auto
termination
proof (relation "measure (\<lambda>s. unat (vq_used_idx (vdk s) - vk_used_idx (vdk s)))")
  show "wf (measure (\<lambda>s. unat (vq_used_idx (vdk s) - vk_used_idx (vdk s))))" by simp
next
  fix s :: "'a disk_state_scheme" and d n b
  assume "d = vdk s" "vk_used_idx d \<noteq> vq_used_idx d"
  then have "vq_used_idx (vdk s) - vk_used_idx (vdk s) \<noteq> 0" by simp
  then have "unat (vq_used_idx (vdk s) - vk_used_idx (vdk s) - 1) < unat (vq_used_idx (vdk s) - vk_used_idx (vdk s))"
    by (simp add: unat_gt_0 unat_minus_one)
  then show "(upd_vdk (\<lambda>d. d\<lparr>vk_used_idx := vk_used_idx d + 1\<rparr>)
        (wakeup (ChBuf b) (upd_buf b (\<lambda>x. x\<lparr>b_disk := False\<rparr>) s)), s)
      \<in> measure (\<lambda>s. unat (vq_used_idx (vdk s) - vk_used_idx (vdk s)))"
    by (simp add: diff_diff_eq add.commute)
qed

declare virtio_intr_loop.simps [simp del]

definition virtio_disk_intr :: "regs \<Rightarrow> 'a disk_state_scheme \<Rightarrow> 'a disk_state_scheme res" where
  "virtio_disk_intr rd s =
     virtio_intr_loop (reg_write VIRTIO_MMIO_INTERRUPT_ACK (reg_read rd VIRTIO_MMIO_INTERRUPT_STATUS s AND 3) s)"

text \<open>
  While the thread sleeps on the buffer the device works and interrupts.  \<open>n\<close> bounds the number of
  interrupts the thread lives through; a request still unanswered then leaves it asleep.
\<close>

fun virtio_wait :: "regs \<Rightarrow> ('a disk_state_scheme \<Rightarrow> 'a disk_state_scheme) \<Rightarrow> nat \<Rightarrow> nat \<Rightarrow>
    'a disk_state_scheme \<Rightarrow> 'a disk_state_scheme res" where
  "virtio_wait rd dev n b s =
     (if \<not> b_disk (bufs s b) then Inr s
      else case n of 0 \<Rightarrow> Inl (Sleep (ChBuf b))
           | Suc n \<Rightarrow> bnd (virtio_disk_intr rd (dev s)) (\<lambda>s. virtio_wait rd dev n b s))"

declare virtio_wait.simps [simp del]

definition virtio_disk_rw :: "regs \<Rightarrow> ('a disk_state_scheme \<Rightarrow> 'a disk_state_scheme) \<Rightarrow> nat \<Rightarrow> nat \<Rightarrow> bool \<Rightarrow>
    'a disk_state_scheme \<Rightarrow> 'a disk_state_scheme res" where
  "virtio_disk_rw rd dev n b write s =
     bnd (alloc3_desc s) (\<lambda>(idx, s).
       case idx of
         None \<Rightarrow> Inl (Sleep ChDisk)
       | Some (i, j, k) \<Rightarrow>
           bnd (virtio_wait rd dev n b (virtio_submit b write i j k s)) (\<lambda>s.
             free_chain i (upd_vdk (\<lambda>d. d\<lparr>vk_info_b := (vk_info_b d)(i := None)\<rparr>) s)))"

section \<open>Allocating descriptors\<close>

lemma alloc_desc_loop_cases:
  "alloc_desc_loop is s =
    (case find (vk_free (vdk s)) is of
       None \<Rightarrow> (None, s)
     | Some i \<Rightarrow> (Some i, upd_vdk (\<lambda>d. d\<lparr>vk_free := (vk_free d)(i := False)\<rparr>) s))"
  by (induction "is") auto

lemma alloc_desc_Some:
  assumes "alloc_desc s = (Some i, s')"
  shows "i < NUM" "vk_free (vdk s) i" "s' = upd_vdk (\<lambda>d. d\<lparr>vk_free := (vk_free d)(i := False)\<rparr>) s"
  using assms by (auto simp: alloc_desc_def alloc_desc_loop_cases find_Some_iff split: option.splits)

lemma alloc_desc_None: "alloc_desc s = (None, s') \<Longrightarrow> s' = s \<and> (\<forall>i < NUM. \<not> vk_free (vdk s) i)"
  by (auto simp: alloc_desc_def alloc_desc_loop_cases find_None_iff split: option.splits)

definition free_descs :: "'a disk_state_scheme \<Rightarrow> nat set" where
  "free_descs s = {i. i < NUM \<and> vk_free (vdk s) i}"

lemma free_descs_alloc:
  "i < NUM \<Longrightarrow> vk_free (vdk s) i \<Longrightarrow>
    free_descs (upd_vdk (\<lambda>d. d\<lparr>vk_free := (vk_free d)(i := False)\<rparr>) s) = free_descs s - {i}"
  by (auto simp: free_descs_def)

lemma free_descs_None: "alloc_desc s = (None, s') \<Longrightarrow> free_descs s = {}"
  using alloc_desc_None by (auto simp: free_descs_def)

lemma finite_free_descs [simp]: "finite (free_descs s)"
  by (simp add: free_descs_def)

text \<open>The state a failed \<open>alloc3_desc\<close> leaves: no descriptor changed hands.\<close>

definition same_but_desc :: "'a disk_state_scheme \<Rightarrow> 'a disk_state_scheme \<Rightarrow> bool" where
  "same_but_desc s s' \<longleftrightarrow> vk_free (vdk s') = vk_free (vdk s) \<and> bufs s' = bufs s \<and> disk s' = disk s \<and>
     dwrites s' = dwrites s \<and> vq_avail_idx (vdk s') = vq_avail_idx (vdk s) \<and>
     (\<forall>i. \<not> vk_free (vdk s) i \<longrightarrow> vq_desc (vdk s') i = vq_desc (vdk s) i)"

definition took3 :: "nat \<Rightarrow> nat \<Rightarrow> nat \<Rightarrow> 'a disk_state_scheme \<Rightarrow> 'a disk_state_scheme" where
  "took3 i j k s = upd_vdk (\<lambda>d. d\<lparr>vk_free := (vk_free d)(i := False, j := False, k := False)\<rparr>) s"

lemma alloc3_cases:
  obtains (none) s' where "alloc3_desc s = Inr (None, s')" "card (free_descs s) < 3" "same_but_desc s s'"
  | (some) i j k where "alloc3_desc s = Inr (Some (i, j, k), took3 i j k s)"
      "i \<noteq> j" "i \<noteq> k" "j \<noteq> k" "{i, j, k} \<subseteq> free_descs s"
proof -
  obtain r1 s1 where 1: "alloc_desc s = (r1, s1)" by (cases "alloc_desc s")
  show thesis
  proof (cases r1)
    case None
    with 1 have "alloc3_desc s = Inr (None, s)" using alloc_desc_None by (auto simp: alloc3_desc_def)
    moreover have "card (free_descs s) < 3" using 1 None free_descs_None by (metis card.empty zero_less_numeral)
    ultimately show thesis using none by (simp add: same_but_desc_def)
  next
    case (Some i)
    note i = alloc_desc_Some [OF 1 [unfolded Some]]
    obtain r2 s2 where 2: "alloc_desc s1 = (r2, s2)" by (cases "alloc_desc s1")
    have f1: "free_descs s1 = free_descs s - {i}" using i free_descs_alloc by simp
    show thesis
    proof (cases r2)
      case None
      then have s2: "s2 = s1" "free_descs s1 = {}" using 2 alloc_desc_None [of s1 s2] free_descs_None [of s1 s2] by simp_all
      have "card (free_descs s) \<le> card {i}" using f1 s2(2) by (intro card_mono) auto
      moreover obtain s' where "free_desc i s1 = Inr s'" "same_but_desc s s'"
        using i by (auto simp: free_desc_def same_but_desc_def fun_eq_iff)
      ultimately show thesis using none 1 2 Some None s2 by (simp add: alloc3_desc_def)
    next
      case Some2: (Some j)
      note j = alloc_desc_Some [OF 2 [unfolded Some2]]
      obtain r3 s3 where 3: "alloc_desc s2 = (r3, s3)" by (cases "alloc_desc s2")
      have f2: "free_descs s2 = free_descs s - {i, j}" unfolding j(3) free_descs_alloc [OF j(1,2)] f1 by blast
      have ij: "i \<noteq> j" using i(3) j(2) by auto
      show thesis
      proof (cases r3)
        case None
        then have s3: "s3 = s2" "free_descs s \<subseteq> {i, j}"
          using 3 alloc_desc_None [of s2 s3] free_descs_None [of s2 s3] f2 by simp_all
        have "card (free_descs s) \<le> card {i, j}" using s3(2) by (intro card_mono) auto
        then have "card (free_descs s) < 3" using ij by simp
        moreover obtain s' where "bnd (free_desc i s2) (free_desc j) = Inr s'" "same_but_desc s s'"
          using i j ij by (auto simp: free_desc_def same_but_desc_def fun_eq_iff)
        moreover from this(1) obtain s4 where "free_desc i s2 = Inr s4" "free_desc j s4 = Inr s'"
          by (auto simp: bnd_eq_Inr)
        ultimately show thesis using none 1 2 3 Some Some2 None s3 by (simp add: alloc3_desc_def)
      next
        case Some3: (Some k)
        note k = alloc_desc_Some [OF 3 [unfolded Some3]]
        have "s3 = took3 i j k s" unfolding i(3) j(3) k(3) by (simp add: took3_def upd_vdk_def)
        moreover have "i \<in> free_descs s" "j \<in> free_descs s1" "k \<in> free_descs s2"
          using i(1,2) j(1,2) k(1,2) by (simp_all add: free_descs_def)
        then have "{i, j, k} \<subseteq> free_descs s" "i \<noteq> k" "j \<noteq> k" unfolding f1 f2 by blast+
        ultimately show thesis using some 1 2 3 Some Some2 Some3 ij by (simp add: alloc3_desc_def)
      qed
    qed
  qed
qed

section \<open>The device contract\<close>

text \<open>
  A request the device can serve: the newest entry of the available ring is the head \<open>i\<close> of a chain
  of three descriptors (header, data, status), and the device has answered everything before it.
\<close>

definition request :: "'a disk_state_scheme \<Rightarrow> nat \<Rightarrow> nat \<Rightarrow> nat \<Rightarrow> nat \<Rightarrow> bool \<Rightarrow> bool" where
  "request s i j k b write \<longleftrightarrow>
     (let d = vdk s in
      i < NUM \<and> j < NUM \<and> k < NUM \<and> i \<noteq> j \<and> i \<noteq> k \<and> j \<noteq> k \<and>
      vq_used_idx d = vq_avail_idx d - 1 \<and>
      vq_avail_ring d (unat (vq_used_idx d) mod NUM) = of_nat i \<and>
      vq_desc d i = \<lparr>vd_addr = DmaOps i, vd_len = 16, vd_flags = 1, vd_next = of_nat j\<rparr> \<and>
      vq_desc d j = \<lparr>vd_addr = DmaData b, vd_len = 1024, vd_flags = (if write then 1 else 3), vd_next = of_nat k\<rparr> \<and>
      vq_desc d k = \<lparr>vd_addr = DmaStatus i, vd_len = 1, vd_flags = 2, vd_next = 0\<rparr> \<and>
      br_type (vk_ops d i) = (if write then 1 else 0))"

text \<open>The answer: two sectors move, the status byte becomes 0, the head enters the used ring.\<close>

definition complete :: "nat \<Rightarrow> nat \<Rightarrow> bool \<Rightarrow> 'a disk_state_scheme \<Rightarrow> 'a disk_state_scheme" where
  "complete i b write s =
     (let n = ucast (drop_bit 1 (br_sector (vk_ops (vdk s) i))) in
      upd_vdk (\<lambda>d. d\<lparr>vk_info_status := (vk_info_status d)(i := 0),
          vq_used_ring := (vq_used_ring d)(unat (vq_used_idx d) mod NUM := of_nat i),
          vq_used_idx := vq_used_idx d + 1\<rparr>)
        (if write then s\<lparr>disk := (disk s)(n := b_data (bufs s b)), dwrites := dwrites s @ [(n, b_data (bufs s b))]\<rparr>
         else upd_buf b (\<lambda>x. x\<lparr>b_data := disk s n\<rparr>) s))"

definition serves :: "('a disk_state_scheme \<Rightarrow> 'a disk_state_scheme) \<Rightarrow> bool" where
  "serves dev \<longleftrightarrow> (\<forall>s i j k b write. request s i j k b write \<longrightarrow> dev s = complete i b write s)"

definition idle_queue :: "'a disk_state_scheme \<Rightarrow> bool" where
  "idle_queue s \<longleftrightarrow> vk_used_idx (vdk s) = vq_used_idx (vdk s) \<and> vq_used_idx (vdk s) = vq_avail_idx (vdk s)"

section \<open>The driver implements the disk\<close>

lemma reg_write_fields [simp]:
  "bufs (reg_write r v s) = bufs s" "disk (reg_write r v s) = disk s" "dwrites (reg_write r v s) = dwrites s"
  "vdk (reg_write r v s) = (vdk s)\<lparr>vq_mmio := vq_mmio (vdk s) @ [(r, v)]\<rparr>"
  by (simp_all add: reg_write_def)

lemma small_idx: "i < NUM \<Longrightarrow> unat (of_nat i :: u16) = i" "i < NUM \<Longrightarrow> unat (of_nat i :: u32) = i"
  by (simp_all add: NUM_def take_bit_nat_eq_self unat_of_nat)

lemma sector_block:
  assumes "unat (n :: u32) < 2 ^ 31"
  shows "ucast (drop_bit 1 (ucast (n * 2) :: u64)) = n"
proof -
  have n2: "unat (n * 2) = unat n * 2" using assms by (simp add: unat_word_ariths)
  have "unat (drop_bit 1 (ucast (n * 2) :: u64)) = unat n"
    by (simp only: unat_drop_bit_eq unat_ucast_u32 n2) (simp add: drop_bit_Suc)
  moreover have "w = of_nat (unat n)" if "unat w = unat n" for w :: u64 by (simp add: that [symmetric])
  ultimately have "drop_bit 1 (ucast (n * 2) :: u64) = of_nat (unat n)" by blast
  moreover have "ucast (ucast n :: u64) = n" by (intro bit_word_eqI) (simp add: bit_ucast_iff)
  ultimately show ?thesis by simp
qed

lemma submit_fields:
  "bufs (virtio_submit b write i j k s) = (bufs s)(b := (bufs s b)\<lparr>b_disk := True\<rparr>)"
  "disk (virtio_submit b write i j k s) = disk s" "dwrites (virtio_submit b write i j k s) = dwrites s"
  "vk_free (vdk (virtio_submit b write i j k s)) = vk_free (vdk s)"
  "vk_used_idx (vdk (virtio_submit b write i j k s)) = vk_used_idx (vdk s)"
  "vq_used_idx (vdk (virtio_submit b write i j k s)) = vq_used_idx (vdk s)"
  "vq_avail_idx (vdk (virtio_submit b write i j k s)) = vq_avail_idx (vdk s) + 1"
  "vq_avail_ring (vdk (virtio_submit b write i j k s)) =
     (vq_avail_ring (vdk s))(unat (vq_avail_idx (vdk s)) mod NUM := of_nat i)"
  "vk_info_b (vdk (virtio_submit b write i j k s)) = (vk_info_b (vdk s))(i := Some b)"
  "br_sector (vk_ops (vdk (virtio_submit b write i j k s)) i) = ucast (b_blockno (bufs s b) * of_nat (BSIZE div 512))"
  "br_type (vk_ops (vdk (virtio_submit b write i j k s)) i) = (if write then 1 else 0)"
  by (simp_all add: virtio_submit_def Let_def VIRTIO_BLK_T_OUT_def VIRTIO_BLK_T_IN_def)

lemma submit_desc:
  "vq_desc (vdk (virtio_submit b write i j k s)) = (vq_desc (vdk s))(
     i := \<lparr>vd_addr = DmaOps i, vd_len = 16, vd_flags = 1, vd_next = of_nat j\<rparr>,
     j := \<lparr>vd_addr = DmaData b, vd_len = 1024, vd_flags = (if write then 1 else 3), vd_next = of_nat k\<rparr>,
     k := \<lparr>vd_addr = DmaStatus i, vd_len = 1, vd_flags = 2, vd_next = 0\<rparr>)"
  by (simp add: virtio_submit_def Let_def VRING_DESC_F_NEXT_def VRING_DESC_F_WRITE_def BSIZE_def)

lemma submit_request:
  assumes "idle_queue s" "i < NUM" "j < NUM" "k < NUM" "i \<noteq> j" "i \<noteq> k" "j \<noteq> k"
  shows "request (virtio_submit b write i j k s) i j k b write"
  using assms by (simp add: request_def Let_def submit_fields submit_desc idle_queue_def)

lemma complete_fields:
  "vk_free (vdk (complete i b write s)) = vk_free (vdk s)"
  "vk_used_idx (vdk (complete i b write s)) = vk_used_idx (vdk s)"
  "vq_used_idx (vdk (complete i b write s)) = vq_used_idx (vdk s) + 1"
  "vq_avail_idx (vdk (complete i b write s)) = vq_avail_idx (vdk s)"
  "vq_used_ring (vdk (complete i b write s)) = (vq_used_ring (vdk s))(unat (vq_used_idx (vdk s)) mod NUM := of_nat i)"
  "vk_info_b (vdk (complete i b write s)) = vk_info_b (vdk s)"
  "vk_info_status (vdk (complete i b write s)) = (vk_info_status (vdk s))(i := 0)"
  "vq_desc (vdk (complete i b write s)) = vq_desc (vdk s)"
  by (simp_all add: complete_def Let_def)

lemma complete_disk:
  assumes "ucast (drop_bit 1 (br_sector (vk_ops (vdk s) i))) = n"
  shows "bufs (complete i b write s) =
      (if write then bufs s else (bufs s)(b := (bufs s b)\<lparr>b_data := disk s n\<rparr>))"
    "disk (complete i b write s) = (if write then (disk s)(n := b_data (bufs s b)) else disk s)"
    "dwrites (complete i b write s) = (if write then dwrites s @ [(n, b_data (bufs s b))] else dwrites s)"
  using assms by (simp_all add: complete_def Let_def)

text \<open>The state when the request has been answered and acknowledged, before the chain is freed.\<close>

definition answered :: "regs \<Rightarrow> nat \<Rightarrow> bool \<Rightarrow> nat \<Rightarrow> nat \<Rightarrow> nat \<Rightarrow> 'a disk_state_scheme \<Rightarrow> 'a disk_state_scheme" where
  "answered rd b write i j k s =
     (let s1 = complete i b write (virtio_submit b write i j k s);
          s2 = reg_write VIRTIO_MMIO_INTERRUPT_ACK (reg_read rd VIRTIO_MMIO_INTERRUPT_STATUS s1 AND 3) s1 in
      upd_vdk (\<lambda>d. d\<lparr>vk_used_idx := vk_used_idx d + 1\<rparr>)
        (wakeup (ChBuf b) (upd_buf b (\<lambda>x. x\<lparr>b_disk := False\<rparr>) s2)))"

lemma intr_answers:
  assumes "idle_queue s" "i < NUM" "j < NUM" "k < NUM" "i \<noteq> j" "i \<noteq> k" "j \<noteq> k" "serves dev"
  shows "virtio_disk_intr rd (dev (virtio_submit b write i j k s)) = Inr (answered rd b write i j k s)"
proof -
  have "request (virtio_submit b write i j k s) i j k b write" using assms by (intro submit_request)
  then have dev: "dev (virtio_submit b write i j k s) = complete i b write (virtio_submit b write i j k s)"
    using assms(8) by (auto simp: serves_def)
  define t where "t = complete i b write (virtio_submit b write i j k s)"
  have t: "vk_used_idx (vdk t) \<noteq> vq_used_idx (vdk t)" "vq_used_idx (vdk t) = vk_used_idx (vdk t) + 1"
    "vq_used_ring (vdk t) (unat (vk_used_idx (vdk t)) mod NUM) = of_nat i" "vk_info_b (vdk t) i = Some b"
    "vk_info_status (vdk t) i = 0"
    using assms(1) unfolding t_def by (simp_all add: complete_fields submit_fields idle_queue_def)
  show ?thesis
    unfolding virtio_disk_intr_def dev answered_def Let_def t_def [symmetric]
    by (subst virtio_intr_loop.simps, subst virtio_intr_loop.simps) (simp add: t small_idx assms(2))
qed

lemma answered_fields:
  assumes "idle_queue s" "i \<noteq> j" "i \<noteq> k" "j \<noteq> k" "unat (b_blockno (bufs s b)) < 2 ^ 31" "\<not> b_disk (bufs s b)"
  shows "bufs (answered rd b write i j k s) = bufs (disk_rw b write s)"
    "disk (answered rd b write i j k s) = disk (disk_rw b write s)"
    "dwrites (answered rd b write i j k s) = dwrites (disk_rw b write s)"
    "vk_free (vdk (answered rd b write i j k s)) = vk_free (vdk s)"
    "idle_queue (answered rd b write i j k s)"
    "vq_desc (vdk (answered rd b write i j k s)) = (vq_desc (vdk s))(
     i := \<lparr>vd_addr = DmaOps i, vd_len = 16, vd_flags = 1, vd_next = of_nat j\<rparr>,
     j := \<lparr>vd_addr = DmaData b, vd_len = 1024, vd_flags = (if write then 1 else 3), vd_next = of_nat k\<rparr>,
     k := \<lparr>vd_addr = DmaStatus i, vd_len = 1, vd_flags = 2, vd_next = 0\<rparr>)"
proof -
  have sec: "ucast (drop_bit 1 (br_sector (vk_ops (vdk (virtio_submit b write i j k s)) i))) = b_blockno (bufs s b)"
    using sector_block [OF assms(5)] by (simp add: BSIZE_def submit_fields)
  have b: "(bufs s b)\<lparr>b_disk := False\<rparr> = bufs s b" using assms(6) by (cases "bufs s b") simp
  note d = answered_def Let_def disk_rw_def complete_disk [OF sec] complete_fields submit_fields submit_desc
  show "bufs (answered rd b write i j k s) = bufs (disk_rw b write s)"
    using b assms(6) by (simp add: d fun_eq_iff)
  show "disk (answered rd b write i j k s) = disk (disk_rw b write s)" by (simp add: d)
  show "dwrites (answered rd b write i j k s) = dwrites (disk_rw b write s)" by (simp add: d)
  show "vk_free (vdk (answered rd b write i j k s)) = vk_free (vdk s)" by (simp add: d)
  show "idle_queue (answered rd b write i j k s)" using assms(1) by (simp add: d idle_queue_def)
  show "vq_desc (vdk (answered rd b write i j k s)) = (vq_desc (vdk s))(
     i := \<lparr>vd_addr = DmaOps i, vd_len = 16, vd_flags = 1, vd_next = of_nat j\<rparr>,
     j := \<lparr>vd_addr = DmaData b, vd_len = 1024, vd_flags = (if write then 1 else 3), vd_next = of_nat k\<rparr>,
     k := \<lparr>vd_addr = DmaStatus i, vd_len = 1, vd_flags = 2, vd_next = 0\<rparr>)"
    by (simp add: d)
qed

lemma free_chain3:
  assumes "i < NUM" "j < NUM" "k < NUM" "i \<noteq> j" "i \<noteq> k" "j \<noteq> k"
    and "\<not> vk_free (vdk s) i" "\<not> vk_free (vdk s) j" "\<not> vk_free (vdk s) k"
    and "vd_flags (vq_desc (vdk s) i) AND VRING_DESC_F_NEXT \<noteq> 0" "vd_next (vq_desc (vdk s) i) = of_nat j"
    and "vd_flags (vq_desc (vdk s) j) AND VRING_DESC_F_NEXT \<noteq> 0" "vd_next (vq_desc (vdk s) j) = of_nat k"
    and "vd_flags (vq_desc (vdk s) k) AND VRING_DESC_F_NEXT = 0"
  shows "\<exists>s'. free_chain i s = Inr s' \<and> vk_free (vdk s') = (vk_free (vdk s))(i := True, j := True, k := True) \<and>
    bufs s' = bufs s \<and> disk s' = disk s \<and> dwrites s' = dwrites s \<and> (idle_queue s' = idle_queue s)"
  using assms
  by (simp add: free_chain.simps free_desc_def small_idx Let_def idle_queue_def)

text \<open>C3: Under the device contract \<open>virtio_disk_rw\<close> implements the disk of the buffer cache: with the
  queue idle and three free descriptors it returns, the buffer or the block is what \<open>disk_rw\<close> makes
  it, nothing else in the cache or on the disk changes, and all descriptors are free again.\<close>

theorem virtio_disk_rw_refines:
  assumes "serves dev" "idle_queue s" "3 \<le> card (free_descs s)"
    and "unat (b_blockno (bufs s b)) < 2 ^ 31" "\<not> b_disk (bufs s b)"
  shows "\<exists>s'. virtio_disk_rw rd dev (Suc n) b write s = Inr s' \<and>
    bufs s' = bufs (disk_rw b write s) \<and> disk s' = disk (disk_rw b write s) \<and>
    dwrites s' = dwrites (disk_rw b write s) \<and> vk_free (vdk s') = vk_free (vdk s) \<and> idle_queue s'"
proof (cases s rule: alloc3_cases)
  case none
  with assms(3) show ?thesis by simp
next
  case (some i j k)
  define t where "t = took3 i j k s"
  have idx: "i < NUM" "j < NUM" "k < NUM" "vk_free (vdk s) i" "vk_free (vdk s) j" "vk_free (vdk s) k"
    using some(5) by (auto simp: free_descs_def)
  have t: "idle_queue t" "bufs t = bufs s" "disk t = disk s" "dwrites t = dwrites s"
    "vk_free (vdk t) = (vk_free (vdk s))(i := False, j := False, k := False)"
    using assms(2) by (simp_all add: t_def took3_def idle_queue_def)
  have rw: "bufs (disk_rw b write t) = bufs (disk_rw b write s)" "disk (disk_rw b write t) = disk (disk_rw b write s)"
    "dwrites (disk_rw b write t) = dwrites (disk_rw b write s)"
    using t(2-4) by (simp_all add: disk_rw_def Let_def)
  have tb: "unat (b_blockno (bufs t b)) < 2 ^ 31" "\<not> b_disk (bufs t b)" using assms(4,5) t(2) by simp_all
  note f = answered_fields [OF t(1) some(2-4) tb, of rd "write"]
  have disk0: "\<not> b_disk (bufs (answered rd b write i j k t) b)"
    using f(1) tb(2) by (simp add: disk_rw_def Let_def)
  have woken: "virtio_wait rd dev n b (answered rd b write i j k t) = Inr (answered rd b write i j k t)"
    by (subst virtio_wait.simps) (simp add: disk0)
  have wait: "virtio_wait rd dev (Suc n) b (virtio_submit b write i j k t) = Inr (answered rd b write i j k t)"
    by (subst virtio_wait.simps)
      (simp add: submit_fields intr_answers [OF t(1) idx(1-3) some(2-4) assms(1)] woken)
  define u where "u = upd_vdk (\<lambda>d. d\<lparr>vk_info_b := (vk_info_b d)(i := None)\<rparr>) (answered rd b write i j k t)"
  have u: "bufs u = bufs (disk_rw b write s)" "disk u = disk (disk_rw b write s)"
    "dwrites u = dwrites (disk_rw b write s)" "vk_free (vdk u) = vk_free (vdk t)" "idle_queue u"
    using f(1-5) rw by (simp_all add: u_def idle_queue_def)
  have ud: "vq_desc (vdk u) = vq_desc (vdk (answered rd b write i j k t))" by (simp add: u_def)
  have fl: "(if write then 1 else 3) AND (1 :: u16) \<noteq> 0" by (cases "write") simp_all
  obtain s' where "free_chain i u = Inr s'"
      "vk_free (vdk s') = (vk_free (vdk u))(i := True, j := True, k := True)"
      "bufs s' = bufs u" "disk s' = disk u" "dwrites s' = dwrites u" "idle_queue s' = idle_queue u"
    using free_chain3 [OF idx(1-3) some(2-4), of u] u(4) t(5) f(6) some(2-4) fl
    unfolding ud by (auto simp: VRING_DESC_F_NEXT_def)
  moreover have "(vk_free (vdk s))(i := True, j := True, k := True) = vk_free (vdk s)"
    using idx(4-6) by (auto simp: fun_eq_iff)
  ultimately show ?thesis
    using some(1) wait u t(5) unfolding virtio_disk_rw_def t_def [symmetric] u_def [symmetric]
    by (simp add: t_def [symmetric] u_def [symmetric] fun_upd_twist)
qed

text \<open>A device that answers the newest request, and a driver with all descriptors free.\<close>

definition answering :: "'a disk_state_scheme \<Rightarrow> 'a disk_state_scheme" where
  "answering s =
     (let d = vdk s; i = unat (vq_avail_ring d (unat (vq_used_idx d) mod NUM));
          j = unat (vd_next (vq_desc d i)) in
      case vd_addr (vq_desc d j) of DmaData b \<Rightarrow> complete i b (br_type (vk_ops d i) = 1) s | _ \<Rightarrow> s)"

lemma answering_serves: "serves answering"
  by (auto simp: serves_def request_def answering_def Let_def small_idx)

definition ready_disk_state :: disk_state where
  "ready_disk_state = upd_buf 3 (\<lambda>x. x\<lparr>b_blockno := 7, b_data := replicate BSIZE 5\<rparr>)
     (upd_vdk (\<lambda>d. d\<lparr>vk_free := (\<lambda>i. i < NUM)\<rparr>) blank_disk_state)"

theorem virtio_disk_rw_refines_witness:
  "\<exists>s'. virtio_disk_rw (\<lambda>_ _. 0) answering 1 3 True ready_disk_state = Inr s' \<and>
    disk s' 7 = replicate BSIZE 5 \<and> disk s' 8 = replicate BSIZE 0 \<and> idle_queue s'"
proof -
  have "free_descs ready_disk_state = {0..<NUM}" by (auto simp: free_descs_def ready_disk_state_def)
  then have "3 \<le> card (free_descs ready_disk_state)" by (simp add: NUM_def)
  moreover have "idle_queue ready_disk_state" by (simp add: idle_queue_def ready_disk_state_def no_vdisk_def)
  ultimately show ?thesis
    using virtio_disk_rw_refines [OF answering_serves, of ready_disk_state 3 "\<lambda>_ _. 0" 0 True]
    by (auto simp: ready_disk_state_def no_buf_def disk_rw_def Let_def)
qed

end
