(* ===== verification/Trap.thy ===== *)
theory Trap
  imports SysFile Virtio
begin

text \<open>
  The way into and out of the kernel: the table of \<^verbatim>\<open>kernel/syscall.c\<close>, \<^verbatim>\<open>kernel/trap.c\<close>, \<^verbatim>\<open>kernel/plic.c\<close>, and \<open>forkret\<close> of
  \<^verbatim>\<open>kernel/proc.c\<close>.  The state gains the control registers of the hart, the addresses of the assembly
  entry points, and the interrupt controller, which like the other devices answers reads after a
  history of accesses.  A trap ends by returning to user mode or by leaving the CPU to the
  scheduler.
\<close>

unbundle bit_operations_syntax

definition SSTATUS_SPP :: u64 where "SSTATUS_SPP = push_bit 8 1"
definition SSTATUS_SPIE :: u64 where "SSTATUS_SPIE = push_bit 5 1"
definition SSTATUS_SIE :: u64 where "SSTATUS_SIE = push_bit 1 1"

datatype pev = PRd u64 | PWr u64 u32

record trap_state = hart_state +
  first_boot :: bool
  sstatus :: u64
  stvec :: u64
  sepc :: u64
  scause :: u64
  stval :: u64
  ssp :: u64
  senvcfg :: u64
  rtime :: u64
  kernelvec :: u64
  uservec :: u64
  userret :: u64
  usertrap_at :: u64
  clint :: u64
  virtio_rd :: regs
  plic_dev :: "pev list \<Rightarrow> u64 \<Rightarrow> u32"
  plic_ev :: "pev list"

definition intr_on :: "'a trap_state_scheme \<Rightarrow> 'a trap_state_scheme" where
  "intr_on s = s\<lparr>sstatus := sstatus s OR SSTATUS_SIE\<rparr>"

definition intr_off :: "'a trap_state_scheme \<Rightarrow> 'a trap_state_scheme" where
  "intr_off s = s\<lparr>sstatus := sstatus s AND NOT SSTATUS_SIE\<rparr>"

definition intr_get :: "'a trap_state_scheme \<Rightarrow> bool" where
  "intr_get s = (sstatus s AND SSTATUS_SIE \<noteq> 0)"

section \<open>System calls\<close>

text \<open>
  A call that comes back with a result, or that has given up the CPU for good (\<open>exit\<close>).
\<close>

datatype 's trapres = Returned 's | Switched 's

abbreviation returning :: "(u64 \<times> 'a trap_state_scheme) res \<Rightarrow> (u64 \<times> 'a trap_state_scheme) trapres res" where
  "returning r \<equiv> bnd r (\<lambda>x. Inr (Returned x))"

definition syscalls :: "int \<Rightarrow> ('a trap_state_scheme \<Rightarrow> (u64 \<times> 'a trap_state_scheme) trapres res) option" where
  "syscalls num =
     (if num = 1 then Some (\<lambda>s. returning (sys_fork s))
      else if num = 2 then Some (\<lambda>s. bnd (sys_exit s) (\<lambda>s. Inr (Switched (0, s))))
      else if num = 3 then Some (\<lambda>s. returning (sys_wait s))
      else if num = 4 then Some (\<lambda>s. returning (sys_pipe s))
      else if num = 5 then Some (\<lambda>s. returning (sys_read s))
      else if num = 6 then Some (\<lambda>s. returning (sys_kill s))
      else if num = 7 then Some (\<lambda>s. returning (sys_exec s))
      else if num = 8 then Some (\<lambda>s. returning (sys_fstat s))
      else if num = 9 then Some (\<lambda>s. returning (sys_chdir s))
      else if num = 10 then Some (\<lambda>s. returning (sys_dup s))
      else if num = 11 then Some (\<lambda>s. returning (sys_getpid s))
      else if num = 12 then Some (\<lambda>s. returning (sys_sbrk s))
      else if num = 13 then Some (\<lambda>s. returning (sys_sleep s))
      else if num = 14 then Some (\<lambda>s. returning (sys_uptime s))
      else if num = 15 then Some (\<lambda>s. returning (sys_open s))
      else if num = 16 then Some (\<lambda>s. returning (sys_write s))
      else if num = 17 then Some (\<lambda>s. returning (sys_mknod s))
      else if num = 18 then Some (\<lambda>s. returning (sys_unlink s))
      else if num = 19 then Some (\<lambda>s. returning (sys_link s))
      else if num = 20 then Some (\<lambda>s. returning (sys_mkdir s))
      else if num = 21 then Some (\<lambda>s. returning (sys_close s))
      else if num = 22 then Some (\<lambda>s. returning (sys_shutdown s))
      else None)"

definition syscall :: "'a trap_state_scheme \<Rightarrow> 'a trap_state_scheme trapres res" where
  "syscall s =
     (let p = myproc s;
          num = sint (ucast (tf_get (p_trapframe (procs s p)) (AReg 7) s) :: u32) in
      case syscalls num of
        Some f \<Rightarrow>
          bnd (f s) (\<lambda>r.
            case r of
              Returned (v, s) \<Rightarrow> Inr (Returned (tf_set (p_trapframe (procs s p)) (AReg 0) v s))
            | Switched (v, s) \<Rightarrow> Inr (Switched s))
      | None \<Rightarrow>
          bnd (printf (bytes_of ''%d %s: unknown sys call %d'' @ [10])
                 [PNum (word_of_int (p_pid (procs s p))), PStr (Some (cstr (p_name (procs s p)))), PNum (word_of_int num)] s) (\<lambda>(_, s).
            Inr (Returned (tf_set (p_trapframe (procs s p)) (AReg 0) (- 1) s))))"

section \<open>The interrupt controller\<close>

definition plic_write :: "u64 \<Rightarrow> u32 \<Rightarrow> 'a trap_state_scheme \<Rightarrow> 'a trap_state_scheme" where
  "plic_write a v s = s\<lparr>plic_ev := PWr a v # plic_ev s\<rparr>"

definition PLIC_SENABLE :: "u64 \<Rightarrow> 'a trap_state_scheme \<Rightarrow> u64" where
  "PLIC_SENABLE hart s = plic s + 0x2080 + hart * 0x100"

definition PLIC_SPRIORITY :: "u64 \<Rightarrow> 'a trap_state_scheme \<Rightarrow> u64" where
  "PLIC_SPRIORITY hart s = plic s + 0x201000 + hart * 0x2000"

definition PLIC_SCLAIM :: "u64 \<Rightarrow> 'a trap_state_scheme \<Rightarrow> u64" where
  "PLIC_SCLAIM hart s = plic s + 0x201004 + hart * 0x2000"

definition plicinit :: "'a trap_state_scheme \<Rightarrow> 'a trap_state_scheme" where
  "plicinit s =
     (let s = plic_write (plic s + uart0_irq s * 4) 1 s in plic_write (plic s + virtio0_irq s * 4) 1 s)"

definition plicinithart :: "'a trap_state_scheme \<Rightarrow> 'a trap_state_scheme" where
  "plicinithart s =
     (let hart = cpuid s;
          s = plic_write (PLIC_SENABLE hart s) (push_bit (unat (uart0_irq s)) 1 OR push_bit (unat (virtio0_irq s)) 1) s
      in plic_write (PLIC_SPRIORITY hart s) 0 s)"

definition plic_claim :: "'a trap_state_scheme \<Rightarrow> u32 \<times> 'a trap_state_scheme" where
  "plic_claim s =
     (let a = PLIC_SCLAIM (cpuid s) s in (plic_dev s (plic_ev s) a, s\<lparr>plic_ev := PRd a # plic_ev s\<rparr>))"

definition plic_complete :: "u32 \<Rightarrow> 'a trap_state_scheme \<Rightarrow> 'a trap_state_scheme" where
  "plic_complete irq s = plic_write (PLIC_SCLAIM (cpuid s) s) irq s"

section \<open>Interrupts\<close>

definition trapinit :: "'a trap_state_scheme \<Rightarrow> 'a trap_state_scheme" where
  "trapinit s = s"

definition trapinithart :: "'a trap_state_scheme \<Rightarrow> 'a trap_state_scheme" where
  "trapinithart s = s\<lparr>stvec := kernelvec s\<rparr>"

definition clockintr :: "'a proc_state_scheme \<Rightarrow> 'a proc_state_scheme" where
  "clockintr s = wakeup ChTicks (s\<lparr>ticks := ticks s + 1\<rparr>)"

definition devintr :: "'a trap_state_scheme \<Rightarrow> (int \<times> 'a trap_state_scheme) res" where
  "devintr s =
     (let cause = scause s in
      if cause AND 0x8000000000000000 \<noteq> 0 \<and> cause AND 0xff = 9 then
        (case plic_claim s of (irq, s) \<Rightarrow>
         bnd (if scast irq = uart0_irq s then uartintr s
              else if scast irq = virtio0_irq s then virtio_disk_intr (virtio_rd s) s
              else if irq \<noteq> 0 then bnd (printf (bytes_of ''unexpected interrupt irq=%d'' @ [10]) [PNum (scast irq)] s) (\<lambda>(_, s). Inr s)
              else Inr s) (\<lambda>s.
         Inr (1, if irq \<noteq> 0 then plic_complete irq s else s)))
      else if cause AND 0x8000000000000000 \<noteq> 0 \<and> cause AND 0xff = 5 then
        let s = (if cpuid s = 0 then clockintr s else s)
        in Inr (2, sbi_set_timer (rtime s + 1000000) s)
      else Inr (0, s))"

definition scause_to_string :: "u64 \<Rightarrow> string res" where
  "scause_to_string cause =
     (if cause \<ge> 0x8000000000000000 then panic ''scause_to_string: interrupts are not supported''
      else Inr (
        if cause = 0 then ''Instruction address misaligned''
        else if cause = 1 then ''Instruction access fault''
        else if cause = 2 then ''Illegal instruction''
        else if cause = 3 then ''Breakpoint''
        else if cause = 4 then ''Load address misaligned''
        else if cause = 5 then ''Load access fault''
        else if cause = 6 then ''Store/AMO address misaligned''
        else if cause = 7 then ''Store/AMO access fault''
        else if cause = 8 then ''Ecall from U-mode''
        else if cause = 9 then ''Ecall from S-mode''
        else if cause = 10 \<or> cause = 11 then ''Reserved''
        else if cause = 12 then ''Instruction page fault''
        else if cause = 13 then ''Load page fault''
        else if cause = 14 then ''Reserved''
        else if cause = 15 then ''Store/AMO page fault''
        else if cause = 16 \<or> cause = 17 then ''Reserved''
        else if cause = 18 then ''Software check''
        else if cause = 19 then ''Hardware error''
        else ''Reserved/Custom use''))"

section \<open>To user mode and back\<close>

text \<open>
  \<open>usertrapret\<close> ends by jumping to \<^verbatim>\<open>userret\<close> in the trampoline: the result is where it jumps, the page
  table it passes there, and the state.
\<close>

definition usertrapret :: "'a trap_state_scheme \<Rightarrow> u64 \<times> u64 \<times> 'a trap_state_scheme" where
  "usertrapret s =
     (let p = myproc s;
          s = intr_off s;
          s = s\<lparr>stvec := TRAMPOLINE + (uservec s - trampoline s)\<rparr>;
          tf = p_trapframe (procs s p);
          s = tf_set tf Kernel_satp (satp s) s;
          s = tf_set tf Kernel_sp (p_kstack (procs s p) + PGSIZE) s;
          s = tf_set tf Kernel_trap (usertrap_at s) s;
          s = tf_set tf Kernel_hartid (r_tp s) s;
          x = sstatus s;
          x = x AND NOT SSTATUS_SPP;
          x = x OR SSTATUS_SPIE;
          x = x AND NOT (push_bit 23 1);
          x = x OR push_bit 23 (tf_get tf Pelp s);
          s = s\<lparr>sstatus := x\<rparr>;
          s = s\<lparr>ssp := tf_get tf Ssp s\<rparr>;
          s = s\<lparr>sepc := tf_get tf Epc s\<rparr>
      in (TRAMPOLINE + (userret s - trampoline s), MAKE_SATP (p_pagetable (procs s p)), s))"

definition forkret :: "'a trap_state_scheme \<Rightarrow> (u64 \<times> u64 \<times> 'a trap_state_scheme) res" where
  "forkret s =
     bnd (if first_boot s then bnd (fsinit ROOTDEV s) (\<lambda>s. Inr (s\<lparr>first_boot := False\<rparr>)) else Inr s) (\<lambda>s.
     Inr (usertrapret s))"

text \<open>A process that has been killed exits instead of going on.\<close>

definition exit_killed :: "nat \<Rightarrow> 'a trap_state_scheme \<Rightarrow> 'a trap_state_scheme trapres res" where
  "exit_killed p s = (if killed p s then bnd (exit (- 1) s) (\<lambda>s. Inr (Switched s)) else Inr (Returned s))"

definition bndt :: "'a trap_state_scheme trapres res \<Rightarrow> ('a trap_state_scheme \<Rightarrow> 'a trap_state_scheme trapres res) \<Rightarrow> 'a trap_state_scheme trapres res" where
  "bndt r f = bnd r (\<lambda>t. case t of Returned s \<Rightarrow> f s | Switched s \<Rightarrow> Inr (Switched s))"

text \<open>What \<open>usertrap\<close> does about the cause of the trap; the number is \<open>which_dev\<close>.\<close>

definition usertrap_cause :: "nat \<Rightarrow> 'a trap_state_scheme \<Rightarrow> (int \<times> 'a trap_state_scheme trapres) res" where
  "usertrap_cause p s =
     (if scause s = 8 then
        bnd (bndt (exit_killed p s) (\<lambda>s.
          let tf = p_trapframe (procs s p);
              s = tf_set tf Epc (tf_get tf Epc s + 4) s
          in syscall (intr_on s))) (\<lambda>t. Inr (0, t))
      else bnd (devintr s) (\<lambda>(which_dev, s).
        if which_dev \<noteq> 0 then Inr (which_dev, Returned s)
        else bnd (scause_to_string (scause s)) (\<lambda>str.
          bnd (printf (bytes_of ''usertrap(): unexpected scause='' @ [0x27] @ bytes_of ''%s'' @ [0x27] @ bytes_of '' pid=%d name='' @ [0x27] @ bytes_of ''%s'' @ [0x27, 10])
                 [PStr (Some (bytes_of str)), PNum (word_of_int (p_pid (procs s p))), PStr (Some (cstr (p_name (procs s p))))] s) (\<lambda>(_, s).
          bnd (printf (bytes_of ''                        sepc=%lx stval=%lx'' @ [10]) [PNum (sepc s), PNum (stval s)] s) (\<lambda>(_, s).
          Inr (0, Returned (setkilled p s)))))))"

text \<open>The state after a trap from user mode: back in user mode, or in the scheduler.\<close>

definition usertrap :: "'a trap_state_scheme \<Rightarrow> (u64 \<times> u64 \<times> 'a trap_state_scheme) trapres res" where
  "usertrap s =
     (if sstatus s AND SSTATUS_SPP \<noteq> 0 then panic ''usertrap: not from user mode''
      else
        let status = sstatus s;
            s = s\<lparr>stvec := kernelvec s\<rparr>;
            p = myproc s;
            tf = p_trapframe (procs s p);
            s = tf_set tf Pelp (drop_bit 23 status AND 1) s;
            s = tf_set tf Ssp (ssp s) s;
            s = tf_set tf Epc (sepc s) s
        in bnd (usertrap_cause p s) (\<lambda>(which_dev, t).
           bnd (bndt (Inr t) (exit_killed p)) (\<lambda>t.
             case t of
               Switched s \<Rightarrow> Inr (Switched (0, 0, s))
             | Returned s \<Rightarrow>
                 if which_dev = 2 then Inr (Switched (0, 0, yield s)) else Inr (Returned (usertrapret s)))))"

text \<open>
  A trap from kernel mode.  On a timer interrupt the thread yields and the trap registers are
  restored when it runs again: the state is the one it then goes on in, if nothing else runs in
  between.
\<close>

definition kerneltrap :: "'a trap_state_scheme \<Rightarrow> 'a trap_state_scheme trapres res" where
  "kerneltrap s =
     (let pc = sepc s; status = sstatus s; cause = scause s in
      if status AND SSTATUS_SPP = 0 then panic ''kerneltrap: not from supervisor mode''
      else if intr_get s then panic ''kerneltrap: interrupts enabled''
      else bnd (devintr s) (\<lambda>(which_dev, s).
        if which_dev = 0 then
          bnd (printf (bytes_of ''scause %lx'' @ [10]) [PNum cause] s) (\<lambda>(_, s).
          bnd (printf (bytes_of ''sepc=%lx stval=%lx'' @ [10]) [PNum (sepc s), PNum (stval s)] s) (\<lambda>(_, s).
          panic ''kerneltrap''))
        else
          let s' = s\<lparr>sepc := pc, sstatus := status\<rparr>
          in if which_dev = 2 \<and> curproc s \<noteq> None then Inr (Switched (yield s')) else Inr (Returned s')))"

section \<open>A blank machine\<close>

text \<open>A state in which no device answers and no process runs, for the examples.\<close>

definition blank_trap_state :: trap_state where
  "blank_trap_state = hart_state.extend
     (file_state.extend blank_file_state (hart_state.fields 0 (\<lambda>_ _. \<lparr>sr_error = 0, sr_value = 0\<rparr>) []))
     (trap_state.fields False 0 0 0 0 0 0 0 0 0 0 0 0 0 (\<lambda>_ _. 0) (\<lambda>_ _. 0) [])"

end
