(* ===== verification/Dtb.thy ===== *)
theory Dtb
  imports KString
begin

text \<open>
  The flattened device tree, \<^verbatim>\<open>kernel/dtb.c\<close> and \<^verbatim>\<open>kernel/dtb.h\<close>: a blob in memory, in big-endian words, that
  the boot code walks token by token.  Nodes, properties and strings are addresses in it.  A string is
  read byte by byte, so it is the function from the index to the byte.  The walks have no bound of
  their own: they are partial functions whose value is \<open>None\<close> when the source loops for ever.
\<close>

unbundle bit_operations_syntax

section \<open>Words\<close>

definition DTB_BYTESWAP32 :: "'a::len word \<Rightarrow> 'a word" where
  "DTB_BYTESWAP32 num = ((drop_bit 24 num AND 0xff) OR (push_bit 8 num AND 0xff0000) OR
     (drop_bit 8 num AND 0xff00) OR (push_bit 24 num AND 0xff000000))"

definition DTB_BYTESWAP64 :: "u64 \<Rightarrow> u64" where
  "DTB_BYTESWAP64 num = (push_bit 32 (DTB_BYTESWAP32 num) OR DTB_BYTESWAP32 (drop_bit 32 num))"

definition DTB_BEGIN_NODE :: u32 where "DTB_BEGIN_NODE = DTB_BYTESWAP32 0x1"
definition DTB_END_NODE :: u32 where "DTB_END_NODE = DTB_BYTESWAP32 0x2"
definition DTB_PROP :: u32 where "DTB_PROP = DTB_BYTESWAP32 0x3"
definition DTB_NOP :: u32 where "DTB_NOP = DTB_BYTESWAP32 0x4"
definition DTB_END :: u32 where "DTB_END = DTB_BYTESWAP32 0x9"
definition DTB_MAGIC_LE :: u32 where "DTB_MAGIC_LE = DTB_BYTESWAP32 0xd00dfeed"

text \<open>The fields of the header that are used.\<close>

definition dtb_magic :: "mem \<Rightarrow> addr \<Rightarrow> u32" where "dtb_magic m dt = read32 m dt"
definition dtb_off_dt_struct :: "mem \<Rightarrow> addr \<Rightarrow> u32" where "dtb_off_dt_struct m dt = read32 m (dt + 8)"
definition dtb_off_dt_strings :: "mem \<Rightarrow> addr \<Rightarrow> u32" where "dtb_off_dt_strings m dt = read32 m (dt + 12)"
definition dtb_off_mem_rsvmap :: "mem \<Rightarrow> addr \<Rightarrow> u32" where "dtb_off_mem_rsvmap m dt = read32 m (dt + 16)"
definition dtb_last_comp_version :: "mem \<Rightarrow> addr \<Rightarrow> u32" where "dtb_last_comp_version m dt = read32 m (dt + 24)"

section \<open>Strings\<close>

type_synonym chars = "nat \<Rightarrow> byte"

definition chars_at :: "mem \<Rightarrow> addr \<Rightarrow> chars" where
  "chars_at m a = (\<lambda>i. m (a + of_nat i))"

definition lit :: "byte list \<Rightarrow> chars" where
  "lit bs = (\<lambda>i. if i < length bs then bs ! i else 0)"

partial_function (option) nodename_loop :: "chars \<Rightarrow> chars \<Rightarrow> nat \<Rightarrow> nat option" where
  "nodename_loop pathpart nodename i =
     (if pathpart i = 0 \<or> nodename i = 0 then Some i
      else if pathpart i \<noteq> nodename i then Some i
      else nodename_loop pathpart nodename (Suc i))"

definition strcmp_nodename :: "chars \<Rightarrow> chars \<Rightarrow> int option" where
  "strcmp_nodename pathpart nodename =
     (case nodename_loop pathpart nodename 0 of
        None \<Rightarrow> None
      | Some i \<Rightarrow>
          if pathpart i = 0 \<and> nodename i = 0 then Some 0
          else if pathpart i = 0 \<and> nodename i = 0x40 then Some 0
          else Some 1)"

fun dtb_memcpy :: "mem \<Rightarrow> addr \<Rightarrow> nat \<Rightarrow> byte list" where
  "dtb_memcpy m src 0 = []"
| "dtb_memcpy m src (Suc sz) = m src # dtb_memcpy m (src + 1) sz"

section \<open>Tokens\<close>

text \<open>The first byte that is zero, from \<open>a\<close> on; the first word that is not.\<close>

partial_function (option) skip_chars :: "mem \<Rightarrow> addr \<Rightarrow> addr option" where
  "skip_chars m a = (if m a = 0 then Some a else skip_chars m (a + 1))"

partial_function (option) skip_zero_words :: "mem \<Rightarrow> addr \<Rightarrow> addr option" where
  "skip_zero_words m a = (if read32 m a = 0 then skip_zero_words m (a + 4) else Some a)"

definition dtb_next_token :: "mem \<Rightarrow> addr \<Rightarrow> addr option" where
  "dtb_next_token m token =
     (if read32 m token = DTB_BEGIN_NODE then
        (case skip_chars m (token + 4) of
           None \<Rightarrow> None
         | Some tokenchar \<Rightarrow>
             skip_zero_words m (if tokenchar mod 4 \<noteq> 0 then tokenchar + (4 - tokenchar mod 4) else tokenchar))
      else if read32 m token = DTB_END_NODE then Some (token + 4)
      else if read32 m token = DTB_PROP then
        let len = DTB_BYTESWAP32 (read32 m (token + 4)) in
        if len mod 4 = 0 then Some (token + 4 * (ucast len div 4 + 3))
        else let len_rounding = 4 - len mod 4 in Some (token + 4 * (ucast (len + len_rounding) div 4 + 3))
      else if read32 m token = DTB_NOP then Some (token + 4)
      else Some token)"

section \<open>Nodes\<close>

definition dtb_fromptr :: "mem \<Rightarrow> addr \<Rightarrow> addr" where
  "dtb_fromptr m ptr =
     (if ptr = 0 then 0
      else if dtb_magic m ptr \<noteq> DTB_MAGIC_LE then 0
      else if dtb_last_comp_version m ptr \<noteq> DTB_BYTESWAP32 16 then 0
      else ptr)"

text \<open>The two loops of \<open>dtb_next_sibling\<close>: to the end of the node, and to the next node.\<close>

partial_function (option) skip_node :: "mem \<Rightarrow> addr \<Rightarrow> int \<Rightarrow> addr option" where
  "skip_node m node depth =
     (if read32 m node = DTB_END then Some node
      else if read32 m node = DTB_BEGIN_NODE then skip_node m (node + 8) (depth + 1)
      else if read32 m node = DTB_PROP then
        let len = DTB_BYTESWAP32 (read32 m (node + 4)); len_rounding = 4 - len mod 4 in
        if len mod 4 = 0 then skip_node m (node + 4 * (ucast len div 4 + 2) + 4) depth
        else skip_node m (node + 4 * (ucast (len + len_rounding) div 4 + 2) + 4) depth
      else if read32 m node = DTB_NOP then skip_node m (node + 4) depth
      else if read32 m node = DTB_END_NODE then
        if depth - 1 \<le> 0 then Some (node + 4) else skip_node m (node + 4) (depth - 1)
      else skip_node m (node + 4) depth)"

partial_function (option) seek_node :: "mem \<Rightarrow> addr \<Rightarrow> addr option" where
  "seek_node m node =
     (if read32 m node = DTB_BEGIN_NODE then Some node
      else if read32 m node = DTB_END then Some node
      else if read32 m node = DTB_END_NODE then Some 0
      else seek_node m (node + 4))"

definition dtb_next_sibling :: "mem \<Rightarrow> addr \<Rightarrow> addr option" where
  "dtb_next_sibling m node = (case skip_node m node 0 of None \<Rightarrow> None | Some node \<Rightarrow> seek_node m node)"

partial_function (option) first_child_loop :: "mem \<Rightarrow> addr \<Rightarrow> addr option" where
  "first_child_loop m token =
     (if read32 m token \<noteq> DTB_BEGIN_NODE then
        if read32 m token = DTB_END \<or> read32 m token = DTB_END_NODE then Some 0
        else Option.bind (dtb_next_token m token) (\<lambda>token. first_child_loop m token)
      else Some token)"

definition dtb_first_child :: "mem \<Rightarrow> addr \<Rightarrow> addr option" where
  "dtb_first_child m node = Option.bind (dtb_next_token m node) (first_child_loop m)"

text \<open>
  The path is cut at its slashes into \<^verbatim>\<open>char parsed_path[10][256]\<close>, laid out row after row; a name is the
  string that starts with its row.
\<close>

definition parsed_row :: "chars \<Rightarrow> nat \<Rightarrow> chars" where
  "parsed_row parsed_path d = (\<lambda>i. parsed_path (256 * d + i))"

partial_function (option) parse_path :: "chars \<Rightarrow> nat \<Rightarrow> nat \<Rightarrow> nat \<Rightarrow> chars \<Rightarrow> (nat \<times> chars) res option" where
  "parse_path path i path_depth parsed_i parsed_path =
     (if path i = 0 then Some (Inr (path_depth, parsed_path))
      else if path i = 0x2f then parse_path path (Suc i) (Suc path_depth) 0 parsed_path
      else if path_depth \<ge> 10 \<or> parsed_i \<ge> 256 then Some (Inl Undefined)
      else parse_path path (Suc i) path_depth (Suc parsed_i)
        (parsed_path(256 * path_depth + parsed_i := path i)))"

partial_function (option) find_loop :: "mem \<Rightarrow> chars \<Rightarrow> nat \<Rightarrow> addr \<Rightarrow> nat \<Rightarrow> addr res option" where
  "find_loop m parsed_path path_depth token parsing_depth =
     (if read32 m token = DTB_END then Some (Inr 0)
      else if read32 m token = DTB_BEGIN_NODE then
        if parsing_depth \<ge> 10 then Some (Inl Undefined)
        else Option.bind (strcmp_nodename (parsed_row parsed_path parsing_depth) (chars_at m (token + 4))) (\<lambda>r.
          if r = 0 then
            if parsing_depth = path_depth then Some (Inr token)
            else find_loop m parsed_path path_depth (token + 8) (Suc parsing_depth)
          else Option.bind (dtb_next_sibling m token) (\<lambda>token.
            if token = 0 then Some (Inr 0) else find_loop m parsed_path path_depth token parsing_depth))
      else if read32 m token = DTB_PROP then
        let len = DTB_BYTESWAP32 (read32 m (token + 4)) in
        find_loop m parsed_path path_depth (token + 4 * (ucast len div 4 + 2) + 4) parsing_depth
      else find_loop m parsed_path path_depth (token + 4) parsing_depth)"

definition dtb_find :: "mem \<Rightarrow> addr \<Rightarrow> chars \<Rightarrow> addr res option" where
  "dtb_find m devicetree path =
     (let struct_block = devicetree + ucast (DTB_BYTESWAP32 (dtb_off_dt_struct m devicetree)) in
      if read32 m struct_block \<noteq> DTB_BEGIN_NODE then Some (Inr 0)
      else Option.bind (strcmp_nodename path (lit [0x2f])) (\<lambda>r.
        if r = 0 then Some (Inr struct_block)
        else if path 0 \<noteq> 0x2f then Some (Inr 0)
        else Option.bind (parse_path path 1 0 0 (\<lambda>_. 0)) (\<lambda>r.
          case r of
            Inl e \<Rightarrow> Some (Inl e)
          | Inr (path_depth, parsed_path) \<Rightarrow> find_loop m parsed_path path_depth (struct_block + 4) 0)))"

partial_function (option) find_next_loop :: "mem \<Rightarrow> chars \<Rightarrow> addr \<Rightarrow> addr option" where
  "find_next_loop m name node =
     (if node = 0 then Some 0
      else Option.bind (strcmp_nodename (chars_at m (node + 4)) name) (\<lambda>r.
        if r = 0 then Some node
        else Option.bind (dtb_next_sibling m node) (\<lambda>node. find_next_loop m name node)))"

definition dtb_find_next :: "mem \<Rightarrow> addr \<Rightarrow> chars \<Rightarrow> addr option" where
  "dtb_find_next m node name = Option.bind (dtb_next_sibling m node) (find_next_loop m name)"

section \<open>Properties\<close>

definition dtb_property_name :: "mem \<Rightarrow> addr \<Rightarrow> addr \<Rightarrow> addr" where
  "dtb_property_name m devicetree node =
     devicetree + ucast (DTB_BYTESWAP32 (dtb_off_dt_strings m devicetree)) + ucast (DTB_BYTESWAP32 (read32 m (node + 8)))"

definition dtb_property_uint32 :: "mem \<Rightarrow> addr \<Rightarrow> u32" where
  "dtb_property_uint32 m prop = DTB_BYTESWAP32 (read32 m (prop + 12))"

definition dtb_property_uint64 :: "mem \<Rightarrow> addr \<Rightarrow> u64" where
  "dtb_property_uint64 m prop = DTB_BYTESWAP64 (read64 m (prop + 12))"

definition dtb_property_string :: "addr \<Rightarrow> addr" where "dtb_property_string prop = prop + 12"

definition dtb_property_array :: "addr \<Rightarrow> addr" where "dtb_property_array prop = prop + 12"

definition dtb_property_length :: "mem \<Rightarrow> addr \<Rightarrow> u32" where
  "dtb_property_length m prop = DTB_BYTESWAP32 (read32 m (prop + 4))"

definition dtb_property_next_string :: "mem \<Rightarrow> addr \<Rightarrow> addr option" where
  "dtb_property_next_string m str = map_option (\<lambda>str. str + 1) (skip_chars m str)"

partial_function (option) property_loop :: "mem \<Rightarrow> addr \<Rightarrow> addr option" where
  "property_loop m token =
     (if read32 m token \<noteq> DTB_PROP then
        if read32 m token = DTB_END \<or> read32 m token = DTB_BEGIN_NODE \<or> read32 m token = DTB_END_NODE then Some 0
        else Option.bind (dtb_next_token m token) (\<lambda>token. property_loop m token)
      else Some token)"

definition dtb_first_property :: "mem \<Rightarrow> addr \<Rightarrow> addr option" where
  "dtb_first_property m node = Option.bind (dtb_next_token m node) (property_loop m)"

definition dtb_next_property :: "mem \<Rightarrow> addr \<Rightarrow> addr option" where
  "dtb_next_property m prop = Option.bind (dtb_next_token m prop) (property_loop m)"

definition dtb_reg_start :: "mem \<Rightarrow> addr \<Rightarrow> byte \<Rightarrow> u64 res" where
  "dtb_reg_start m reg addr_cells =
     (if addr_cells = 1 then Inr (ucast (DTB_BYTESWAP32 (read32 m reg)))
      else if addr_cells = 2 then Inr (DTB_BYTESWAP64 (le_word (dtb_memcpy m reg 8)))
      else Inl Undefined)"

definition dtb_reg_size :: "mem \<Rightarrow> addr \<Rightarrow> byte \<Rightarrow> byte \<Rightarrow> u64 res" where
  "dtb_reg_size m reg addr_cells size_cells =
     (let reg = reg + 4 * ucast addr_cells in
      if size_cells = 1 then Inr (ucast (DTB_BYTESWAP32 (read32 m reg)))
      else if size_cells = 2 then Inr (DTB_BYTESWAP64 (le_word (dtb_memcpy m reg 8)))
      else Inl Undefined)"

section \<open>Iteration\<close>

text \<open>The loops \<^verbatim>\<open>dtb_foreach_property\<close> and \<^verbatim>\<open>dtb_foreach_child\<close>, over a state that their bodies change.\<close>

partial_function (option) properties_from ::
    "mem \<Rightarrow> (addr \<Rightarrow> 's \<Rightarrow> 's res option) \<Rightarrow> addr \<Rightarrow> 's \<Rightarrow> 's res option" where
  "properties_from m body prop s =
     (if prop = 0 then Some (Inr s)
      else Option.bind (body prop s) (\<lambda>r.
        case r of
          Inl e \<Rightarrow> Some (Inl e)
        | Inr s \<Rightarrow> Option.bind (dtb_next_property m prop) (\<lambda>prop. properties_from m body prop s)))"

definition dtb_foreach_property :: "mem \<Rightarrow> addr \<Rightarrow> (addr \<Rightarrow> 's \<Rightarrow> 's res option) \<Rightarrow> 's \<Rightarrow> 's res option" where
  "dtb_foreach_property m node body s =
     Option.bind (dtb_first_property m node) (\<lambda>prop. properties_from m body prop s)"

partial_function (option) children_from ::
    "mem \<Rightarrow> (addr \<Rightarrow> 's \<Rightarrow> 's res option) \<Rightarrow> addr \<Rightarrow> 's \<Rightarrow> 's res option" where
  "children_from m body child s =
     (if child = 0 then Some (Inr s)
      else Option.bind (body child s) (\<lambda>r.
        case r of
          Inl e \<Rightarrow> Some (Inl e)
        | Inr s \<Rightarrow> Option.bind (dtb_next_sibling m child) (\<lambda>child. children_from m body child s)))"

definition dtb_foreach_child :: "mem \<Rightarrow> addr \<Rightarrow> (addr \<Rightarrow> 's \<Rightarrow> 's res option) \<Rightarrow> 's \<Rightarrow> 's res option" where
  "dtb_foreach_child m node body s =
     Option.bind (dtb_first_child m node) (\<lambda>child. children_from m body child s)"

section \<open>Nodes by handle\<close>

text \<open>The properties of one child; whether one of them is the handle.\<close>

partial_function (option) has_phandle :: "mem \<Rightarrow> addr \<Rightarrow> u32 \<Rightarrow> addr \<Rightarrow> bool option" where
  "has_phandle m devicetree phandle prop =
     (if prop = 0 then Some False
      else Option.bind (strcmp_nodename (lit (bytes_of ''phandle'')) (chars_at m (dtb_property_name m devicetree prop))) (\<lambda>r.
        if r = 0 \<and> dtb_property_uint32 m prop = phandle then Some True
        else Option.bind (dtb_next_property m prop) (\<lambda>prop. has_phandle m devicetree phandle prop)))"

partial_function (option) by_phandle_children :: "mem \<Rightarrow> addr \<Rightarrow> u32 \<Rightarrow> addr \<Rightarrow> addr option" where
  "by_phandle_children m devicetree phandle child =
     (if child = 0 then Some 0
      else Option.bind (dtb_first_property m child) (\<lambda>prop.
        Option.bind (has_phandle m devicetree phandle prop) (\<lambda>h.
          if h then Some child
          else Option.bind (dtb_first_child m child) (\<lambda>c.
            Option.bind (by_phandle_children m devicetree phandle c) (\<lambda>node.
              if node \<noteq> 0 then Some node
              else Option.bind (dtb_next_sibling m child) (\<lambda>c. by_phandle_children m devicetree phandle c))))))"

definition find_by_phandle_from :: "mem \<Rightarrow> addr \<Rightarrow> addr \<Rightarrow> u32 \<Rightarrow> addr option" where
  "find_by_phandle_from m devicetree from phandle =
     Option.bind (dtb_first_child m from) (by_phandle_children m devicetree phandle)"

definition dtb_find_by_phandle :: "mem \<Rightarrow> addr \<Rightarrow> u32 \<Rightarrow> addr res option" where
  "dtb_find_by_phandle m devicetree phandle =
     Option.bind (dtb_find m devicetree (lit [0x2f])) (\<lambda>r.
       case r of
         Inl e \<Rightarrow> Some (Inl e)
       | Inr root_node \<Rightarrow>
           if root_node = 0 then Some (Inl Undefined)
           else map_option Inr (find_by_phandle_from m devicetree root_node phandle))"

section \<open>Reserved memory\<close>

definition dtb_first_rsvmap_entry :: "mem \<Rightarrow> addr \<Rightarrow> addr" where
  "dtb_first_rsvmap_entry m devicetree =
     (let entry = devicetree + ucast (DTB_BYTESWAP32 (dtb_off_mem_rsvmap m devicetree)) in
      if read64 m entry = 0 \<and> read64 m (entry + 8) = 0 then 0 else entry)"

definition dtb_next_rsvmap_entry :: "mem \<Rightarrow> addr \<Rightarrow> addr" where
  "dtb_next_rsvmap_entry m entry =
     (let entry = entry + 16 in if read64 m entry = 0 \<and> read64 m (entry + 8) = 0 then 0 else entry)"


section \<open>Big-endian numbers\<close>

lemma byte_div_mod:
  fixes k :: nat
  assumes "8 * d \<le> k" "k < 8 * d + 8"
  shows "k div 8 = d \<and> k mod 8 = k - 8 * d"
proof -
  have "k div 8 = d" using assms by (intro div_nat_eqI) simp_all
  then show ?thesis by (simp add: modulo_nat_def mult.commute)
qed

lemma round_up4:
  fixes n :: nat
  shows "n mod 4 = 0 \<Longrightarrow> 4 * ((n + 3) div 4) = n" "n mod 4 \<noteq> 0 \<Longrightarrow> 4 * ((n + 3) div 4) = n + (4 - n mod 4)"
proof -
  define q r where qr: "q = n div 4" "r = n mod 4"
  then have n: "n = 4 * q + r" "r < 4" by simp_all
  have "(n + 3) div 4 = q + (r + 3) div 4" by (simp add: n add.assoc)
  moreover have "r = 0 \<or> r = 1 \<or> r = 2 \<or> r = 3" using n(2) by linarith
  ultimately show "n mod 4 = 0 \<Longrightarrow> 4 * ((n + 3) div 4) = n" "n mod 4 \<noteq> 0 \<Longrightarrow> 4 * ((n + 3) div 4) = n + (4 - n mod 4)"
    unfolding qr(2) [symmetric] using n(1) by auto
qed

lemma round_up4_Suc: "(n :: nat) mod 4 \<noteq> 0 \<Longrightarrow> (n + 4) div 4 = (n + 3) div 4"
  using round_up4(2) [of n] by linarith

lemma byte_masks:
  "(0xff :: 'a::len word) = mask 8" "(0xff00 :: 'a word) = push_bit 8 (mask 8)"
  "(0xff0000 :: 'a word) = push_bit 16 (mask 8)" "(0xff000000 :: 'a word) = push_bit 24 (mask 8)"
  by (simp_all add: mask_numeral push_bit_numeral mask_eq_exp_minus_1 push_bit_eq_mult)

lemma bit_BYTESWAP32:
  fixes w :: "'a::len word"
  assumes "32 \<le> LENGTH('a)"
  shows "bit (DTB_BYTESWAP32 w) k \<longleftrightarrow> k < 32 \<and> bit w (8 * (3 - k div 8) + k mod 8)"
proof -
  consider "k < 8" | "8 \<le> k" "k < 16" | "16 \<le> k" "k < 24" | "24 \<le> k" "k < 32" | "32 \<le> k" by linarith
  then show ?thesis
  proof cases
    case 1
    then show ?thesis using assms
      by (simp add: DTB_BYTESWAP32_def byte_masks bit_simps)
  next
    case 2
    then have "k div 8 = 1" "k mod 8 = k - 8" using byte_div_mod [of 1 k] by simp_all
    then show ?thesis using assms 2
      by (auto simp add: DTB_BYTESWAP32_def byte_masks bit_simps)
  next
    case 3
    then have "k div 8 = 2" "k mod 8 = k - 16" using byte_div_mod [of 2 k] by simp_all
    then show ?thesis using assms 3
      by (auto simp add: DTB_BYTESWAP32_def byte_masks bit_simps)
  next
    case 4
    then have "k div 8 = 3" "k mod 8 = k - 24" using byte_div_mod [of 3 k] by simp_all
    then show ?thesis using assms 4
      by (auto simp add: DTB_BYTESWAP32_def byte_masks bit_simps)
  next
    case 5
    then show ?thesis
      by (auto simp add: DTB_BYTESWAP32_def byte_masks bit_simps)
  qed
qed


lemma bit_le_word:
  "bit (le_word bs :: 'a::len word) k \<longleftrightarrow> k < LENGTH('a) \<and> k div 8 < length bs \<and> bit (bs ! (k div 8)) (k mod 8)"
proof (induction bs arbitrary: k)
  case Nil
  then show ?case by simp
next
  case (Cons b bs)
  show ?case
  proof (cases "k < 8")
    case True
    then show ?thesis by (simp add: bit_simps)
  next
    case False
    then obtain j where j: "k = 8 + j" using le_Suc_ex by fastforce
    then show ?thesis
      using bit_imp_le_length [of b k] by (auto simp: bit_simps Cons.IH div_add_self1)
  qed
qed

lemma BYTESWAP32_read: "DTB_BYTESWAP32 (read32 m a) = le_word (rev (read_bytes m a 4))"
proof (rule bit_word_eqI)
  fix k assume k: "k < LENGTH(32)"
  then have "(8 * (3 - k div 8) + k mod 8) div 8 = 3 - k div 8" "(8 * (3 - k div 8) + k mod 8) mod 8 = k mod 8" "k div 8 < 4"
    by auto
  moreover have "8 * (3 - k div 8) + k mod 8 < 32" by linarith
  ultimately show "bit (DTB_BYTESWAP32 (read32 m a)) k \<longleftrightarrow> bit (le_word (rev (read_bytes m a 4)) :: u32) k"
    using k by (simp add: bit_BYTESWAP32 read32_def bit_le_word rev_nth)
qed

lemma BYTESWAP64_bit: "bit (DTB_BYTESWAP64 w) k \<longleftrightarrow> k < 64 \<and> bit w (8 * (7 - k div 8) + k mod 8)"
proof (cases "k < 32")
  case True
  then have "k div 8 \<le> 3" by simp
  then have "8 * (7 - k div 8) + k mod 8 = 32 + (8 * (3 - k div 8) + k mod 8)" by linarith
  with True show ?thesis by (simp add: DTB_BYTESWAP64_def bit_simps bit_BYTESWAP32 add.assoc)
next
  case False
  then obtain j where j: "k = 32 + j" using le_Suc_ex by (metis not_less)
  then have "k div 8 = 4 + j div 8" "k mod 8 = j mod 8"
    using div_mult_self1 [of 8 j 4] mod_mult_self1 [of j 4 8] by (simp_all add: add.commute)
  with j show ?thesis by (auto simp: DTB_BYTESWAP64_def bit_simps bit_BYTESWAP32)
qed

lemma BYTESWAP64_read: "DTB_BYTESWAP64 (read64 m a) = le_word (rev (read_bytes m a 8))"
proof (rule bit_word_eqI)
  fix k assume k: "k < LENGTH(64)"
  then have "(8 * (7 - k div 8) + k mod 8) div 8 = 7 - k div 8" "(8 * (7 - k div 8) + k mod 8) mod 8 = k mod 8" "k div 8 < 8"
    by auto
  moreover have "8 * (7 - k div 8) + k mod 8 < 64" by linarith
  ultimately show "bit (DTB_BYTESWAP64 (read64 m a)) k \<longleftrightarrow> bit (le_word (rev (read_bytes m a 8)) :: u64) k"
    using k by (simp add: BYTESWAP64_bit read64_def bit_le_word rev_nth)
qed

lemma BYTESWAP32_BYTESWAP32 [simp]: "DTB_BYTESWAP32 (DTB_BYTESWAP32 w) = (w :: u32)"
proof (rule bit_word_eqI)
  fix k assume k: "k < LENGTH(32)"
  then have "(8 * (3 - k div 8) + k mod 8) div 8 = 3 - k div 8" "(8 * (3 - k div 8) + k mod 8) mod 8 = k mod 8" and lt: "k div 8 < 4"
    by auto
  moreover have "8 * (3 - (3 - k div 8)) + k mod 8 = k"
    using lt div_mult_mod_eq [of k 8] by linarith
  moreover have "8 * (3 - k div 8) + k mod 8 < 32" by linarith
  ultimately show "bit (DTB_BYTESWAP32 (DTB_BYTESWAP32 w)) k \<longleftrightarrow> bit w k"
    using k by (simp add: bit_BYTESWAP32)
qed

lemma token_values:
  "DTB_BEGIN_NODE = 0x1000000" "DTB_END_NODE = 0x2000000" "DTB_PROP = 0x3000000" "DTB_NOP = 0x4000000"
  "DTB_END = 0x9000000"
  by (simp_all add: DTB_BEGIN_NODE_def DTB_END_NODE_def DTB_PROP_def DTB_NOP_def DTB_END_def DTB_BYTESWAP32_def)

lemma tokens_distinct [simp]:
  "DTB_BEGIN_NODE \<noteq> DTB_END_NODE" "DTB_BEGIN_NODE \<noteq> DTB_PROP" "DTB_BEGIN_NODE \<noteq> DTB_NOP" "DTB_BEGIN_NODE \<noteq> DTB_END"
  "DTB_END_NODE \<noteq> DTB_PROP" "DTB_END_NODE \<noteq> DTB_NOP" "DTB_END_NODE \<noteq> DTB_END"
  "DTB_PROP \<noteq> DTB_NOP" "DTB_PROP \<noteq> DTB_END" "DTB_NOP \<noteq> DTB_END"
  by (simp_all add: token_values)

lemmas tokens_distinct' [simp] = tokens_distinct [THEN not_sym]

section \<open>The tree that a blob flattens\<close>

text \<open>
  A node has a name and, between its two tokens, properties, empty tokens and nodes.  \<open>flatten\<close> gives its
  words as \<^verbatim>\<open>uint32\<close> reads see them: tokens and lengths big-endian, names with their zero byte and values
  padded to a word.
\<close>

datatype dt_item = DProp u32 "byte list" | DNop | DNode "byte list" "dt_item list"

fun pack :: "byte list \<Rightarrow> u32 list" where
  "pack [] = []"
| "pack (b # bs) = le_word (take 4 (b # bs)) # pack (drop 3 bs)"

fun flatten :: "dt_item \<Rightarrow> u32 list" where
  "flatten (DProp off v) = [DTB_PROP, DTB_BYTESWAP32 (of_nat (length v)), DTB_BYTESWAP32 off] @ pack v"
| "flatten DNop = [DTB_NOP]"
| "flatten (DNode name items) =
     DTB_BEGIN_NODE # pack (name @ [0]) @ concat (map flatten items) @ [DTB_END_NODE]"

fun dt_ok :: "dt_item \<Rightarrow> bool" where
  "dt_ok (DProp off v) \<longleftrightarrow> length v < 2 ^ 32 - 4"
| "dt_ok DNop \<longleftrightarrow> True"
| "dt_ok (DNode name items) \<longleftrightarrow> 0 \<notin> set name \<and> list_all dt_ok items"

fun words_at :: "mem \<Rightarrow> addr \<Rightarrow> u32 list \<Rightarrow> bool" where
  "words_at m a [] \<longleftrightarrow> True"
| "words_at m a (w # ws) \<longleftrightarrow> read32 m a = w \<and> words_at m (a + 4) ws"

lemma words_at_append [simp]:
  "words_at m a (xs @ ys) \<longleftrightarrow> words_at m a xs \<and> words_at m (a + 4 * of_nat (length xs)) ys"
  by (induction xs arbitrary: a) (auto simp: algebra_simps)

lemma length_pack: "length (pack bs) = (length bs + 3) div 4"
proof (induction bs rule: pack.induct)
  case (2 b bs)
  have "Suc ((length bs - 3 + 3) div 4) = (length (b # bs) + 3) div 4"
    by (cases "length bs < 3") (simp_all add: div_if)
  with 2 show ?case by simp
qed simp

text \<open>No word of a name is a token: it begins with a character, or it is the padding.\<close>

lemma name_word:
  assumes "0 \<notin> set name" "w \<in> set (pack (name @ [0]))"
  shows "w \<notin> {DTB_BEGIN_NODE, DTB_END_NODE, DTB_PROP, DTB_NOP, DTB_END}"
  using assms
proof (induction "name @ [0]" arbitrary: name rule: pack.induct)
  case 1
  then show ?case by simp
next
  case (2 b bs)
  have tail: "w \<notin> {DTB_BEGIN_NODE, DTB_END_NODE, DTB_PROP, DTB_NOP, DTB_END}" if "w \<in> set (pack (drop 3 bs))"
  proof (cases "length name < 4")
    case True
    then have "drop 3 bs = []" using 2(2) by (cases name) auto
    with that show ?thesis by simp
  next
    case False
    then have dr: "drop 3 bs = drop 4 name @ [0]"
      using 2(2) by (cases name) simp_all
    have "0 \<notin> set (drop 4 name)" using 2(3) set_drop_subset [of 4 name] by blast
    then show ?thesis using 2(1) [OF dr] that unfolding dr by blast
  qed
  have "ucast (le_word (b # take 3 bs) :: u32) = b"
    by (intro bit_word_eqI) (simp add: bit_simps del: take_Cons')
  moreover have "b = 0 \<Longrightarrow> bs = []" using 2(2,3) by (cases name) auto
  ultimately have "w = 0 \<or> ucast w \<noteq> (0 :: byte)" if "w = le_word (b # take 3 bs)"
    using that by (cases "b = 0") simp_all
  then have "w \<notin> {DTB_BEGIN_NODE, DTB_END_NODE, DTB_PROP, DTB_NOP, DTB_END}" if "w = le_word (b # take 3 bs)"
    using that by (auto simp: token_values)
  moreover have "w = le_word (b # take 3 bs) \<or> w \<in> set (pack (drop 3 bs))"
    using 2(4) unfolding 2(2) [symmetric] by simp
  ultimately show ?case using tail by blast
qed


text \<open>Going over one item brings the first loop of \<^const>\<open>dtb_next_sibling\<close> to the word after it.\<close>

lemma skip_other_words:
  assumes "words_at m a ws" "\<And>w. w \<in> set ws \<Longrightarrow> w \<notin> {DTB_BEGIN_NODE, DTB_END_NODE, DTB_PROP, DTB_NOP, DTB_END}"
  shows "skip_node m a d = skip_node m (a + 4 * of_nat (length ws)) d"
  using assms
proof (induction ws arbitrary: a)
  case Nil
  then show ?case by simp
next
  case (Cons w ws)
  then have "skip_node m a d = skip_node m (a + 4) d"
    by (subst skip_node.simps) auto
  with Cons show ?case by (simp add: algebra_simps)
qed

lemma prop_words:
  assumes "length v < 2 ^ 32 - 4"
  defines "len \<equiv> of_nat (length v) :: u32"
  shows "len mod 4 = 0 \<Longrightarrow> (ucast len div 4 :: u64) = of_nat (length (pack v))"
    "len mod 4 \<noteq> 0 \<Longrightarrow> (ucast (len + (4 - len mod 4)) div 4 :: u64) = of_nat (length (pack v))"
proof -
  have len: "unat len = length v"
    using assms by (simp add: len_def unat_of_nat)
  then have m: "unat (len mod 4) = length v mod 4" by (simp add: unat_mod)
  show "(ucast len div 4 :: u64) = of_nat (length (pack v))" if "len mod 4 = 0"
  proof -
    have "length v mod 4 = 0" using m that by simp
    then have "unat (ucast len div 4 :: u64) = (length v + 3) div 4"
      using len round_up4(1) [of "length v"] by (simp add: unat_div)
    then show ?thesis by (metis length_pack of_nat_unat ucast_id)
  qed
  show "(ucast (len + (4 - len mod 4)) div 4 :: u64) = of_nat (length (pack v))" if "len mod 4 \<noteq> 0"
  proof -
    have pos: "0 < length v mod 4" using m that by (simp add: word_unat_eq_iff)
    have "unat (4 - len mod 4) = 4 - length v mod 4"
      using m by (simp add: unat_sub word_le_nat_alt)
    then have "unat (len + (4 - len mod 4)) = length v + (4 - length v mod 4)"
      using len assms(1) by (simp add: unat_word_ariths)
    moreover have "(length v + (4 - length v mod 4)) div 4 = (length v + 3) div 4"
      using pos round_up4(2) [of "length v"] by simp
    ultimately have "unat (ucast (len + (4 - len mod 4)) div 4 :: u64) = (length v + 3) div 4"
      by (simp add: unat_div)
    then show ?thesis by (metis length_pack of_nat_unat ucast_id)
  qed
qed

lemma skip_prop:
  assumes "words_at m a (flatten (DProp off v))" "dt_ok (DProp off v)"
  shows "skip_node m a d = skip_node m (a + 4 * of_nat (length (flatten (DProp off v)))) d"
proof -
  have "read32 m a = DTB_PROP" "DTB_BYTESWAP32 (read32 m (a + 4)) = of_nat (length v)" using assms(1) by auto
  then show ?thesis
    using prop_words [of v] assms(2)
    by (subst skip_node.simps) (simp add: Let_def algebra_simps)
qed

lemma skip_items:
  assumes "words_at m a (concat (map flatten items))" "0 < d"
    and "\<And>i a. i \<in> set items \<Longrightarrow> words_at m a (flatten i)
      \<Longrightarrow> skip_node m a d = skip_node m (a + 4 * of_nat (length (flatten i))) d"
  shows "skip_node m a d = skip_node m (a + 4 * of_nat (length (concat (map flatten items)))) d"
  using assms
proof (induction items arbitrary: a)
  case Nil
  then show ?case by simp
next
  case (Cons i items)
  have "skip_node m a d = skip_node m (a + 4 * of_nat (length (flatten i))) d"
    using Cons.prems by simp
  also have "\<dots> = skip_node m (a + 4 * of_nat (length (flatten i)) + 4 * of_nat (length (concat (map flatten items)))) d"
    using Cons.prems by (intro Cons.IH) auto
  finally show ?case by (simp add: algebra_simps)
qed

lemma skip_open:
  assumes "words_at m a (DTB_BEGIN_NODE # pack (name @ [0]))" "0 \<notin> set name"
  shows "skip_node m a d = skip_node m (a + 4 + 4 * of_nat (length (pack (name @ [0])))) (d + 1)"
proof -
  obtain w ws where ws: "pack (name @ [0]) = w # ws" by (cases name) auto
  have "skip_node m a d = skip_node m (a + 8) (d + 1)"
    using assms(1) by (subst skip_node.simps) simp
  also have "\<dots> = skip_node m (a + 8 + 4 * of_nat (length ws)) (d + 1)"
    using assms name_word [OF assms(2)] by (intro skip_other_words) (auto simp: ws add.commute)
  finally show ?thesis by (simp add: ws algebra_simps)
qed

lemma skip_close:
  assumes "read32 m a = DTB_END_NODE"
  shows "skip_node m a 1 = Some (a + 4)" "0 < d \<Longrightarrow> skip_node m a (d + 1) = skip_node m (a + 4) d"
  using assms by (subst skip_node.simps; simp)+

lemma skip_item:
  assumes "words_at m a (flatten i)" "dt_ok i"
  shows "0 < d \<Longrightarrow> skip_node m a d = skip_node m (a + 4 * of_nat (length (flatten i))) d"
  using assms
proof (induction i arbitrary: a d)
  case (DProp off v)
  then show ?case by (intro skip_prop)
next
  case DNop
  then show ?case by (subst skip_node.simps) simp
next
  case (DNode name items)
  define b where "b = a + 4 + 4 * of_nat (length (pack (name @ [0])))"
  define c where "c = b + 4 * of_nat (length (concat (map flatten items)))"
  have "skip_node m a d = skip_node m b (d + 1)"
    unfolding b_def using DNode.prems by (intro skip_open) auto
  also have "\<dots> = skip_node m c (d + 1)"
    unfolding c_def
  proof (rule skip_items)
    show "words_at m b (concat (map flatten items))" using DNode.prems by (simp add: b_def)
  qed (use DNode in \<open>auto simp: list_all_iff\<close>)
  also have "\<dots> = skip_node m (c + 4) d"
    using DNode.prems by (intro skip_close) (auto simp: b_def c_def)
  finally show ?case by (simp add: b_def c_def algebra_simps)
qed

lemma skip_node_item:
  assumes "words_at m a (flatten (DNode name items))" "dt_ok (DNode name items)"
  shows "skip_node m a 0 = Some (a + 4 * of_nat (length (flatten (DNode name items))))"
proof -
  define b where "b = a + 4 + 4 * of_nat (length (pack (name @ [0])))"
  define c where "c = b + 4 * of_nat (length (concat (map flatten items)))"
  have "skip_node m a 0 = skip_node m b 1"
    unfolding b_def using assms skip_open [of m a name 0] by simp
  also have "\<dots> = skip_node m c 1"
    unfolding c_def
  proof (rule skip_items)
    show "words_at m b (concat (map flatten items))" using assms by (simp add: b_def)
  qed (use assms skip_item in \<open>auto simp: list_all_iff\<close>)
  also have "\<dots> = Some (c + 4)"
    using assms by (intro skip_close) (auto simp: b_def c_def)
  finally show ?thesis by (simp add: b_def c_def algebra_simps)
qed

lemma seek_nops:
  assumes "words_at m a (replicate k DTB_NOP @ [w])" "w \<in> {DTB_BEGIN_NODE, DTB_END_NODE, DTB_END}"
  shows "seek_node m a = Some (if w = DTB_END_NODE then 0 else a + 4 * of_nat k)"
  using assms
proof (induction k arbitrary: a)
  case 0
  then show ?case by (subst seek_node.simps) auto
next
  case (Suc k)
  then have "seek_node m a = seek_node m (a + 4)"
    by (subst seek_node.simps) simp
  also have "\<dots> = Some (if w = DTB_END_NODE then 0 else a + 4 + 4 * of_nat k)"
    using Suc.prems by (intro Suc.IH) simp_all
  finally show ?case by (simp add: algebra_simps)
qed

section \<open>The items of a node\<close>

text \<open>The addresses of the items that satisfy \<open>P\<close>, when the first item is at \<open>a\<close>, and the first of them, null if there is none.\<close>

fun addrs :: "(dt_item \<Rightarrow> bool) \<Rightarrow> addr \<Rightarrow> dt_item list \<Rightarrow> addr list" where
  "addrs P a [] = []"
| "addrs P a (i # items) = (if P i then [a] else []) @ addrs P (a + 4 * of_nat (length (flatten i))) items"

fun hd0 :: "addr list \<Rightarrow> addr" where
  "hd0 [] = 0"
| "hd0 (x # xs) = x"

fun is_node :: "dt_item \<Rightarrow> bool" where
  "is_node (DNode name items) = True"
| "is_node i = False"

fun is_prop :: "dt_item \<Rightarrow> bool" where
  "is_prop (DProp off v) = True"
| "is_prop i = False"

text \<open>As the format demands, the properties of a node stand before its children.\<close>

fun props_first :: "dt_item list \<Rightarrow> bool" where
  "props_first [] \<longleftrightarrow> True"
| "props_first (i # items) \<longleftrightarrow> (if is_node i then list_all (\<lambda>i. \<not> is_prop i) items else props_first items)"

fun each :: "('i \<Rightarrow> 's \<Rightarrow> 's res option) \<Rightarrow> 'i list \<Rightarrow> 's \<Rightarrow> 's res option" where
  "each body [] s = Some (Inr s)"
| "each body (a # as) s = Option.bind (body a s) (\<lambda>r. case r of Inl e \<Rightarrow> Some (Inl e) | Inr s \<Rightarrow> each body as s)"

definition items_at :: "mem \<Rightarrow> addr \<Rightarrow> dt_item list \<Rightarrow> bool" where
  "items_at m a items \<longleftrightarrow> words_at m a (concat (map flatten items) @ [DTB_END_NODE]) \<and> list_all dt_ok items"

lemma items_at_Cons [simp]:
  "items_at m a (i # items) \<longleftrightarrow>
     words_at m a (flatten i) \<and> dt_ok i \<and> items_at m (a + 4 * of_nat (length (flatten i))) items"
  by (auto simp: items_at_def algebra_simps)

lemma items_at_Nil [simp]: "items_at m a [] \<longleftrightarrow> read32 m a = DTB_END_NODE"
  by (simp add: items_at_def)

lemma next_token_prop:
  assumes "words_at m a (flatten (DProp off v))" "dt_ok (DProp off v)"
  shows "dtb_next_token m a = Some (a + 4 * of_nat (length (flatten (DProp off v))))"
proof -
  have "read32 m a = DTB_PROP" "DTB_BYTESWAP32 (read32 m (a + 4)) = of_nat (length v)" using assms(1) by auto
  then show ?thesis
    using prop_words [of v] assms(2)
    by (simp add: dtb_next_token_def Let_def algebra_simps)
qed

lemma next_token_nop: "read32 m a = DTB_NOP \<Longrightarrow> dtb_next_token m a = Some (a + 4)"
  by (simp add: dtb_next_token_def)

lemma first_child_items:
  "items_at m a items \<Longrightarrow> first_child_loop m a = Some (hd0 (addrs is_node a items))"
proof (induction items arbitrary: a)
  case Nil
  then show ?case by (subst first_child_loop.simps) simp
next
  case (Cons i items)
  show ?case
  proof (cases i)
    case (DProp off v)
    then show ?thesis
      using Cons next_token_prop [of m a off v] by (subst first_child_loop.simps) simp
  next
    case DNop
    then show ?thesis
      using Cons next_token_nop [of m a] by (subst first_child_loop.simps) simp
  next
    case (DNode name items')
    then show ?thesis using Cons.prems by (subst first_child_loop.simps) simp
  qed
qed

lemma addrs_none: "list_all (\<lambda>i. \<not> P i) items \<Longrightarrow> addrs P a items = []"
  by (induction items arbitrary: a) auto

lemma property_items:
  "items_at m a items \<Longrightarrow> props_first items \<Longrightarrow> property_loop m a = Some (hd0 (addrs is_prop a items))"
proof (induction items arbitrary: a)
  case Nil
  then show ?case by (subst property_loop.simps) simp
next
  case (Cons i items)
  show ?case
  proof (cases i)
    case (DProp off v)
    then show ?thesis using Cons.prems by (subst property_loop.simps) simp
  next
    case DNop
    then show ?thesis
      using Cons next_token_nop [of m a] by (subst property_loop.simps) simp
  next
    case (DNode name items')
    then show ?thesis using Cons.prems by (subst property_loop.simps) (simp add: addrs_none)
  qed
qed

lemma seek_items:
  "items_at m a items \<Longrightarrow> list_all (\<lambda>i. \<not> is_prop i) items \<Longrightarrow> seek_node m a = Some (hd0 (addrs is_node a items))"
proof (induction items arbitrary: a)
  case Nil
  then show ?case by (subst seek_node.simps) simp
next
  case (Cons i items)
  show ?case
  proof (cases i)
    case DNop
    then show ?thesis using Cons by (subst seek_node.simps) simp
  next
    case (DNode name items')
    then show ?thesis using Cons.prems by (subst seek_node.simps) simp
  qed (use Cons.prems in simp)
qed

lemma props_first_nodes: "list_all (\<lambda>i. \<not> is_prop i) items \<Longrightarrow> props_first items"
  by (induction items) auto

lemma children_items:
  "items_at m a items \<Longrightarrow> props_first items \<Longrightarrow> 0 \<notin> set (addrs is_node a items) \<Longrightarrow>
   children_from m body (hd0 (addrs is_node a items)) s = each body (addrs is_node a items) s"
proof (induction items arbitrary: a s)
  case Nil
  then show ?case by (subst children_from.simps) simp
next
  case (Cons i items)
  show ?case
  proof (cases "is_node i")
    case False
    then show ?thesis using Cons by simp
  next
    case True
    let ?b = "a + 4 * of_nat (length (flatten i))"
    have "dtb_next_sibling m a = Some (hd0 (addrs is_node ?b items))"
      using True Cons.prems seek_items [of m ?b items] skip_node_item [of m a]
      by (cases i) (auto simp: dtb_next_sibling_def simp del: flatten.simps)
    moreover have "children_from m body (hd0 (addrs is_node ?b items)) s' = each body (addrs is_node ?b items) s'" for s'
      using True Cons.prems by (intro Cons.IH) (simp_all add: props_first_nodes)
    ultimately show ?thesis
      using True Cons.prems by (subst children_from.simps) (simp cong: sum.case_cong)
  qed
qed

lemma properties_items:
  "items_at m a items \<Longrightarrow> props_first items \<Longrightarrow> 0 \<notin> set (addrs is_prop a items) \<Longrightarrow>
   properties_from m body (hd0 (addrs is_prop a items)) s = each body (addrs is_prop a items) s"
proof (induction items arbitrary: a s)
  case Nil
  then show ?case by (subst properties_from.simps) simp
next
  case (Cons i items)
  show ?case
  proof (cases i)
    case DNop
    then show ?thesis using Cons by simp
  next
    case (DNode name items')
    then show ?thesis using Cons.prems by (subst properties_from.simps) (simp add: addrs_none)
  next
    case (DProp off v)
    let ?b = "a + 4 * of_nat (length (flatten i))"
    have "dtb_next_property m a = Some (hd0 (addrs is_prop ?b items))"
      using DProp Cons.prems property_items [of m ?b items] next_token_prop [of m a off v]
      by (simp add: dtb_next_property_def del: flatten.simps)
    moreover have "properties_from m body (hd0 (addrs is_prop ?b items)) s' = each body (addrs is_prop ?b items) s'" for s'
      using DProp Cons.prems by (intro Cons.IH) simp_all
    ultimately show ?thesis
      using DProp Cons.prems by (subst properties_from.simps) (simp cong: sum.case_cong)
  qed
qed

section \<open>The end of a name\<close>

lemma nth_le_bytes: "i < n \<Longrightarrow> le_bytes n w ! i = ucast (drop_bit (8 * i) w)"
  by (induction n w arbitrary: i rule: le_bytes.induct) (auto simp: nth_Cons add.commute split: nat.split)

lemma read32_byte: "i < 4 \<Longrightarrow> m (a + of_nat i) = ucast (drop_bit (8 * i) (read32 m a))"
proof -
  assume i: "i < 4"
  have "le_bytes 4 (read32 m a) = read_bytes m a 4"
    using le_bytes_le_word [of "read_bytes m a 4", where ?'a = 32] by (simp add: read32_def)
  then show ?thesis using i nth_le_bytes [of i 4 "read32 m a"] by simp
qed

lemma le_word_byte:
  assumes "i < length bs" "length bs \<le> 4"
  shows "ucast (drop_bit (8 * i) (le_word bs :: u32)) = bs ! i"
proof (rule bit_word_eqI)
  fix k assume k: "k < LENGTH(8)"
  then have "(8 * i + k) div 8 = i" "(8 * i + k) mod 8 = k" by auto
  with k assms show "bit (ucast (drop_bit (8 * i) (le_word bs :: u32)) :: byte) k \<longleftrightarrow> bit (bs ! i) k"
    by (simp add: bit_simps bit_le_word)
qed

lemma pack_bytes:
  "words_at m a (pack bs) \<Longrightarrow> i < length bs \<Longrightarrow> m (a + of_nat i) = bs ! i"
proof (induction bs arbitrary: a i rule: pack.induct)
  case 1
  then show ?case by simp
next
  case (2 b bs)
  show ?case
  proof (cases "i < 4")
    case True
    then have "m (a + of_nat i) = take 4 (b # bs) ! i"
      using 2(2,3) le_word_byte [of i "take 4 (b # bs)"] by (simp add: read32_byte)
    with True show ?thesis by (metis nth_take)
  next
    case False
    then obtain j where j: "i = 4 + j" using le_Suc_ex by (metis not_less)
    then have "m (a + 4 + of_nat j) = drop 3 bs ! j" using 2 by (intro 2(1)) simp_all
    moreover have "3 \<le> length bs" using 2(3) j by simp
    ultimately show ?thesis using j by (simp add: algebra_simps)
  qed
qed

lemma skip_chars_to:
  assumes "\<And>i. i < n \<Longrightarrow> m (a + of_nat i) \<noteq> 0" "m (a + of_nat n) = 0"
  shows "skip_chars m a = Some (a + of_nat n)"
  using assms
proof (induction n arbitrary: a)
  case 0
  then show ?case by (subst skip_chars.simps) simp
next
  case (Suc n)
  have "m (a + 1 + of_nat i) \<noteq> 0" if "i < n" for i
    using Suc.prems(1) [of "Suc i"] that by (simp add: algebra_simps)
  then have "skip_chars m (a + 1) = Some (a + 1 + of_nat n)"
    using Suc.prems(2) by (intro Suc.IH) (simp_all add: algebra_simps)
  then show ?case using Suc.prems(1) [of 0] by (subst skip_chars.simps) (simp add: algebra_simps)
qed

lemma aligned_mod4:
  fixes a :: addr
  assumes "a mod 4 = 0" "n < 2 ^ 64"
  shows "unat ((a + of_nat n) mod 4) = n mod 4"
proof -
  have "unat (a mod 4) = 0" using assms(1) by simp
  then have "unat a mod 4 = 0" by (simp add: unat_mod)
  moreover have "unat (a + of_nat n) = (unat a + n) mod 2 ^ 64"
    using assms(2) by (simp add: unat_word_ariths unat_of_nat)
  moreover have "(unat a + n) mod 2 ^ 64 mod 4 = (unat a + n) mod 4"
    by (rule mod_mod_cancel) (simp add: dvd_def)
  ultimately show ?thesis by (simp only: unat_mod) (simp add: mod_add_eq [of "unat a", symmetric])
qed

lemma pack_name_end:
  assumes "length name mod 4 = 0"
  shows "pack (name @ [0]) = pack name @ [0]"
  using assms
proof (induction name rule: pack.induct)
  case 1
  then show ?case by simp
next
  case (2 b bs)
  then obtain c d e cs where "bs = c # d # e # cs"
    by (cases bs; cases "tl bs"; cases "tl (tl bs)") auto
  with 2 show ?case by simp
qed

lemma next_token_begin:
  assumes w: "words_at m a (DTB_BEGIN_NODE # pack (name @ [0]) @ [w])" and "w \<noteq> 0" and nul: "0 \<notin> set name"
    and al: "a mod 4 = 0" and len: "length name < 2 ^ 32"
  shows "dtb_next_token m a = Some (a + 4 + 4 * of_nat (length (pack (name @ [0]))))"
proof -
  let ?n = "length name"
  have bytes: "m (a + 4 + of_nat i) = (name @ [0]) ! i" if "i \<le> ?n" for i
    using w that pack_bytes [of m "a + 4" "name @ [0]" i] by simp
  have chars: "skip_chars m (a + 4) = Some (a + 4 + of_nat ?n)"
    using nul bytes by (intro skip_chars_to) (auto simp: nth_append in_set_conv_nth)
  have al4: "(a + 4) mod 4 = 0" using aligned_mod4 [OF al, of 4] by (simp add: word_unat_eq_iff)
  have r: "unat ((a + 4 + of_nat ?n) mod 4) = ?n mod 4" using len by (intro aligned_mod4 [OF al4]) simp
  define e where "e = a + 4 + 4 * of_nat (length (pack (name @ [0])))"
  have e: "read32 m e \<noteq> 0" using w \<open>w \<noteq> 0\<close> by (simp add: e_def)
  show ?thesis
  proof (cases "?n mod 4 = 0")
    case True
    then have "(a + 4 + of_nat ?n) mod 4 = 0" using r by (simp add: word_unat_eq_iff)
    moreover have "a + 4 + of_nat ?n + 4 = e"
    proof -
      have "?n + 4 = 4 * length (pack (name @ [0]))" using True by (simp add: length_pack dvd_eq_mod_eq_0 [symmetric])
      then show ?thesis unfolding e_def by (metis (no_types, lifting) add.assoc of_nat_add of_nat_mult of_nat_numeral)
    qed
    moreover have "read32 m (a + 4 + of_nat ?n) = 0"
    proof -
      have "4 * length (pack name) = ?n" using round_up4(1) [OF True] by (simp add: length_pack)
      then have "of_nat ?n = (4 * of_nat (length (pack name)) :: addr)" by (metis of_nat_mult of_nat_numeral)
      then show ?thesis using w pack_name_end [OF True] by simp
    qed
    ultimately show ?thesis
      using w chars e skip_zero_words.simps [of m "a + 4 + of_nat ?n"] skip_zero_words.simps [of m e]
      by (simp add: dtb_next_token_def e_def [symmetric])
  next
    case False
    then have "(a + 4 + of_nat ?n) mod 4 \<noteq> 0" using r by (simp add: word_unat_eq_iff)
    moreover have "a + 4 + of_nat ?n + (4 - (a + 4 + of_nat ?n) mod 4) = e"
    proof -
      have q: "(a + 4 + of_nat ?n) mod 4 = of_nat (?n mod 4)" using r by (metis of_nat_unat ucast_id)
      have "?n + (4 - ?n mod 4) = 4 * length (pack (name @ [0]))" 
        using round_up4(2) [of ?n] round_up4_Suc [of ?n] False by (simp add: length_pack add.commute)
      from arg_cong [OF this, of "of_nat :: nat \<Rightarrow> addr"]
      have "of_nat ?n + (4 - of_nat (?n mod 4)) = (4 * of_nat (length (pack (name @ [0]))) :: addr)"
        by (simp add: of_nat_diff add_diff_eq)
      then show ?thesis unfolding e_def q by (simp add: algebra_simps)
    qed
    ultimately show ?thesis
      using w chars e skip_zero_words.simps [of m e]
      by (simp add: dtb_next_token_def e_def [symmetric])
  qed
qed

lemma addrs_range:
  "x \<in> set (addrs P a items) \<Longrightarrow>
     \<exists>k < length (concat (map flatten items)). x = a + 4 * of_nat k"
proof (induction items arbitrary: a)
  case (Cons i items)
  have pos: "0 < length (flatten i)" by (cases i) auto
  consider "x = a" | "x \<in> set (addrs P (a + 4 * of_nat (length (flatten i))) items)"
    using Cons.prems by (auto split: if_splits)
  then show ?case
  proof cases
    case 1
    with pos show ?thesis by (intro exI [of _ 0]) simp
  next
    case 2
    from Cons.IH [OF this] obtain k where "k < length (concat (map flatten items))"
      "x = a + 4 * of_nat (length (flatten i)) + 4 * of_nat k" by blast
    then show ?thesis by (intro exI [of _ "length (flatten i) + k"]) (simp add: algebra_simps)
  qed
qed simp

lemma add_not_null:
  fixes a :: addr
  assumes "unat a + n < 2 ^ 64" "0 < n"
  shows "a + of_nat n \<noteq> 0"
proof -
  have "unat (a + of_nat n) = unat a + n" using assms(1) by (simp add: unat_word_ariths unat_of_nat)
  then show ?thesis using assms(2) by auto
qed

definition node_at :: "mem \<Rightarrow> addr \<Rightarrow> byte list \<Rightarrow> dt_item list \<Rightarrow> bool" where
  "node_at m a name items \<longleftrightarrow> words_at m a (flatten (DNode name items)) \<and> dt_ok (DNode name items)
     \<and> a mod 4 = 0 \<and> length name < 2 ^ 32 \<and> unat a + 4 * length (flatten (DNode name items)) \<le> 2 ^ 64"

definition items_of :: "addr \<Rightarrow> byte list \<Rightarrow> addr" where
  "items_of a name = a + 4 + 4 * of_nat (length (pack (name @ [0])))"

lemma node_at_items:
  assumes "node_at m a name items"
  shows "items_at m (items_of a name) items" "dtb_next_token m a = Some (items_of a name)"
    "0 \<notin> set (addrs P (items_of a name) items)"
proof -
  let ?c = "concat (map flatten items)" and ?p = "pack (name @ [0])"
  show it: "items_at m (items_of a name) items"
    using assms by (simp add: node_at_def items_at_def items_of_def algebra_simps)
  have first: "\<exists>w. w \<noteq> 0 \<and> words_at m (items_of a name) [w]"
    using it by (cases items rule: list.exhaust; cases "hd items") (auto simp: token_values)
  then show "dtb_next_token m a = Some (items_of a name)"
    unfolding items_of_def using assms next_token_begin [of m a name]
    by (auto simp: node_at_def items_of_def)
  show "0 \<notin> set (addrs P (items_of a name) items)"
  proof
    assume "0 \<in> set (addrs P (items_of a name) items)"
    from addrs_range [OF this] obtain k where k: "k < length ?c" "0 = items_of a name + 4 * of_nat k" by blast
    then have "0 = a + of_nat (4 + 4 * length ?p + 4 * k)" by (simp add: items_of_def algebra_simps)
    moreover have "unat a + (4 + 4 * length ?p + 4 * k) < 2 ^ 64"
      using assms k(1) by (simp add: node_at_def)
    ultimately show False using add_not_null [of a "4 + 4 * length ?p + 4 * k"] by simp
  qed
qed

section \<open>A blob\<close>

text \<open>A small tree, and the memory that holds words from an address on, for the examples.\<close>

definition demo_items :: "dt_item list" where
  "demo_items = [DProp 0 [1, 2, 3, 4, 5], DNode [0x63] [], DNop, DNode [0x64] [DProp 4 []]]"

definition mem_of_words :: "addr \<Rightarrow> u32 list \<Rightarrow> mem" where
  "mem_of_words a ws = write_bytes (\<lambda>_. 0) a (concat (map (le_bytes 4) ws))"

lemma read_bytes_add: "read_bytes m a (n + k) = read_bytes m a n @ read_bytes m (a + of_nat n) k"
  by (rule nth_equalityI) (auto simp: nth_append algebra_simps of_nat_diff)

lemma words_at_read:
  "read_bytes m a (4 * length ws) = concat (map (le_bytes 4) ws) \<Longrightarrow> words_at m a ws"
proof (induction ws arbitrary: a)
  case (Cons w ws)
  have "read_bytes m a 4 @ read_bytes m (a + 4) (4 * length ws) = le_bytes 4 w @ concat (map (le_bytes 4) ws)"
    using Cons.prems read_bytes_add [of m a 4 "4 * length ws"] by simp
  then have "read_bytes m a 4 = le_bytes 4 w" "read_bytes m (a + 4) (4 * length ws) = concat (map (le_bytes 4) ws)"
    by (simp_all add: append_eq_append_conv)
  then show ?case using Cons.IH by (simp add: read32_def le_word_le_bytes)
qed simp

lemma words_at_mem_of_words:
  assumes "4 * length ws \<le> 2 ^ 64"
  shows "words_at (mem_of_words a ws) a ws"
proof (rule words_at_read)
  have "length (concat (map (le_bytes 4) ws)) = 4 * length ws"
    by (induction ws) auto
  then show "read_bytes (mem_of_words a ws) a (4 * length ws) = concat (map (le_bytes 4) ws)"
    using assms read_write_bytes [of "concat (map (le_bytes 4) ws)" "\<lambda>_. 0" a] by (simp add: mem_of_words_def)
qed

lemma demo_flatten: "length (flatten (DNode [0x61, 0x62] demo_items)) = 18"
  by (simp add: demo_items_def length_pack)

lemma foreach_child_each:
  assumes "node_at m node name items" "props_first items"
  shows "dtb_foreach_child m node body s = each body (addrs is_node (items_of node name) items) s"
  using assms node_at_items [OF assms(1)]
  by (simp add: dtb_foreach_child_def dtb_first_child_def first_child_items children_items)

lemma foreach_property_each:
  assumes "node_at m node name items" "props_first items"
  shows "dtb_foreach_property m node body s = each body (addrs is_prop (items_of node name) items) s"
  using assms node_at_items [OF assms(1)]
  by (simp add: dtb_foreach_property_def dtb_first_property_def property_items properties_items)

text \<open>C31: On a well-formed node the loops \<open>dtb_foreach_child\<close> and \<open>dtb_foreach_property\<close> end, and they run
  their body on the children (the properties) of the node, on each one once, in the order of the
  blob and on nothing else.\<close>

theorem dtb_foreach_items:
  assumes "node_at m node name items" "props_first items"
  shows "dtb_foreach_child m node body s = each body (addrs is_node (items_of node name) items) s
    \<and> dtb_foreach_property m node body s = each body (addrs is_prop (items_of node name) items) s"
  by (intro conjI foreach_child_each foreach_property_each assms)

theorem dtb_foreach_items_witness:
  "dtb_foreach_child (mem_of_words 0x1000 (flatten (DNode [0x61, 0x62] demo_items))) 0x1000
     (\<lambda>a s. Some (Inr (s @ [a]))) [] = Some (Inr [0x101c, 0x102c])"
proof -
  let ?m = "mem_of_words 0x1000 (flatten (DNode [0x61, 0x62] demo_items))"
  have "node_at ?m 0x1000 [0x61, 0x62] demo_items" "props_first demo_items"
    using words_at_mem_of_words [of "flatten (DNode [0x61, 0x62] demo_items)" "0x1000"] demo_flatten
    by (simp_all add: node_at_def demo_items_def del: flatten.simps)
  from dtb_foreach_items [OF this, of "\<lambda>a s. Some (Inr (s @ [a]))" "[]"] show ?thesis
    by (simp add: demo_items_def items_of_def length_pack)
qed

text \<open>C32: Termination and effect of \<open>dtb_next_sibling\<close> on a well-formed tree: from the first token of a node of any depth
  and with any content, the walk ends.  It passes the whole subtree and the empty tokens behind it, and returns the
  node that comes next; if the parent ends there it returns the null pointer, and at the end of the
  structure block the address of the end token, which is not null.\<close>

theorem dtb_next_sibling_ends:
  assumes "dt_ok (DNode name items)"
    and "words_at m node (flatten (DNode name items) @ replicate k DTB_NOP @ [w])"
    and "w \<in> {DTB_BEGIN_NODE, DTB_END_NODE, DTB_END}"
  shows "dtb_next_sibling m node = Some (if w = DTB_END_NODE then 0
    else node + 4 * of_nat (length (flatten (DNode name items)) + k))"
proof -
  let ?b = "node + 4 * of_nat (length (flatten (DNode name items)))"
  have "skip_node m node 0 = Some ?b"
    using assms(1,2) by (intro skip_node_item) (simp_all del: flatten.simps)
  moreover have "seek_node m ?b = Some (if w = DTB_END_NODE then 0 else ?b + 4 * of_nat k)"
    using assms(2,3) by (intro seek_nops) (simp_all del: flatten.simps)
  ultimately show ?thesis
    by (simp add: dtb_next_sibling_def algebra_simps del: flatten.simps)
qed

theorem dtb_next_sibling_ends_witness:
  "dtb_next_sibling (mem_of_words 0x1000 (flatten (DNode [0x61, 0x62] demo_items) @ [DTB_NOP, DTB_BEGIN_NODE])) 0x1000
     = Some 0x104c"
proof -
  let ?ws = "flatten (DNode [0x61, 0x62] demo_items) @ replicate 1 DTB_NOP @ [DTB_BEGIN_NODE]"
  have "words_at (mem_of_words 0x1000 ?ws) 0x1000 ?ws"
    using demo_flatten by (intro words_at_mem_of_words) (simp del: flatten.simps)
  then have "dtb_next_sibling (mem_of_words 0x1000 ?ws) 0x1000
      = Some (0x1000 + 4 * of_nat (length (flatten (DNode [0x61, 0x62] demo_items)) + 1))"
    using dtb_next_sibling_ends [of "[0x61, 0x62]" demo_items "mem_of_words 0x1000 ?ws" "0x1000" 1 DTB_BEGIN_NODE]
    by (simp add: demo_items_def)
  then show ?thesis using demo_flatten by (simp del: flatten.simps)
qed

end
