(* ===== verification/Boot.thy ===== *)
theory Boot
  imports Trap Dtb
begin

text \<open>
  Booting, \<^verbatim>\<open>kernel/main.c\<close>: the device tree tells where the devices and the memory are (\<open>dtbparse\<close>), the first
  hart initialises every subsystem and starts the other harts (\<open>kmain\<close>), and each of those prepares
  itself (\<open>kmain_secondary\<close>).  The value \<open>None\<close> is a walk over the tree or over the memory that does not end.
  Both routines end with the call of \<^verbatim>\<open>scheduler\<close>, which never returns; here they return the state with
  which it is entered.
\<close>

unbundle bit_operations_syntax

section \<open>State\<close>

text \<open>
  The two static variables of \<^verbatim>\<open>main.c\<close>, and what the code takes from outside: the registers of a virtio
  device by its base address, the address of \<^verbatim>\<open>_entry\<close> and that of the string literals.
\<close>

record boot_state = trap_state +
  ram_start :: u64
  ram_size :: u64
  mmio :: "u64 \<Rightarrow> regs"
  entry_at :: u64
  literal_at :: "string \<Rightarrow> u64"

definition obnd :: "'a res option \<Rightarrow> ('a \<Rightarrow> 'b res option) \<Rightarrow> 'b res option" where
  "obnd r f = Option.bind r (\<lambda>r. case r of Inl e \<Rightarrow> Some (Inl e) | Inr x \<Rightarrow> f x)"

lemma obnd_simps [simp]: "obnd None f = None" "obnd (Some (Inl e)) f = Some (Inl e)" "obnd (Some (Inr x)) f = f x"
  by (simp_all add: obnd_def)

section \<open>The device tree\<close>

text \<open>\<^verbatim>\<open>strncmp\<close> of a literal with a string in memory is zero.\<close>

definition is_str :: "string \<Rightarrow> nat \<Rightarrow> mem \<Rightarrow> addr \<Rightarrow> bool" where
  "is_str l n m a \<longleftrightarrow> name_strncmp (bytes_of l) (read_bytes m a n) n = 0"

definition chosen_prop :: "mem \<Rightarrow> addr \<Rightarrow> addr \<Rightarrow> addr \<Rightarrow> addr res option" where
  "chosen_prop m devicetree prop stdout_node =
     (if is_str ''stdout-path'' 12 m (dtb_property_name m devicetree prop)
      then dtb_find m devicetree (chars_at m (dtb_property_string prop))
      else Some (Inr stdout_node))"

definition stdout_prop :: "addr \<Rightarrow> addr \<Rightarrow> 'a boot_state_scheme \<Rightarrow> 'a boot_state_scheme res option" where
  "stdout_prop devicetree prop s =
     (let propname = dtb_property_name (pmem s) devicetree prop in
      if is_str ''compatible'' 11 (pmem s) propname then
        if \<not> is_str ''ns16550a'' 9 (pmem s) (dtb_property_string prop) then Some (Inl Diverge)
        else Some (Inr s)
      else if is_str ''reg'' 4 (pmem s) propname then
        Some (Inr (s\<lparr>uart0 := DTB_BYTESWAP64 (read64 (pmem s) (dtb_property_array prop))\<rparr>))
      else if is_str ''interrupts'' 11 (pmem s) propname then
        Some (Inr (s\<lparr>uart0_irq := ucast (dtb_property_uint32 (pmem s) prop)\<rparr>))
      else Some (Inr s))"

definition memory_prop :: "addr \<Rightarrow> addr \<Rightarrow> 'a boot_state_scheme \<Rightarrow> 'a boot_state_scheme res option" where
  "memory_prop devicetree prop s =
     (let propname = dtb_property_name (pmem s) devicetree prop in
      if is_str ''#address-cells'' 15 (pmem s) propname then Some (Inr s)
      else if is_str ''#size-cells'' 12 (pmem s) propname then Some (Inr s)
      else if is_str ''reg'' 4 (pmem s) propname then
        Some (Inr (s\<lparr>ram_start := DTB_BYTESWAP64 (read64 (pmem s) (dtb_property_array prop)),
          ram_size := DTB_BYTESWAP64 (read64 (pmem s) (dtb_property_array prop + 8))\<rparr>))
      else Some (Inr s))"

text \<open>A child of \<^verbatim>\<open>/soc\<close>: what its properties say, and what is done with it.\<close>

record soc_dev =
  sd_compatible :: addr
  sd_reg :: u64
  sd_irq :: u64

definition soc_prop :: "mem \<Rightarrow> addr \<Rightarrow> addr \<Rightarrow> soc_dev \<Rightarrow> soc_dev res option" where
  "soc_prop m devicetree prop d =
     (let propname = dtb_property_name m devicetree prop in
      if is_str ''compatible'' 11 m propname then Some (Inr (d\<lparr>sd_compatible := dtb_property_string prop\<rparr>))
      else if is_str ''reg'' 4 m propname then Some (Inr (d\<lparr>sd_reg := dtb_property_uint64 m prop\<rparr>))
      else if is_str ''interrupts'' 11 m propname then
        Some (Inr (d\<lparr>sd_irq := ucast (dtb_property_uint32 m prop)\<rparr>))
      else Some (Inr d))"

definition soc_use :: "soc_dev \<Rightarrow> bool \<times> 'a boot_state_scheme \<Rightarrow> (bool \<times> 'a boot_state_scheme) res option" where
  "soc_use d = (\<lambda>(found_virtio_disk, s).
     if sd_compatible d = 0 then Some (Inl Undefined)
     else if is_str ''sifive,plic-1.0.0'' 18 (pmem s) (sd_compatible d) then
       Some (Inr (found_virtio_disk, s\<lparr>plic := sd_reg d\<rparr>))
     else if is_str ''sifive,clint0'' 14 (pmem s) (sd_compatible d) then
       Some (Inr (found_virtio_disk, s\<lparr>clint := sd_reg d\<rparr>))
     else if is_str ''virtio,mmio'' 12 (pmem s) (sd_compatible d) then
       let s = s\<lparr>virtio0 := sd_reg d, virtio_rd := mmio s (sd_reg d), virtio0_irq := sd_irq d\<rparr> in
       Some (Inr (if \<not> found_virtio_disk \<and> virtio_disk_probe (virtio_rd s) s = 0 then True else found_virtio_disk, s))
     else Some (Inr (found_virtio_disk, s)))"

definition soc_child :: "addr \<Rightarrow> addr \<Rightarrow> bool \<times> 'a boot_state_scheme \<Rightarrow> (bool \<times> 'a boot_state_scheme) res option" where
  "soc_child devicetree dev_node fs =
     obnd (dtb_foreach_property (pmem (snd fs)) dev_node (soc_prop (pmem (snd fs)) devicetree)
        \<lparr>sd_compatible = 0, sd_reg = 0, sd_irq = 0\<rparr>)
       (\<lambda>d. soc_use d fs)"

definition dtbparse :: "addr \<Rightarrow> 'a boot_state_scheme \<Rightarrow> 'a boot_state_scheme res option" where
  "dtbparse fdt s =
     (let devicetree = dtb_fromptr (pmem s) fdt in
      if devicetree = 0 then Some (panic ''dtbparse'')
      else obnd (dtb_find (pmem s) devicetree (lit (bytes_of ''/chosen''))) (\<lambda>chosen_node.
        if chosen_node = 0 then Some (Inl Diverge)
        else obnd (dtb_foreach_property (pmem s) chosen_node (chosen_prop (pmem s) devicetree) 0) (\<lambda>stdout_node.
          if stdout_node = 0 then Some (Inl Diverge)
          else obnd (dtb_foreach_property (pmem s) stdout_node (stdout_prop devicetree) s) (\<lambda>s.
            obnd (dtb_find (pmem s) devicetree (lit (bytes_of ''/memory''))) (\<lambda>memory_node.
              if memory_node = 0 then Some (Inl Undefined)
              else obnd (dtb_foreach_property (pmem s) memory_node (memory_prop devicetree) s) (\<lambda>s.
                obnd (dtb_find (pmem s) devicetree (lit (bytes_of ''/soc''))) (\<lambda>soc_node.
                  if soc_node = 0 then Some (Inl Undefined)
                  else obnd (dtb_foreach_child (pmem s) soc_node (soc_child devicetree) (False, s))
                    (\<lambda>(found_virtio_disk, s).
                      if \<not> found_virtio_disk then Some (panic ''virtio disk not found'')
                      else Some (Inr s)))))))))"

section \<open>The harts\<close>

definition NCPU :: nat where "NCPU = 8"

text \<open>Messages begin with the number of the hart.\<close>

definition kmsg :: "string \<Rightarrow> 'a boot_state_scheme \<Rightarrow> 'a boot_state_scheme res" where
  "kmsg msg s = bnd (printf (bytes_of (''kernel(%d): '' @ msg) @ [10]) [PNum (cpuid s)] s) (\<lambda>(_, s). Inr s)"

fun start_harts :: "u64 list \<Rightarrow> 'a boot_state_scheme \<Rightarrow> 'a boot_state_scheme res" where
  "start_harts [] s = Inr s"
| "start_harts (i # is) s =
     (if i = cpuid s then start_harts is s
      else let (res, s) = sbi_hart_start i (entry_at s) 0 s in
        if sr_error res = sbierr_code SBI_ERR_INVALID_PARAM then Inr s
        else if sr_error res \<noteq> sbierr_code SBI_SUCCESS then
          bnd (printf (bytes_of ''kernel(%d): could not start hart %d, with code %d'' @ [10])
              [PNum (cpuid s), PNum i, PNum (word_of_int (sr_error res))] s) (\<lambda>(_, s). start_harts is s)
        else start_harts is s)"

text \<open>What every hart does last: user landing pads and shadow stacks on, and the timer.\<close>

definition enable_user_cfi :: "'a boot_state_scheme \<Rightarrow> 'a boot_state_scheme res" where
  "enable_user_cfi s =
     (let s = s\<lparr>senvcfg := senvcfg s OR push_bit 2 1\<rparr> in
      bnd (kmsg ''enabled landing pads for user mode'' s) (\<lambda>s.
        let s = s\<lparr>senvcfg := senvcfg s OR push_bit 3 1\<rparr>;
            (_, s) = sbi_fwft_set SBI_FEAT_SHADOW_STACK 1 0 s in
        bnd (kmsg ''enabled shadow stack for user mode'' s) (\<lambda>s. Inr (sbi_set_timer (rtime s + 1000000) s))))"

definition kmain_memory :: "'a boot_state_scheme \<Rightarrow> 'a boot_state_scheme res option" where
  "kmain_memory s =
     (let s = consoleinit (printfinit s) in
      obnd (Some (kmsg ''console initialized'' s)) (\<lambda>s.
      obnd (kinit (ram_start s) (ram_size s) s) (\<lambda>s.
      Some (bnd (kmsg ''physical page allocator initialized'' s) (\<lambda>s.
        bnd (kvminit s) (\<lambda>s.
        bnd (kmsg ''kernel page table initialized '' s) (\<lambda>s.
        kmsg ''virtual memory initialized'' (kvminithart s))))))))"

definition kmain_subsystems :: "'a boot_state_scheme \<Rightarrow> 'a boot_state_scheme res" where
  "kmain_subsystems s =
     bnd (kmsg ''process table initialized'' (procinit s)) (\<lambda>s.
     bnd (kmsg ''traps initialized'' (trapinithart (trapinit s))) (\<lambda>s.
     bnd (kmsg ''global interrupt controller initialized'' (plicinit s)) (\<lambda>s.
     bnd (kmsg ''local interrupt controller initialized'' (plicinithart s)) (\<lambda>s.
     bnd (kmsg ''buffer cache initialized'' (binit s)) (\<lambda>s.
     bnd (kmsg ''inode table initialized'' (iinit s)) (\<lambda>s.
     bnd (kmsg ''file table initialized'' (fileinit s)) (\<lambda>s.
     bnd (virtio_disk_init (virtio_rd s) s) (\<lambda>s.
     bnd (kmsg ''virtio disk driver initialized'' s) (\<lambda>s.
     bnd (userinit s) (\<lambda>s.
     kmsg ''first program initialized'' s))))))))))"

definition kmain_harts :: "'a boot_state_scheme \<Rightarrow> 'a boot_state_scheme res" where
  "kmain_harts s =
     (let (r, s) = sbi_probe_extension SBI_EXTENSION_HSM s in
      if r \<noteq> 0 then
        bnd (kmsg ''HSM extension available, starting other cores'' s) (\<lambda>s.
          start_harts (map of_nat [0..<NCPU]) s)
      else kmsg ''HSM extension not available, only single core used'' s)"

definition kmain :: "addr \<Rightarrow> 'a boot_state_scheme \<Rightarrow> 'a boot_state_scheme res option" where
  "kmain fdt s =
     (let (_, s) = sbi_debug_console_write 23 (literal_at s ([CHR 0x0A] @ ''zeptOS kernel booting'' @ [CHR 0x0A])) s in
      obnd (dtbparse fdt s) (\<lambda>s.
      obnd (kmain_memory s) (\<lambda>s.
      Some (bnd (kmain_subsystems s) (\<lambda>s. bnd (kmain_harts s) enable_user_cfi)))))"

definition kmain_secondary :: "'a boot_state_scheme \<Rightarrow> 'a boot_state_scheme res" where
  "kmain_secondary s =
     bnd (kmsg ''starting auxiliary harts'' s) (\<lambda>s.
     bnd (kmsg ''virtual memory initialized'' (kvminithart s)) (\<lambda>s.
     bnd (kmsg ''traps initialized'' (trapinithart s)) (\<lambda>s.
     bnd (kmsg ''local interrupt controller initialized'' (plicinithart s)) enable_user_cfi)))"


section \<open>Which virtio device is used\<close>

definition virtio_dev :: "mem \<Rightarrow> soc_dev \<Rightarrow> bool" where
  "virtio_dev m d \<longleftrightarrow> sd_compatible d \<noteq> 0 \<and> is_str ''virtio,mmio'' 12 m (sd_compatible d)"

lemma is_str_hd: "is_str (c # l) (Suc n) m a \<Longrightarrow> of_char c \<noteq> (0 :: byte) \<Longrightarrow> m a = of_char c"
  by (auto simp: is_str_def bytes_of_def read_bytes_Suc word_uint_eq_iff split: if_splits)

lemma virtio_dev_other:
  assumes "virtio_dev m d"
  shows "\<not> is_str ''sifive,plic-1.0.0'' 18 m (sd_compatible d)" "\<not> is_str ''sifive,clint0'' 14 m (sd_compatible d)"
proof -
  have "m (sd_compatible d) = of_char (CHR ''v'')"
    using assms is_str_hd [of "CHR ''v''" "''irtio,mmio''" 11 m] by (simp add: virtio_dev_def)
  then show "\<not> is_str ''sifive,plic-1.0.0'' 18 m (sd_compatible d)" "\<not> is_str ''sifive,clint0'' 14 m (sd_compatible d)"
    using is_str_hd [of "CHR ''s''" "''ifive,plic-1.0.0''" 17 m "sd_compatible d"]
      is_str_hd [of "CHR ''s''" "''ifive,clint0''" 13 m "sd_compatible d"] by auto
qed

lemma probe_cong: "vdk s' = vdk s \<Longrightarrow> virtio_disk_probe rd s' = virtio_disk_probe rd s"
  by (simp add: virtio_disk_probe_def reg_read_def)

definition soc_scan :: "addr \<Rightarrow> mem \<Rightarrow> addr \<Rightarrow> soc_dev res option" where
  "soc_scan devicetree m c =
     dtb_foreach_property m c (soc_prop m devicetree) \<lparr>sd_compatible = 0, sd_reg = 0, sd_irq = 0\<rparr>"

lemma soc_child_virtio:
  assumes "soc_scan dt (pmem s) c = Some (Inr d)" "virtio_dev (pmem s) d"
  shows "soc_child dt c (f, s) = Some (Inr (f \<or> virtio_disk_probe (mmio s (sd_reg d)) s = 0,
     s\<lparr>virtio0 := sd_reg d, virtio_rd := mmio s (sd_reg d), virtio0_irq := sd_irq d\<rparr>))"
  using assms virtio_dev_other [OF assms(2)]
    probe_cong [of "s\<lparr>virtio0 := sd_reg d, virtio_rd := mmio s (sd_reg d), virtio0_irq := sd_irq d\<rparr>" s "mmio s (sd_reg d)"]
  by (auto simp: soc_child_def soc_scan_def soc_use_def virtio_dev_def)

lemma each_virtio:
  assumes "\<And>c. c \<in> set cs \<Longrightarrow> soc_scan dt (pmem s) c = Some (Inr (dev c)) \<and> virtio_dev (pmem s) (dev c)" "cs \<noteq> []"
  shows "\<exists>s'. each (soc_child dt) cs (f, s)
      = Some (Inr (f \<or> (\<exists>c \<in> set cs. virtio_disk_probe (mmio s (sd_reg (dev c))) s = 0), s'))
    \<and> virtio0 s' = sd_reg (dev (last cs)) \<and> virtio_rd s' = mmio s (sd_reg (dev (last cs))) \<and> vdk s' = vdk s"
  using assms
proof (induction cs arbitrary: f s)
  case (Cons c cs)
  define t where "t = s\<lparr>virtio0 := sd_reg (dev c), virtio_rd := mmio s (sd_reg (dev c)), virtio0_irq := sd_irq (dev c)\<rparr>"
  have t: "pmem t = pmem s" "mmio t = mmio s" "vdk t = vdk s" "virtio0 t = sd_reg (dev c)"
    "virtio_rd t = mmio s (sd_reg (dev c))" by (simp_all add: t_def)
  have step: "soc_child dt c (f, s) = Some (Inr (f \<or> virtio_disk_probe (mmio s (sd_reg (dev c))) s = 0, t))"
    unfolding t_def using Cons.prems(1) [of c] by (intro soc_child_virtio) simp_all
  show ?case
  proof (cases "cs = []")
    case True
    with step t show ?thesis by simp
  next
    case False
    have "soc_scan dt (pmem t) c' = Some (Inr (dev c')) \<and> virtio_dev (pmem t) (dev c')" if "c' \<in> set cs" for c'
      using Cons.prems(1) [of c'] that by (simp add: t)
    from Cons.IH [OF this False, of "f \<or> virtio_disk_probe (mmio s (sd_reg (dev c))) s = 0"]
      probe_cong [OF t(3)] t step False
    show ?thesis by (simp add: disj_assoc)
  qed
qed simp



definition demo_dev :: "byte list \<Rightarrow> byte list \<Rightarrow> dt_item" where
  "demo_dev name reg = DNode name [DProp 0 (bytes_of ''virtio,mmio'' @ [0]), DProp 11 reg]"

definition demo_soc :: "dt_item list" where
  "demo_soc = [demo_dev [0x61] [0, 0, 0, 0, 0x10, 0, 0x10, 0], demo_dev [0x62] [0, 0, 0, 0, 0x10, 0, 0x20, 0]]"

definition demo_header :: "u32 list" where
  "demo_header = [0, 0, 0, 0xa4000000, 0, 0, 0, 0, 0, 0]"

definition demo_dt :: mem where
  "demo_dt = mem_of_words 0x2000 (demo_header @
     flatten (DNode [0x73, 0x6f, 0x63] demo_soc) @ pack (bytes_of ''compatible'' @ [0] @ bytes_of ''reg'' @ [0]))"

declare property_loop.simps [code] properties_from.simps [code] skip_chars.simps [code] skip_zero_words.simps [code]

lemma demo_scan1:
  "soc_scan 0x2000 demo_dt 0x2030 = Some (Inr \<lparr>sd_compatible = 0x2044, sd_reg = 0x10001000, sd_irq = 0\<rparr>)"
  by code_simp

lemma demo_scan2:
  "soc_scan 0x2000 demo_dt 0x2068 = Some (Inr \<lparr>sd_compatible = 0x207c, sd_reg = 0x10002000, sd_irq = 0\<rparr>)"
  by code_simp

lemma demo_virtio: "is_str ''virtio,mmio'' 12 demo_dt 0x2044" "is_str ''virtio,mmio'' 12 demo_dt 0x207c"
  by code_simp+

text \<open>Two virtio devices; the first is a disk, the second answers nothing.\<close>

definition disk_regs :: regs where
  "disk_regs ev r =
     (if r = VIRTIO_MMIO_MAGIC_VALUE then 0x74726976 else if r = VIRTIO_MMIO_VERSION then 2
      else if r = VIRTIO_MMIO_DEVICE_ID then 2 else if r = VIRTIO_MMIO_VENDOR_ID then 0x554d4551 else 0)"

definition demo_boot :: boot_state where
  "demo_boot = trap_state.extend (blank_trap_state\<lparr>pmem := demo_dt\<rparr>)
     (boot_state.fields 0 0 (\<lambda>base. if base = 0x10001000 then disk_regs else (\<lambda>_ _. 0)) 0x80000000 (\<lambda>_. 0))"

lemma demo_boot_fields [simp]:
  "pmem demo_boot = demo_dt" "entry_at demo_boot = 0x80000000" "sbi_log demo_boot = []" "mmio demo_boot = (\<lambda>base. if base = 0x10001000 then disk_regs else (\<lambda>_ _. 0))"
  by (simp_all add: demo_boot_def trap_state.extend_def boot_state.fields_def blank_trap_state_def hart_state.extend_def
      trap_state.fields_def file_state.extend_def hart_state.fields_def)

lemma demo_soc_at: "node_at demo_dt 0x2028 [0x73, 0x6f, 0x63] demo_soc" "props_first demo_soc"
proof -
  let ?ws = "demo_header @
     flatten (DNode [0x73, 0x6f, 0x63] demo_soc) @ pack (bytes_of ''compatible'' @ [0] @ bytes_of ''reg'' @ [0])"
  have l: "length (flatten (DNode [0x73, 0x6f, 0x63] demo_soc)) = 31"
    by (simp add: demo_soc_def demo_dev_def length_pack bytes_of_def)
  have "words_at demo_dt 0x2000 ?ws"
    unfolding demo_dt_def using l by (intro words_at_mem_of_words) (simp add: length_pack bytes_of_def demo_header_def del: flatten.simps)
  then have "words_at demo_dt 0x2028 (flatten (DNode [0x73, 0x6f, 0x63] demo_soc))"
    by (simp add: demo_header_def del: flatten.simps words_at.simps append_Cons append_Nil)
  then show "node_at demo_dt 0x2028 [0x73, 0x6f, 0x63] demo_soc" "props_first demo_soc"
    using l by (simp_all add: node_at_def demo_soc_def demo_dev_def bytes_of_def del: flatten.simps)
qed

lemma demo_children: "addrs is_node (items_of 0x2028 [0x73, 0x6f, 0x63]) demo_soc = [0x2030, 0x2068]"
  by (simp add: items_of_def demo_soc_def demo_dev_def length_pack bytes_of_def)

definition demo_devs :: "addr \<Rightarrow> soc_dev" where
  "demo_devs c = (if c = 0x2030 then \<lparr>sd_compatible = 0x2044, sd_reg = 0x10001000, sd_irq = 0\<rparr>
     else \<lparr>sd_compatible = 0x207c, sd_reg = 0x10002000, sd_irq = 0\<rparr>)"


section \<open>Starting the harts\<close>

definition hart_call :: "u64 \<Rightarrow> u64 \<Rightarrow> sbicall" where
  "hart_call entry i = \<lparr>sc_extension = sbiext_code SBI_EXTENSION_HSM, sc_function = 0, sc_args = [i, entry, 0, 0, 0, 0]\<rparr>"


text \<open>The harts that are asked to start when the firmware has \<open>n\<close> of them and \<open>h\<close> is the one that runs.\<close>

fun harts_asked :: "nat \<Rightarrow> nat \<Rightarrow> nat list \<Rightarrow> nat list" where
  "harts_asked n h [] = []"
| "harts_asked n h (i # is) = (if i = h then harts_asked n h is else if i < n then i # harts_asked n h is else [i])"

definition fw_harts :: "nat \<Rightarrow> 'a boot_state_scheme \<Rightarrow> bool" where
  "fw_harts n s \<longleftrightarrow> (\<forall>log. \<forall>i < NCPU. sr_error (sbi_fw s log (hart_call (entry_at s) (of_nat i)))
     = sbierr_code (if i < n then SBI_SUCCESS else SBI_ERR_INVALID_PARAM))"

lemma start_harts_asked:
  assumes "fw_harts n s" "cpuid s = of_nat h" "h < NCPU" "list_all (\<lambda>i. i < NCPU) is"
  shows "start_harts (map of_nat is) s
    = Inr (s\<lparr>sbi_log := sbi_log s @ map (\<lambda>i. hart_call (entry_at s) (of_nat i)) (harts_asked n h is)\<rparr>)"
  using assms
proof (induction "is" arbitrary: s)
  case (Cons i "is")
  have eq: "(of_nat i :: u64) = of_nat h \<longleftrightarrow> i = h"
    using Cons.prems by (auto simp: NCPU_def word_unat_eq_iff unat_of_nat)
  define t where "t = s\<lparr>sbi_log := sbi_log s @ [hart_call (entry_at s) (of_nat i)]\<rparr>"
  have t: "fw_harts n t" "cpuid t = of_nat h" "entry_at t = entry_at s"
    "sbi_log t = sbi_log s @ [hart_call (entry_at s) (of_nat i)]" "t\<lparr>sbi_log := l\<rparr> = s\<lparr>sbi_log := l\<rparr>" for l
    using Cons.prems by (simp_all add: t_def fw_harts_def cpuid_def)
  have call: "sbi_hart_start (of_nat i) (entry_at s) 0 s
      = (sbi_fw s (sbi_log s) (hart_call (entry_at s) (of_nat i)), t)"
    by (simp add: sbi_hart_start_def ecall_def hart_call_def t_def Let_def)
  have "sr_error (sbi_fw s (sbi_log s) (hart_call (entry_at s) (of_nat i)))
      = sbierr_code (if i < n then SBI_SUCCESS else SBI_ERR_INVALID_PARAM)"
    using Cons.prems by (simp add: fw_harts_def)
  then have step: "start_harts (map of_nat (i # is)) s
      = (if i = h then start_harts (map of_nat is) s else if i < n then start_harts (map of_nat is) t else Inr t)"
    using call eq Cons.prems(2) by simp
  have hs: "h < NCPU" "list_all (\<lambda>i. i < NCPU) is" using Cons.prems by simp_all
  have "start_harts (map of_nat is) t
      = Inr (t\<lparr>sbi_log := sbi_log t @ map (\<lambda>i. hart_call (entry_at t) (of_nat i)) (harts_asked n h is)\<rparr>)"
    by (rule Cons.IH [OF t(1,2) hs])
  moreover have "start_harts (map of_nat is) s
      = Inr (s\<lparr>sbi_log := sbi_log s @ map (\<lambda>i. hart_call (entry_at s) (of_nat i)) (harts_asked n h is)\<rparr>)"
    by (rule Cons.IH [OF Cons.prems(1,2) hs])
  ultimately show ?case unfolding step by (simp add: t t_def)
qed simp

lemma harts_asked_upt:
  "k \<le> n \<Longrightarrow> h < n \<Longrightarrow> n \<le> m \<Longrightarrow> harts_asked n h [k..<m] = filter (\<lambda>i. i \<noteq> h) [k..<min m (Suc n)]"
proof (induction "m - k" arbitrary: k)
  case 0
  then show ?case by simp
next
  case (Suc d)
  then have k: "[k..<m] = k # [Suc k..<m]" "[k..<min m (Suc n)] = k # [Suc k..<min m (Suc n)]"
    by (simp_all add: upt_conv_Cons)
  show ?case
  proof (cases "k < n")
    case True
    then show ?thesis using Suc k by simp
  next
    case False
    then show ?thesis using Suc k by simp
  qed
qed


definition four_harts :: "sbicall list \<Rightarrow> sbicall \<Rightarrow> sbiret" where
  "four_harts log c =
     \<lparr>sr_error = (case sc_args c of i # _ \<Rightarrow> if i < 4 then 0 else - 3 | [] \<Rightarrow> 0), sr_value = 0\<rparr>"


end
