(* ===== verification/Txn.thy ===== *)
theory Txn
  imports LogOps
begin

text \<open>
  The block operations as a file-system call uses them, between \<open>begin_op\<close> and \<open>end_op\<close>: blocks are read
  with \<open>bread\<close>, changed in the buffer, logged with \<open>log_write\<close> and released with \<open>brelse\<close>.  \<open>txn H k s\<close> says that
  the call holds exactly the buffers of the blocks \<open>H\<close>, that every other change is logged and pinned, and
  that there is room for \<open>k\<close> more blocks.  The lemmas give each operation's effect on the contents of the
  blocks, \<open>blk\<close>, and keep \<open>txn\<close>.
\<close>

section \<open>The frame of a transaction\<close>

definition tx_step :: "'a log_state_scheme \<Rightarrow> 'a log_state_scheme \<Rightarrow> bool" where
  "tx_step s s' \<longleftrightarrow> s' = s\<lparr>procs := procs s', uart_ev := uart_ev s', bufs := bufs s', disk := disk s', dwrites := dwrites s',
       lg_n := lg_n s', lg_block := lg_block s'\<rparr> \<and> (\<forall>i. woke (curproc s) i (procs s i) (procs s' i))"

lemma tx_step_refl [simp]: "tx_step s s"
  by (simp add: tx_step_def)

lemma tx_step_io:
  assumes "io_step s s'" shows "tx_step s s'"
proof -
  have "s' = s\<lparr>procs := procs s', bufs := bufs s', disk := disk s', dwrites := dwrites s'\<rparr>"
    and w: "\<forall>i. woke (curproc s) i (procs s i) (procs s' i)"
    using assms by (simp_all add: io_step_def)
  moreover have "lg_n s' = lg_n s" "lg_block s' = lg_block s" using io_step_log [OF assms] by simp_all
  ultimately show ?thesis unfolding tx_step_def by (cases s; cases s') simp
qed

lemma tx_stepD:
  assumes "tx_step s s'"
  shows "curproc s' = curproc s" "log_state.more s' = log_state.more s" "pmem s' = pmem s" "freelist s' = freelist s"
    "lg_size s' = lg_size s" "lg_outstanding s' = lg_outstanding s" "lg_dev s' = lg_dev s" "lg_start s' = lg_start s"
    "lg_committing s' = lg_committing s" "mypid s' = mypid s" "myproc s' = myproc s"
    "uart_dev s' = uart_dev s" "panicked s' = panicked s" "responsive s' = responsive s"
    "woke (curproc s) i (procs s i) (procs s' i)"
proof -
  have e: "s' = s\<lparr>procs := procs s', uart_ev := uart_ev s', bufs := bufs s', disk := disk s', dwrites := dwrites s',
       lg_n := lg_n s', lg_block := lg_block s'\<rparr>"
    and w: "\<And>i. woke (curproc s) i (procs s i) (procs s' i)"
    using assms unfolding tx_step_def by blast+
  show c: "curproc s' = curproc s" by (subst e) simp
  show "log_state.more s' = log_state.more s" "pmem s' = pmem s" "freelist s' = freelist s"
    "lg_size s' = lg_size s" "lg_outstanding s' = lg_outstanding s" "lg_dev s' = lg_dev s" "lg_start s' = lg_start s"
    "lg_committing s' = lg_committing s" "panicked s' = panicked s"
    by (subst e, simp)+
  show u: "uart_dev s' = uart_dev s" by (subst e) simp
  show "responsive s' = responsive s" unfolding responsive_def u ..
  show "myproc s' = myproc s" using c by (simp add: myproc_def)
  then show "mypid s' = mypid s" using woke_pid [OF w] by (simp add: mp_def)
  show "woke (curproc s) i (procs s i) (procs s' i)" by (rule w)
qed

lemma tx_step_trans:
  assumes "tx_step s t" "tx_step t u" shows "tx_step s u"
proof -
  have w: "woke (curproc s) i (procs s i) (procs u i)" for i
    using tx_stepD(15) [OF assms(1)] tx_stepD(15) [OF assms(2)] tx_stepD(1) [OF assms(1)] woke_trans by metis
  have "t = s\<lparr>procs := procs t, uart_ev := uart_ev t, bufs := bufs t, disk := disk t, dwrites := dwrites t, lg_n := lg_n t, lg_block := lg_block t\<rparr>"
    "u = t\<lparr>procs := procs u, uart_ev := uart_ev u, bufs := bufs u, disk := disk u, dwrites := dwrites u, lg_n := lg_n u, lg_block := lg_block u\<rparr>"
    using assms unfolding tx_step_def by blast+
  then have "u = s\<lparr>procs := procs u, uart_ev := uart_ev u, bufs := bufs u, disk := disk u, dwrites := dwrites u, lg_n := lg_n u, lg_block := lg_block u\<rparr>"
    by (cases s, cases t, cases u) simp
  with w show ?thesis by (simp add: tx_step_def)
qed

section \<open>Inside a transaction\<close>

definition txn :: "u32 set \<Rightarrow> nat \<Rightarrow> 'a log_state_scheme \<Rightarrow> bool" where
  "txn H k s \<longleftrightarrow> bc_ok s \<and> finite H \<and> 1 \<le> lg_outstanding s \<and> 0 \<le> lg_n s \<and>
     lg_n s + int k + 4 \<le> int NBUF \<and> lg_n s + int k + 1 < lg_size s \<and> distinct (logged s) \<and>
     (\<forall>n. own s n = (if n \<in> H then Some (mypid s) else None)) \<and>
     (\<forall>n. rc s n = (if n \<in> H then 1 else 0) + (if n \<in> set (logged s) then 1 else 0)) \<and>
     (\<forall>n. n \<notin> H \<longrightarrow> n \<notin> set (logged s) \<longrightarrow> blk s n = disk s n)"

definition spend :: "u32 \<Rightarrow> 'a log_state_scheme \<Rightarrow> nat \<Rightarrow> nat" where
  "spend n s k = (if n \<in> set (logged s) then k else k - 1)"

lemma txn_less: "txn H k s \<Longrightarrow> j \<le> k \<Longrightarrow> txn H j s"
  by (simp add: txn_def)

lemma txnD:
  assumes "txn H k s"
  shows "bc_ok s" "finite H" "1 \<le> lg_outstanding s" "0 \<le> lg_n s" "lg_n s + int k + 4 \<le> int NBUF" "lg_n s + int k + 1 < lg_size s"
    "distinct (logged s)" "own s n = (if n \<in> H then Some (mypid s) else None)"
    "rc s n = (if n \<in> H then 1 else 0) + (if n \<in> set (logged s) then 1 else 0)"
    "n \<notin> H \<Longrightarrow> n \<notin> set (logged s) \<Longrightarrow> blk s n = disk s n"
  using assms by (simp_all add: txn_def)

lemma txn_in_use:
  assumes "txn H k s" "card H \<le> 3"
  shows "card (in_use s) < NBUF"
proof -
  have "in_use s = H \<union> set (logged s)" unfolding in_use_def by (auto simp: txnD(9) [OF assms(1)])
  then have "card (in_use s) \<le> card H + card (set (logged s))" by (simp add: card_Un_le)
  moreover have "int (card (set (logged s))) \<le> lg_n s"
    using card_length [of "logged s"] txnD(4) [OF assms(1)] by (simp add: logged_def)
  ultimately show ?thesis using assms(2) txnD(5) [OF assms(1)] by linarith
qed

lemma io_txn:
  assumes "txn H k s" "io_step s s'" "bc_ok s'" "blk s' = blk s" "disk s' = disk s"
    "own s' = (own s)(n := v)" "rc s' = (rc s)(n := c)"
    "v = (if n \<in> G then Some (mypid s) else None)" "c = (if n \<in> G then 1 else 0) + (if n \<in> set (logged s) then 1 else 0)"
    "G - {n} = H - {n}" "n \<in> set (logged s) \<or> n \<in> G \<or> blk s n = disk s n"
  shows "txn G k s'"
proof -
  have lg: "logged s' = logged s" by (rule io_step_geometry [OF assms(2)])
  note l = io_step_log [OF assms(2)] and d = io_stepD [OF assms(2)]
  have G: "m \<in> G \<longleftrightarrow> m \<in> H" if "m \<noteq> n" for m using assms(10) that by blast
  have fin: "finite G" using txnD(2) [OF assms(1)] assms(10) by (metis finite_Diff2 finite.emptyI finite_insert)
  show ?thesis
    unfolding txn_def l lg d using fin txnD(3-7) [OF assms(1)] assms(3)
  proof (intro conjI allI impI)
    fix m
    show "own s' m = (if m \<in> G then Some (mypid s) else None)"
      unfolding assms(6) using assms(8) G [of m] txnD(8) [OF assms(1), of m] by auto
    show "rc s' m = (if m \<in> G then 1 else 0) + (if m \<in> set (logged s) then 1 else 0)"
      unfolding assms(7) using assms(9) G [of m] txnD(9) [OF assms(1), of m] by auto
    show "blk s' m = disk s' m" if "m \<notin> G" "m \<notin> set (logged s)"
      unfolding assms(4,5) using that assms(11) G [of m] txnD(10) [OF assms(1), of m] by (cases "m = n") auto
  qed simp_all
qed

text \<open>Printing does not disturb it.\<close>

lemma emits_txn:
  assumes "emits bs s s'"
  shows "tx_step s s'" "blk s' = blk s" "logged s' = logged s" "disk s' = disk s" "txn H k s' = txn H k s" "holds s' c m = holds s c m"
proof -
  obtain ev where e: "s' = s\<lparr>uart_ev := ev\<rparr>" using assms unfolding emits_def by blast
  have v: "bc_ok s' = bc_ok s" "blk s' = blk s" "rc s' = rc s" "own s' = own s" "slot s' = slot s"
    by (rule view_cong; simp add: e)+
  have d: "disk s' = disk s" "logged s' = logged s" "mypid s' = mypid s" "lg_outstanding s' = lg_outstanding s"
    "lg_n s' = lg_n s" "lg_size s' = lg_size s"
    by (simp_all add: e logged_def mp_def myproc_def)
  show "blk s' = blk s" "logged s' = logged s" "disk s' = disk s" by (fact v d)+
  show "tx_step s s'" by (simp add: tx_step_def e)
  show "txn H k s' = txn H k s" "holds s' c m = holds s c m" unfolding txn_def holds_def v d by (rule refl)+
qed

section \<open>The operations\<close>

lemma txn_bread:
  assumes t: "txn H k s" and n: "n \<notin> H" and H: "card H \<le> 3"
  obtains b s' where "bread ROOTDEV n s = Inr (b, s')" "txn (insert n H) k s'" "holds s' b n" "blk s' = blk s"
    "b_data (bufs s' b) = blk s n" "logged s' = logged s" "disk s' = disk s" "tx_step s s'"
    "\<And>c m. holds s c m \<Longrightarrow> holds s' c m"
proof -
  have o: "own s n = None" and r: "rc s n + 1 < 2 ^ 32" using txnD(8,9) [OF t, of n] n by simp_all
  have room: "rc s n > 0 \<or> card (in_use s) < NBUF" using txn_in_use [OF t H] by simp
  obtain b s' where B: "bread ROOTDEV n s = Inr (b, s')" "bc_ok s'" "slot s' n = Some b"
    "b_data (bufs s' b) = blk s n" "blk s' = blk s" "rc s' = (rc s)(n := rc s n + 1)"
    "own s' = (own s)(n := Some (mypid s))" "disk s' = disk s" "dwrites s' = dwrites s" "io_step s s'"
    "\<And>k. rc s k > 0 \<Longrightarrow> slot s' k = slot s k"
    by (rule bread_spec [OF txnD(1) [OF t] o room r]) blast
  have t': "txn (insert n H) k s'"
    by (rule io_txn [OF t B(10,2,5,8,7,6)]) (use txnD(9) [OF t, of n] n in auto)
  show thesis
  proof (rule that [OF B(1) t' _ B(5,4) io_step_geometry(2) [OF B(10)] B(8) tx_step_io [OF B(10)]])
    show "holds s' b n" using B(2,3,7) io_stepD(5) [OF B(10)] by (simp add: holds_def)
    show "holds s' c m" if h: "holds s c m" for c m
    proof (rule holds_keep [OF h B(2) _ _ B(10)])
      show "slot s' m = slot s m" using B(11) holdsD(7,10) [OF h] by (simp add: unat_gt_0)
      show "own s' m = own s m" using B(7) h o by (auto simp: holds_def)
    qed
  qed
qed

lemma txn_brelse:
  assumes t: "txn H k s" and h: "holds s b n" and n: "n \<in> H" and clean: "n \<in> set (logged s) \<or> blk s n = disk s n"
  obtains s' where "brelse b s = Inr s'" "txn (H - {n}) k s'" "blk s' = blk s" "logged s' = logged s" "disk s' = disk s"
    "tx_step s s'" "\<And>c m. holds s c m \<Longrightarrow> m \<noteq> n \<Longrightarrow> holds s' c m"
proof -
  have c: "blk s n = disk s n" if "rc s n = 1" using that clean txnD(9) [OF t, of n] n by auto
  obtain s' where B: "brelse b s = Inr s'" "bc_ok s'" "blk s' = blk s" "rc s' = (rc s)(n := rc s n - 1)"
    "own s' = (own s)(n := None)" "disk s' = disk s" "dwrites s' = dwrites s" "io_step s s'" "slot s' = slot s"
    by (rule brelse_spec [OF h c]) blast
  have t': "txn (H - {n}) k s'"
    by (rule io_txn [OF t B(8,2,3,6,5,4)]) (use txnD(9) [OF t, of n] n clean in auto)
  show thesis
  proof (rule that [OF B(1) t' B(3) io_step_geometry(2) [OF B(8)] B(6) tx_step_io [OF B(8)]])
    show "holds s' c m" if h: "holds s c m" "m \<noteq> n" for c m
      by (rule holds_keep [OF h(1) B(2) _ _ B(8)]) (use B(5,9) h(2) in simp_all)
  qed
qed

lemma txn_set_data:
  assumes t: "txn H k s" and h: "holds s b n" and n: "n \<in> H" and len: "length bs = BSIZE"
  shows "txn H k (set_data b bs s)" "holds (set_data b bs s) b n" "blk (set_data b bs s) = (blk s)(n := bs)"
    "logged (set_data b bs s) = logged s" "disk (set_data b bs s) = disk s" "tx_step s (set_data b bs s)"
    "holds s c m \<Longrightarrow> holds (set_data b bs s) c m"
proof -
  note D = set_data_spec [OF h len]
  show "holds (set_data b bs s) b n" "blk (set_data b bs s) = (blk s)(n := bs)" "disk (set_data b bs s) = disk s" using D by simp_all
  show lg: "logged (set_data b bs s) = logged s" by (rule io_step_geometry [OF D(7)])
  show "tx_step s (set_data b bs s)" by (rule tx_step_io [OF D(7)])
  show "holds (set_data b bs s) c m" if "holds s c m"
    by (rule holds_keep [OF that holdsD(1) [OF D(1)] _ _ D(7)]) (simp_all add: D)
  show "txn H k (set_data b bs s)"
    using t n unfolding txn_def io_step_log [OF D(7)] lg io_stepD(5) [OF D(7)] D(2-5)
    by (auto simp: holdsD(1) [OF D(1)])
qed

lemma find_logged_cases:
  "find_logged n k i s = i + k \<and> (\<forall>j. i \<le> j \<and> j < i + k \<longrightarrow> lg_block s j \<noteq> n) \<or>
   i \<le> find_logged n k i s \<and> find_logged n k i s < i + k \<and> lg_block s (find_logged n k i s) = n"
proof (induction n k i s rule: find_logged.induct)
  case (2 n k i s)
  have "(\<forall>j. i \<le> j \<and> j < i + Suc k \<longrightarrow> lg_block s j \<noteq> n) \<longleftrightarrow>
      lg_block s i \<noteq> n \<and> (\<forall>j. Suc i \<le> j \<and> j < Suc i + k \<longrightarrow> lg_block s j \<noteq> n)"
  proof -
    have b: "(\<forall>j. a \<le> j \<and> j < c \<longrightarrow> lg_block s j \<noteq> n) \<longleftrightarrow> (\<forall>j \<in> {a..<c}. lg_block s j \<noteq> n)" for a c by auto
    have "{i..<i + Suc k} = insert i {Suc i..<Suc i + k}" by auto
    then show ?thesis unfolding b by simp
  qed
  with 2 show ?case by (cases "lg_block s i = n") (auto simp del: not_less)
qed auto

text \<open>\<open>log_write\<close> appends the block to the list of logged blocks and pins it, unless it is there already.\<close>

lemma log_write_eq:
  assumes "0 \<le> lg_n s" "lg_n s < LOGSIZE" "lg_n s < lg_size s - 1" "1 \<le> lg_outstanding s" "b_blockno (bufs s b) = n"
  shows "n \<in> set (logged s) \<Longrightarrow> log_write b s = Inr s"
    "n \<notin> set (logged s) \<Longrightarrow>
      log_write b s = Inr (bpin b s\<lparr>lg_block := (lg_block s)(nat (lg_n s) := n), lg_n := lg_n s + 1\<rparr>)"
proof -
  let ?i = "find_logged n (nat (lg_n s)) 0 s"
  have lw: "log_write b s = Inr (if int ?i = lg_n s
      then (bpin b (s\<lparr>lg_block := (lg_block s)(?i := n)\<rparr>))\<lparr>lg_n := lg_n s + 1\<rparr> else s\<lparr>lg_block := (lg_block s)(?i := n)\<rparr>)"
    using assms by (simp add: log_write_def Let_def)
  note f = find_logged_cases [of n "nat (lg_n s)" 0 s]
  show "log_write b s = Inr s" if "n \<in> set (logged s)"
  proof -
    obtain j where "j < nat (lg_n s)" "lg_block s j = n" using \<open>n \<in> set (logged s)\<close> by (auto simp: logged_def)
    then have "?i < nat (lg_n s)" "lg_block s ?i = n" using f by auto
    then show ?thesis using lw by (simp add: fun_upd_idem)
  qed
  show "log_write b s = Inr (bpin b s\<lparr>lg_block := (lg_block s)(nat (lg_n s) := n), lg_n := lg_n s + 1\<rparr>)" if "n \<notin> set (logged s)"
  proof -
    have "?i = nat (lg_n s)" using f that by (force simp: logged_def)
    then show ?thesis using lw assms(1) by (simp add: bpin_def upd_buf_def)
  qed
qed

lemma txn_log_write:
  assumes t: "txn H k s" and h: "holds s b n" and n: "n \<in> H" and k: "n \<in> set (logged s) \<or> 0 < k"
  obtains s' where "log_write b s = Inr s'" "txn H (spend n s k) s'" "holds s' b n" "blk s' = blk s" "disk s' = disk s"
    "set (logged s') = insert n (set (logged s))" "tx_step s s'" "\<And>c m. holds s c m \<Longrightarrow> holds s' c m"
proof -
  have a: "0 \<le> lg_n s" "lg_n s < LOGSIZE" "1 \<le> lg_outstanding s" "b_blockno (bufs s b) = n"
    using txnD(3,4,5) [OF t] holdsD(5) [OF h] by (simp_all add: LOGSIZE_def MAXOPBLOCKS_def NBUF_def)
  show thesis
  proof (cases "n \<in> set (logged s)")
    case True
    have "log_write b s = Inr s"
      by (rule log_write_eq(1) [OF a(1,2) _ a(3,4) True]) (use txnD(6) [OF t] in linarith)
    then show thesis using that [of s] t h True by (auto simp: spend_def)
  next
    case False
    have sz: "lg_n s < lg_size s - 1" using txnD(6) [OF t] k False by linarith
    define s' where "s' = bpin b s\<lparr>lg_block := (lg_block s)(nat (lg_n s) := n), lg_n := lg_n s + 1\<rparr>"
    have lw: "log_write b s = Inr s'" unfolding s'_def by (rule log_write_eq(2) [OF a(1,2) sz a(3,4) False])
    have r: "rc s n = 1" "rc s n + 1 < 2 ^ 32" using txnD(9) [OF t, of n] n False by simp_all
    note P = bpin_spec [OF h r(2)]
    have v: "bc_ok s' = bc_ok (bpin b s)" "blk s' = blk (bpin b s)" "rc s' = rc (bpin b s)" "own s' = own (bpin b s)"
      "slot s' = slot (bpin b s)"
      by (rule view_cong; simp add: s'_def)+
    have d: "disk s' = disk s" "mypid s' = mypid s" "lg_size s' = lg_size s" "lg_outstanding s' = lg_outstanding s" "lg_n s' = lg_n s + 1"
      using P(5) by (simp_all add: s'_def mp_def myproc_def bpin_def upd_buf_def)
    have "[0..<nat (lg_n s + 1)] = [0..<nat (lg_n s)] @ [nat (lg_n s)]" using a(1) by (simp add: nat_add_distrib)
    then have lg: "logged s' = logged s @ [n]" by (simp add: logged_def s'_def)
    have keep: "holds s' c m" if "holds s c m" for c m
      using that P(1,4,8) v d by (simp add: holds_def)
    have "txn H (k - 1) s'"
      unfolding txn_def v d lg P
    proof (intro conjI allI impI)
      show "bc_ok (bpin b s)" by (rule holdsD [OF P(1)])
      show "lg_n s + 1 + int (k - 1) + 4 \<le> int NBUF" "lg_n s + 1 + int (k - 1) + 1 < lg_size s" using txnD(5,6) [OF t] k False by linarith+
    qed (use txnD [OF t] False n r(1) in auto)
    moreover have "tx_step s s'"
      unfolding tx_step_def by (simp add: s'_def bpin_def upd_buf_def)
    ultimately show thesis using that [OF lw] keep [OF h] keep v(2) P(2) d lg False by (simp add: spend_def)
  qed
qed

text \<open>A block that is read, changed and logged: the way every change of the file system is made.\<close>

lemma txn_change:
  assumes t: "txn H k s" and n: "n \<notin> H" and H: "card H \<le> 3" and k: "n \<in> set (logged s) \<or> 0 < k"
    and len: "length (f (blk s n)) = BSIZE"
  obtains b s1 s2 s' where "bread ROOTDEV n s = Inr (b, s1)" "b_data (bufs s1 b) = blk s n"
    "log_write b (set_data b (f (blk s n)) s1) = Inr s2" "brelse b s2 = Inr s'"
    "txn H (spend n s k) s'" "blk s' = (blk s)(n := f (blk s n))" "disk s' = disk s"
    "set (logged s') = insert n (set (logged s))" "tx_step s s1" "tx_step s s'" "\<And>c m. holds s c m \<Longrightarrow> holds s' c m"
proof -
  obtain b s1 where B: "bread ROOTDEV n s = Inr (b, s1)" "txn (insert n H) k s1" "holds s1 b n" "blk s1 = blk s"
    "b_data (bufs s1 b) = blk s n" "logged s1 = logged s" "disk s1 = disk s" "tx_step s s1" "\<And>c m. holds s c m \<Longrightarrow> holds s1 c m"
    by (rule txn_bread [OF t n H]) blast
  note D = txn_set_data [OF B(2,3) insertI1 len]
  have k1: "n \<in> set (logged (set_data b (f (blk s n)) s1)) \<or> 0 < k" using k D(4) B(6) by simp
  obtain s2 where L: "log_write b (set_data b (f (blk s n)) s1) = Inr s2"
    "txn (insert n H) (spend n (set_data b (f (blk s n)) s1) k) s2" "holds s2 b n" "blk s2 = blk (set_data b (f (blk s n)) s1)"
    "disk s2 = disk (set_data b (f (blk s n)) s1)" "set (logged s2) = insert n (set (logged (set_data b (f (blk s n)) s1)))"
    "tx_step (set_data b (f (blk s n)) s1) s2" "\<And>c m. holds (set_data b (f (blk s n)) s1) c m \<Longrightarrow> holds s2 c m"
    by (rule txn_log_write [OF D(1,2) insertI1 k1]) blast
  obtain s' where R: "brelse b s2 = Inr s'" "txn (insert n H - {n}) (spend n (set_data b (f (blk s n)) s1) k) s'"
    "blk s' = blk s2" "logged s' = logged s2" "disk s' = disk s2" "tx_step s2 s'"
    "\<And>c m. holds s2 c m \<Longrightarrow> m \<noteq> n \<Longrightarrow> holds s' c m"
    by (rule txn_brelse [OF L(2,3) insertI1]) (use L(6) in auto)
  have own: "own s m = Some (mypid s)" "m \<noteq> n" if "holds s c m" for c m
    using that txnD(8) [OF t, of n] n by (auto simp: holds_def)
  show thesis
  proof (rule that [OF B(1,5) L(1) R(1)])
    show "txn H (spend n s k) s'" using R(2) n D(4) B(6) by (simp add: spend_def)
    show "tx_step s s'" using B(8) D(6) L(7) R(6) by (meson tx_step_trans)
    show "holds s' c m" if "holds s c m" for c m using B(9) D(7) L(8) R(7) that own(2) by blast
  qed (use B D L R in simp_all)
qed

text \<open>A block that is only looked at.\<close>

lemma txn_look:
  assumes t: "txn H k s" and n: "n \<notin> H" and H: "card H \<le> 3"
  obtains b s1 s' where "bread ROOTDEV n s = Inr (b, s1)" "b_data (bufs s1 b) = blk s n" "brelse b s1 = Inr s'"
    "txn H k s'" "blk s' = blk s" "disk s' = disk s" "logged s' = logged s" "tx_step s s1" "tx_step s s'"
    "\<And>c m. holds s c m \<Longrightarrow> holds s' c m"
proof -
  obtain b s1 where B: "bread ROOTDEV n s = Inr (b, s1)" "txn (insert n H) k s1" "holds s1 b n" "blk s1 = blk s"
    "b_data (bufs s1 b) = blk s n" "logged s1 = logged s" "disk s1 = disk s" "tx_step s s1" "\<And>c m. holds s c m \<Longrightarrow> holds s1 c m"
    by (rule txn_bread [OF t n H]) blast
  obtain s' where R: "brelse b s1 = Inr s'" "txn (insert n H - {n}) k s'" "blk s' = blk s1" "logged s' = logged s1"
    "disk s' = disk s1" "tx_step s1 s'" "\<And>c m. holds s1 c m \<Longrightarrow> m \<noteq> n \<Longrightarrow> holds s' c m"
    by (rule txn_brelse [OF B(2,3) insertI1]) (use B txnD(10) [OF t n] in auto)
  have ne: "m \<noteq> n" if "holds s c m" for c m
    using that txnD(8) [OF t, of n] n by (auto simp: holds_def)
  show thesis
  proof (rule that [OF B(1,5) R(1)])
    show "txn H k s'" using R(2) n by simp
    show "tx_step s s'" using B(8) R(6) by (rule tx_step_trans)
    show "holds s' c m" if "holds s c m" for c m using B(9) R(7) that ne by blast
  qed (use B R in simp_all)
qed

end
