(* ===== verification/FsBlocks.thy ===== *)
theory FsBlocks
  imports Fs Txn
begin

text \<open>
  The block allocator of \<^verbatim>\<open>kernel/fs.c\<close> inside a transaction: \<open>balloc\<close> hands out the first block that is free
  in the bitmap, marked and filled with zeros, and \<open>bfree\<close> gives a block back.
\<close>

unbundle bit_operations_syntax

section \<open>The bitmap\<close>

lemma bit_byte_mark: "m < 8 \<Longrightarrow> n < 8 \<Longrightarrow> bit (x OR 2 ^ m :: byte) n \<longleftrightarrow> n = m \<or> bit x n"
  by (auto simp: bit_or_iff bit_exp_iff possible_bit_def)

lemma bit_byte_clear: "m < 8 \<Longrightarrow> n < 8 \<Longrightarrow> bit (x AND NOT (2 ^ m) :: byte) n \<longleftrightarrow> n \<noteq> m \<and> bit x n"
  by (auto simp: bit_and_iff bit_not_iff bit_exp_iff possible_bit_def)

lemma div_mod_8: "(j :: nat) = k \<longleftrightarrow> j div 8 = k div 8 \<and> j mod 8 = k mod 8"
  by (metis div_mult_mod_eq)

lemma block_bit_upd:
  assumes "length d = BSIZE" "bi < BPB" "j < BPB"
  shows "block_bit (mark_bit bi d) j \<longleftrightarrow> j = bi \<or> block_bit d j" "block_bit (clear_bit bi d) j \<longleftrightarrow> j \<noteq> bi \<and> block_bit d j"
proof -
  have "bi div 8 < length d" "j div 8 < length d" using assms by (auto simp: BPB_def)
  then show "block_bit (mark_bit bi d) j \<longleftrightarrow> j = bi \<or> block_bit d j" "block_bit (clear_bit bi d) j \<longleftrightarrow> j \<noteq> bi \<and> block_bit d j"
    using div_mod_8 [of j bi]
    by (auto simp: block_bit_def mark_bit_def clear_bit_def nth_list_update bit_byte_mark bit_byte_clear)
qed

lemma length_bit_upd [simp]: "length (mark_bit bi d) = length d" "length (clear_bit bi d) = length d"
  by (simp_all add: mark_bit_def clear_bit_def)

text \<open>Whether block \<open>b\<close> is in use according to the bitmap.\<close>

definition used :: "'a fs_state_scheme \<Rightarrow> nat \<Rightarrow> bool" where
  "used s b = block_bit (blk s (BBLOCK (of_nat b) s)) (b mod BPB)"

lemma of_nat_div_u32: "b < 2 ^ 32 \<Longrightarrow> m < 2 ^ 32 \<Longrightarrow> (of_nat b :: u32) div of_nat m = of_nat (b div m)"
proof -
  assume "b < 2 ^ 32" "m < 2 ^ 32"
  then have "unat (of_nat b :: u32) = b" "unat (of_nat m :: u32) = m" by (simp_all add: unat_of_nat take_bit_nat_eq_self)
  then show ?thesis by (simp add: word_arith_nat_div)
qed

lemma BBLOCK_nat: "b < 2 ^ 32 \<Longrightarrow> BBLOCK (of_nat b) s = of_nat (b div BPB) + sb_bmapstart (sb s)"
  by (simp add: BBLOCK_def of_nat_div_u32 BPB_def BSIZE_def del: of_nat_numeral)

lemma of_nat_u32_inj: "a < 2 ^ 32 \<Longrightarrow> b < 2 ^ 32 \<Longrightarrow> (of_nat a :: u32) = of_nat b \<longleftrightarrow> a = b"
  by (simp add: word_of_nat_eq_iff take_bit_nat_eq_self)

lemma BBLOCK_eq:
  assumes "a < 2 ^ 32" "b < 2 ^ 32"
  shows "BBLOCK (of_nat a) s = BBLOCK (of_nat b) s \<longleftrightarrow> a div BPB = b div BPB"
proof -
  have "a div BPB < 2 ^ 32" "b div BPB < 2 ^ 32" using assms by (auto intro: le_less_trans [OF div_le_dividend])
  then show ?thesis using assms by (simp add: BBLOCK_nat of_nat_u32_inj)
qed

lemma tx_step_fs:
  assumes "tx_step s s'" shows "sb s' = sb s" "inodes s' = inodes s" "fs_state.more s' = fs_state.more s"
  using tx_stepD(2) [OF assms] by (cases s; cases s'; simp)+

lemma tx_step_BBLOCK: "tx_step s s' \<Longrightarrow> BBLOCK b s' = BBLOCK b s" "tx_step s s' \<Longrightarrow> IBLOCK i s' = IBLOCK i s"
  by (simp_all add: BBLOCK_def IBLOCK_def tx_step_fs)

lemma find_append: "find P (xs @ ys) = (case find P xs of None \<Rightarrow> find P ys | Some x \<Rightarrow> Some x)"
  by (induction xs) auto

lemma find_shift: "find P [b..<b + m] = map_option ((+) b) (find (\<lambda>i. P (b + i)) [0..<m])"
proof -
  have m: "find P (map f xs) = map_option f (find (P \<circ> f) xs)" for f :: "nat \<Rightarrow> nat" and xs by (induction xs) auto
  have "[b..<b + m] = map ((+) b) [0..<m]" by (intro nth_equalityI) auto
  then show ?thesis by (simp add: m comp_def)
qed

lemma find_least: "P b \<Longrightarrow> b < n \<Longrightarrow> \<forall>c < b. \<not> P c \<Longrightarrow> find P [0..<n] = Some b"
  unfolding find_Some_iff by (intro exI [of _ b]) simp

text \<open>The search inside one bitmap block is the search among the blocks it describes.\<close>

lemma find_in_bitmap:
  fixes s :: "'a fs_state_scheme" and b sz :: nat
  defines "d \<equiv> blk s (BBLOCK (of_nat b) s)"
  assumes "BPB dvd b" "b < sz" "sz < 2 ^ 32"
  shows "find (\<lambda>c. \<not> used s c) [b..<sz] =
    (case find (\<lambda>bi. \<not> block_bit d bi) [0..<min BPB (sz - b)] of
       Some bi \<Rightarrow> Some (b + bi) | None \<Rightarrow> find (\<lambda>c. \<not> used s c) [b + BPB..<sz])"
proof -
  let ?m = "min BPB (sz - b)"
  have u: "used s (b + bi) = block_bit d bi" if "bi < ?m" for bi
  proof -
    have "bi < BPB" "b + bi < sz" using that by auto
    then have "(b + bi) mod BPB = bi" "(b + bi) div BPB = b div BPB"
      using assms(2) by (auto simp: mod_add_left_eq [symmetric] div_plus_div_distrib_dvd_left)
    moreover have "BBLOCK (of_nat (b + bi)) s = BBLOCK (of_nat b) s"
      using calculation(2) \<open>b + bi < sz\<close> assms(4) by (subst BBLOCK_eq) simp_all
    ultimately show ?thesis by (simp only: used_def d_def)
  qed
  have "[b..<sz] = [b..<b + ?m] @ [b + ?m..<sz]" 
    using upt_add_eq_append [of b "b + ?m" "sz - (b + ?m)"] assms(3) by simp
  moreover have "[b + ?m..<sz] = [b + BPB..<sz]" by (auto simp: min_def)
  moreover have "find (\<lambda>i. \<not> used s (b + i)) [0..<?m] = find (\<lambda>bi. \<not> block_bit d bi) [0..<?m]"
    by (rule find_cong) (use u in auto)
  ultimately show ?thesis by (simp only: find_append find_shift) (simp split: option.split)
qed

section \<open>\<open>balloc\<close>\<close>

definition takes_block :: "nat \<Rightarrow> 'a fs_state_scheme \<Rightarrow> 'a fs_state_scheme \<Rightarrow> bool" where
  "takes_block c s s' \<longleftrightarrow> blk s' = (blk s)(BBLOCK (of_nat c) s := mark_bit (c mod BPB) (blk s (BBLOCK (of_nat c) s)),
     of_nat c := replicate BSIZE 0)"

text \<open>The blocks \<open>H\<close> a caller holds are neither of the bitmap nor free.\<close>

definition apart :: "u32 set \<Rightarrow> 'a fs_state_scheme \<Rightarrow> nat \<Rightarrow> bool" where
  "apart H s sz \<longleftrightarrow> card H \<le> 2 \<and> (\<forall>c < sz. BBLOCK (of_nat c) s \<notin> H \<and> (\<not> used s c \<longrightarrow> of_nat c \<notin> H))"

definition balloc_spec :: "u32 set \<Rightarrow> nat \<Rightarrow> nat option \<Rightarrow> 'a fs_state_scheme \<Rightarrow> (u32 \<times> 'a fs_state_scheme) res \<Rightarrow> bool" where
  "balloc_spec H k r s x = (case r of
     None \<Rightarrow> \<exists>s'. x = Inr (0, s') \<and> txn H k s' \<and> blk s' = blk s \<and> tx_step s s' \<and> (\<forall>c m. holds s c m \<longrightarrow> holds s' c m)
   | Some c \<Rightarrow> \<exists>s'. x = Inr (of_nat c, s') \<and> txn H (k - 2) s' \<and> takes_block c s s' \<and> tx_step s s' \<and>
       (\<forall>c m. holds s c m \<longrightarrow> holds s' c m))"

lemma blk_length: "txn H k s \<Longrightarrow> length (blk s n) = BSIZE"
proof -
  assume t: "txn H k s"
  then have "bc_ok s" by (rule txnD)
  then show ?thesis using slot_Some [of s n] by (auto simp: blk_def bc_ok_def buf_ok_def split: option.split)
qed

lemma bzero_txn:
  assumes "txn H k s" "n \<notin> H" "card H \<le> 3" "n \<in> set (logged s) \<or> 0 < k"
  obtains s' where "bzero ROOTDEV n s = Inr s'" "txn H (spend n s k) s'" "blk s' = (blk s)(n := replicate BSIZE 0)" "tx_step s s'"
    "\<And>c m. holds s c m \<Longrightarrow> holds s' c m"
proof -
  obtain b s1 s2 s' where C: "bread ROOTDEV n s = Inr (b, s1)" "b_data (bufs s1 b) = blk s n"
    "log_write b (set_data b (replicate BSIZE 0) s1) = Inr s2" "brelse b s2 = Inr s'"
    "txn H (spend n s k) s'" "blk s' = (blk s)(n := replicate BSIZE 0)" "disk s' = disk s"
    "set (logged s') = insert n (set (logged s))" "tx_step s s1" "tx_step s s'" "\<And>c m. holds s c m \<Longrightarrow> holds s' c m"
    by (rule txn_change [OF assms, of "\<lambda>_. replicate BSIZE 0"]) auto
  show thesis by (rule that [OF _ C(5,6,10,11)]) (use C in \<open>simp_all add: bzero_def log_brelse_def\<close>)
qed

lemma balloc_found:
  assumes t: "txn H k s" and k: "2 \<le> k" and m: "m \<notin> H" "card H \<le> 2" "of_nat c \<notin> H" and B: "m = BBLOCK (of_nat c) s"
    and r: "bread ROOTDEV m s = Inr (b, s1)"
  shows "balloc_spec H k (Some c) s
    (bnd (log_brelse b (set_data b (mark_bit (c mod BPB) (b_data (bufs s1 b))) s1)) (\<lambda>s.
       bnd (bzero ROOTDEV (of_nat c) s) (\<lambda>s. Inr (of_nat c, s))))"
proof -
  have k0: "m \<in> set (logged s) \<or> 0 < k" and H3: "card H \<le> 3" using k m(2) by simp_all
  have len: "length (mark_bit (c mod BPB) (blk s m)) = BSIZE" using blk_length [OF t] by simp
  obtain b' s1' s2 s3 where C: "bread ROOTDEV m s = Inr (b', s1')" "b_data (bufs s1' b') = blk s m"
    "log_write b' (set_data b' (mark_bit (c mod BPB) (blk s m)) s1') = Inr s2" "brelse b' s2 = Inr s3"
    "txn H (spend m s k) s3" "blk s3 = (blk s)(m := mark_bit (c mod BPB) (blk s m))" "disk s3 = disk s"
    "set (logged s3) = insert m (set (logged s))" "tx_step s s1'" "tx_step s s3" "\<And>c m. holds s c m \<Longrightarrow> holds s3 c m"
    by (rule txn_change [OF t m(1) H3 k0, of "mark_bit (c mod BPB)", OF len]) blast
  have b': "b' = b" "s1' = s1" using C(1) r by simp_all
  have k1: "of_nat c \<in> set (logged s3) \<or> 0 < spend m s k" using k by (simp add: spend_def)
  obtain s' where Z: "bzero ROOTDEV (of_nat c) s3 = Inr s'" "txn H (spend (of_nat c) s3 (spend m s k)) s'"
    "blk s' = (blk s3)(of_nat c := replicate BSIZE 0)" "tx_step s3 s'" "\<And>c m. holds s3 c m \<Longrightarrow> holds s' c m"
    by (rule bzero_txn [OF C(5) m(3) H3 k1]) blast
  have "txn H (k - 2) s'" by (rule txn_less [OF Z(2)]) (auto simp: spend_def)
  moreover have "takes_block c s s'" using Z(3) C(6) B by (simp add: takes_block_def)
  ultimately show ?thesis
    using C(2-4,11) Z(1,5) tx_step_trans [OF C(10) Z(4)] unfolding balloc_spec_def b' log_brelse_def by simp
qed

lemma printf_line:
  assumes "responsive s" "\<not> panicked s" "0 \<notin> set bs" "ascii CHR ''%'' \<notin> set bs"
  shows "\<exists>s'. printf bs args s = Inr (0, s') \<and> emits bs s s'"
  using printf_plain [OF assms] cons_puts_emits [OF assms(1,2), of bs] by (auto simp: printf_def)

lemma balloc_none:
  assumes "txn H k s" "responsive s" "\<not> panicked s"
  shows "balloc_spec H k None s (bnd (printf (bytes_of ''balloc: out of blocks'' @ [10]) [] s) (\<lambda>(_, s). Inr (0, s)))"
proof -
  obtain s' where "printf (bytes_of ''balloc: out of blocks'' @ [10]) [] s = Inr (0, s')"
      "emits (bytes_of ''balloc: out of blocks'' @ [10]) s s'"
    using printf_line [OF assms(2,3), of "bytes_of ''balloc: out of blocks'' @ [10]" "[]"] by (auto simp: bytes_of_def)
  then show ?thesis using assms(1) emits_txn [of _ s s'] unfolding balloc_spec_def by auto
qed

lemma balloc_spec_later:
  assumes "balloc_spec H k r s' x" "blk s' = blk s" "tx_step s s'" "\<And>c m. holds s c m \<Longrightarrow> holds s' c m"
  shows "balloc_spec H k r s x"
  using assms(1,4) tx_step_trans [OF assms(3)] tx_step_BBLOCK [OF assms(3)]
  unfolding balloc_spec_def takes_block_def assms(2) by (cases r) (simp, blast, simp, blast)

lemma balloc_loop_spec:
  assumes "txn H k s" "2 \<le> k" "BPB dvd b" "sz < 2 ^ 32" "responsive s" "\<not> panicked s" "apart H s sz"
  shows "balloc_spec H k (find (\<lambda>c. \<not> used s c) [b..<sz]) s (balloc_loop ROOTDEV b sz s)"
  using assms
proof (induction "sz - b" arbitrary: b s rule: less_induct)
  case less
  note t = less.prems(1) and ap = less.prems(7)
  show ?case
  proof (cases "b < sz")
    case False
    then show ?thesis using balloc_none [OF t less.prems(5,6)] by (subst balloc_loop.simps) simp
  next
    case True
    let ?m = "BBLOCK (of_nat b) s"
    have m: "?m \<notin> H" and H: "card H \<le> 2" "card H \<le> 3" using ap True by (auto simp: apart_def)
    obtain bp s1 s2 where L: "bread ROOTDEV ?m s = Inr (bp, s1)" "b_data (bufs s1 bp) = blk s ?m" "brelse bp s1 = Inr s2"
      "txn H k s2" "blk s2 = blk s" "disk s2 = disk s" "logged s2 = logged s" "tx_step s s1" "tx_step s s2"
      "\<And>c m. holds s c m \<Longrightarrow> holds s2 c m"
      by (rule txn_look [OF t m H(2)]) blast
    have u: "used s2 = used s" by (simp add: used_def L(5) tx_step_BBLOCK [OF L(9)] fun_eq_iff)
    note fb = find_in_bitmap [OF less.prems(3) True less.prems(4), of s]
    show ?thesis
    proof (cases "find (\<lambda>bi. \<not> block_bit (blk s ?m) bi) [0..<min BPB (sz - b)]")
      case None
      have ih: "balloc_spec H k (find (\<lambda>c. \<not> used s2 c) [b + BPB..<sz]) s2 (balloc_loop ROOTDEV (b + BPB) sz s2)"
      proof (rule less.hyps [OF _ L(4) less.prems(2) _ less.prems(4)])
        show "sz - (b + BPB) < sz - b" using True by (simp add: BPB_def BSIZE_def)
        show "BPB dvd b + BPB" using less.prems(3) by simp
        show "responsive s2" "\<not> panicked s2" using less.prems(5,6) tx_stepD(13,14) [OF L(9)] by simp_all
        show "apart H s2 sz" using ap unfolding apart_def u tx_step_BBLOCK [OF L(9)] .
      qed
      show ?thesis
        by (subst balloc_loop.simps)
          (use balloc_spec_later [OF ih [unfolded u] L(5,9,10)] L(1-3) None True fb in simp)
    next
      case (Some bi)
      then have bi: "bi < BPB" "b + bi < sz" and fr: "\<not> block_bit (blk s ?m) bi" by (auto simp: find_Some_iff)
      have q: "(b + bi) mod BPB = bi" "(b + bi) div BPB = b div BPB"
        using less.prems(3) bi by (auto simp: mod_add_left_eq [symmetric] div_plus_div_distrib_dvd_left)
      have M: "?m = BBLOCK (of_nat (b + bi)) s" using q(2) bi less.prems(4) by (subst BBLOCK_eq) simp_all
      have "\<not> used s (b + bi)" using fr M q(1) by (simp only: used_def) simp
      then have nH: "of_nat (b + bi) \<notin> H" using ap bi(2) unfolding apart_def by blast
      show ?thesis
        by (subst balloc_loop.simps)
          (use balloc_found [OF t less.prems(2) m H(1) nH M L(1)] L(1) True fb Some q(1) L(2) in simp)
    qed
  qed
qed


text \<open>The bitmap marks the blocks of the bitmap itself.\<close>

definition bitmap_marked :: "'a fs_state_scheme \<Rightarrow> nat \<Rightarrow> bool" where
  "bitmap_marked s n \<longleftrightarrow> (\<forall>b < n. \<forall>c < n. \<not> used s b \<longrightarrow> of_nat b \<noteq> BBLOCK (of_nat c) s)"

lemma takes_used:
  assumes t: "takes_block b s s'" "tx_step s s'" and ln: "\<And>n. length (blk s n) = BSIZE"
    and bm: "bitmap_marked s n" "\<not> used s b" and b: "b < n" "c < n" "n < 2 ^ 32"
  shows "used s' c \<longleftrightarrow> used s c \<or> c = b"
proof -
  let ?B = "\<lambda>c. BBLOCK (of_nat c) s"
  have ne: "?B c \<noteq> of_nat b" using bm b unfolding bitmap_marked_def by metis
  have "blk s' (?B c) = (if ?B c = ?B b then mark_bit (b mod BPB) (blk s (?B c)) else blk s (?B c))"
    using t(1) ne unfolding takes_block_def by auto
  moreover have "?B c = ?B b \<longleftrightarrow> c div BPB = b div BPB" using b by (intro BBLOCK_eq) simp_all
  moreover have "b mod BPB < BPB" "c mod BPB < BPB" by (simp_all add: BPB_def BSIZE_def)
  moreover have "c = b \<longleftrightarrow> c div BPB = b div BPB \<and> c mod BPB = b mod BPB" by (metis div_mult_mod_eq)
  ultimately show ?thesis
    unfolding used_def tx_step_BBLOCK [OF t(2)] using block_bit_upd(1) [OF ln] by auto
qed

text \<open>C10: \<open>balloc\<close> inside a transaction with room for two blocks.  If the bitmap has a free block, the first
  one is returned: it was not in use, it is now, it is the only block whose mark changed, it holds
  zeros, and every block but it and its bitmap block is as before; both are logged.  If there is none,
  \<open>balloc\<close> says so on the console, returns 0 and changes no block.\<close>

theorem balloc_correct:
  fixes s :: "'a fs_state_scheme"
  defines "n \<equiv> unat (sb_size (sb s))"
  assumes "txn H k s" "2 \<le> k" "responsive s" "\<not> panicked s" "apart H s n" "bitmap_marked s n"
  shows "case find (\<lambda>c. \<not> used s c) [0..<n] of
      None \<Rightarrow> \<exists>s'. balloc ROOTDEV s = Inr (0, s') \<and> txn H k s' \<and> blk s' = blk s
    | Some b \<Rightarrow> \<exists>s'. balloc ROOTDEV s = Inr (of_nat b, s') \<and> txn H (k - 2) s' \<and> \<not> used s b \<and> b < n \<and>
        blk s' (of_nat b) = replicate BSIZE 0 \<and> (\<forall>c < n. used s' c \<longleftrightarrow> used s c \<or> c = b) \<and>
        (\<forall>m. m \<noteq> of_nat b \<longrightarrow> m \<noteq> BBLOCK (of_nat b) s \<longrightarrow> blk s' m = blk s m)"
proof -
  have n: "n < 2 ^ 32" unfolding n_def by (rule order_less_le_trans [OF unsigned_less]) simp
  have sp: "balloc_spec H k (find (\<lambda>c. \<not> used s c) [0..<n]) s (balloc ROOTDEV s)"
    unfolding balloc_def n_def [symmetric] by (rule balloc_loop_spec [OF assms(2,3) _ n assms(4-6)]) simp
  show ?thesis
  proof (cases "find (\<lambda>c. \<not> used s c) [0..<n]")
    case None
    then show ?thesis using sp by (auto simp: balloc_spec_def)
  next
    case (Some b)
    then have b: "b < n" "\<not> used s b" by (auto simp: find_Some_iff)
    from sp Some obtain s' where s': "balloc ROOTDEV s = Inr (of_nat b, s')" "txn H (k - 2) s'" "takes_block b s s'" "tx_step s s'"
      by (auto simp: balloc_spec_def)
    have "used s' c \<longleftrightarrow> used s c \<or> c = b" if "c < n" for c
      by (rule takes_used [OF s'(3,4) blk_length [OF assms(2)] assms(7) b(2,1) that n])
    then show ?thesis using s' b Some unfolding takes_block_def by auto
  qed
qed

section \<open>\<open>bfree\<close>\<close>

lemma bfree_txn:
  assumes t: "txn H k s" "BBLOCK b s \<notin> H" "card H \<le> 3" "BBLOCK b s \<in> set (logged s) \<or> 0 < k" and u: "used s (unat b)"
  obtains s' where "bfree ROOTDEV b s = Inr s'" "txn H (spend (BBLOCK b s) s k) s'" "tx_step s s'"
    "blk s' = (blk s)(BBLOCK b s := clear_bit (unat b mod BPB) (blk s (BBLOCK b s)))" "\<And>c m. holds s c m \<Longrightarrow> holds s' c m"
proof -
  let ?m = "BBLOCK b s"
  have len: "length (clear_bit (unat b mod BPB) (blk s ?m)) = BSIZE" using blk_length [OF t(1)] by simp
  obtain bp s1 s2 s3 where C: "bread ROOTDEV ?m s = Inr (bp, s1)" "b_data (bufs s1 bp) = blk s ?m"
    "log_write bp (set_data bp (clear_bit (unat b mod BPB) (blk s ?m)) s1) = Inr s2" "brelse bp s2 = Inr s3"
    "txn H (spend ?m s k) s3" "blk s3 = (blk s)(?m := clear_bit (unat b mod BPB) (blk s ?m))" "disk s3 = disk s"
    "set (logged s3) = insert ?m (set (logged s))" "tx_step s s1" "tx_step s s3" "\<And>c m. holds s c m \<Longrightarrow> holds s3 c m"
    by (rule txn_change [OF t, of "clear_bit (unat b mod BPB)", OF len]) blast
  show thesis
    by (rule that [OF _ C(5,10,6,11)]) (use C u in \<open>simp_all add: bfree_def log_brelse_def used_def Let_def\<close>)
qed

lemma clears_used:
  assumes "blk s' = (blk s)(BBLOCK b s := clear_bit (unat b mod BPB) (blk s (BBLOCK b s)))" "tx_step s s'"
    and ln: "\<And>n. length (blk s n) = BSIZE" and c: "c < 2 ^ 32"
  shows "used s' c \<longleftrightarrow> used s c \<and> c \<noteq> unat b"
proof -
  have b: "unat b < 2 ^ 32" by (rule order_less_le_trans [OF unsigned_less]) simp
  have e: "BBLOCK (of_nat c) s = BBLOCK b s \<longleftrightarrow> c div BPB = unat b div BPB" using BBLOCK_eq [OF c b, of s] by simp
  have m: "unat b mod BPB < BPB" "c mod BPB < BPB" by (simp_all add: BPB_def BSIZE_def)
  have "c = unat b \<longleftrightarrow> c div BPB = unat b div BPB \<and> c mod BPB = unat b mod BPB" by (metis div_mult_mod_eq)
  then show ?thesis
    unfolding used_def tx_step_BBLOCK [OF assms(2)] assms(1) fun_upd_apply using e block_bit_upd(2) [OF ln m]
    by (cases "c div BPB = unat b div BPB") (simp_all add: conj_commute)
qed

text \<open>C16: \<open>bfree\<close> inside a transaction: a block that is in use becomes free, no other mark changes, no
  block but its bitmap block changes; freeing a block that is free panics.\<close>

theorem bfree_correct:
  assumes "txn H k s" "BBLOCK b s \<notin> H" "card H \<le> 3" "0 < k"
  shows "if used s (unat b)
    then \<exists>s'. bfree ROOTDEV b s = Inr s' \<and> txn H (k - 1) s' \<and> (\<forall>m. m \<noteq> BBLOCK b s \<longrightarrow> blk s' m = blk s m) \<and>
      (\<forall>c < 2 ^ 32. used s' c \<longleftrightarrow> used s c \<and> c \<noteq> unat b)
    else bfree ROOTDEV b s = panic ''freeing free block''"
proof (cases "used s (unat b)")
  case True
  have k: "BBLOCK b s \<in> set (logged s) \<or> 0 < k" using assms(4) by simp
  obtain s' where s': "bfree ROOTDEV b s = Inr s'" "txn H (spend (BBLOCK b s) s k) s'" "tx_step s s'"
    "blk s' = (blk s)(BBLOCK b s := clear_bit (unat b mod BPB) (blk s (BBLOCK b s)))"
    by (rule bfree_txn [OF assms(1-3) k True]) blast
  have "txn H (k - 1) s'" by (rule txn_less [OF s'(2)]) (simp add: spend_def)
  then show ?thesis using True s' clears_used [OF s'(4,3) blk_length [OF assms(1)]] by auto
next
  case False
  obtain bp s1 where "bread ROOTDEV (BBLOCK b s) s = Inr (bp, s1)" "b_data (bufs s1 bp) = blk s (BBLOCK b s)"
    by (rule txn_bread [OF assms(1-3)]) blast
  then show ?thesis using False by (simp add: bfree_def used_def Let_def)
qed

section \<open>A small file system\<close>

text \<open>
  A disk of 1000 blocks with the bitmap in block 45 and the inodes from block 32 on; the first 48
  blocks are in use.  Inode 1 is the root directory with its entries in block 46, inode 2 a file of 1500
  bytes in blocks 47 and 40.  Both are in the table.
\<close>

definition demo_sb :: superblock where
  "demo_sb = \<lparr>sb_magic = FSMAGIC, sb_size = 1000, sb_nblocks = 952, sb_ninodes = 50, sb_nlog = 30, sb_logstart = 2,
     sb_inodestart = 32, sb_bmapstart = 45\<rparr>"

definition demo_bitmap :: "byte list" where
  "demo_bitmap = replicate 6 0xFF @ replicate 1018 0"

definition demo_dir :: "byte list" where
  "demo_dir = [1, 0, 0x2E] @ replicate 13 0 @ [1, 0, 0x2E, 0x2E] @ replicate 12 0 @ [0, 0] @ replicate 14 0 @
     [2, 0, 0x61, 0x62] @ replicate 12 0 @ replicate 960 0"

definition demo_disk :: "u32 \<Rightarrow> byte list" where
  "demo_disk n = (if n = 45 then demo_bitmap else if n = 46 then demo_dir else if n = 47 then replicate 1024 7
     else if n = 40 then replicate 1024 9 else replicate 1024 0)"

definition demo_inode :: "u32 \<Rightarrow> u16 \<Rightarrow> u32 \<Rightarrow> u32 list \<Rightarrow> inode" where
  "demo_inode inum type sz addrs = no_inode\<lparr>i_dev := ROOTDEV, i_inum := inum, i_ref := 1, i_valid := True, i_type := type,
     i_nlink := 1, i_size := sz, i_addrs := addrs @ replicate (61 - length addrs) 0\<rparr>"

definition demo_fs :: fs_state where
  "demo_fs = binit ((log_state.extend blank_log_state (fs_state.fields demo_sb
     ((\<lambda>_. no_inode)(0 := demo_inode 1 T_DIR 64 [46], 1 := demo_inode 2 T_FILE 1500 [47, 40]))))
       \<lparr>disk := demo_disk, lg_n := 0, lg_size := 30, lg_outstanding := 1\<rparr>)"

lemma demo_disk_length [simp]: "length (demo_disk n) = BSIZE"
  by (simp add: demo_disk_def demo_bitmap_def demo_dir_def BSIZE_def)

lemma more_fs: "disk_state.more t = disk_state.more s \<Longrightarrow> sb t = sb s \<and> inodes t = inodes s \<and>
    lg_n t = lg_n s \<and> lg_size t = lg_size s \<and> lg_outstanding t = lg_outstanding s"
  by (cases s; cases t; simp)

lemma demo_more: "sb (binit s) = sb s" "inodes (binit s) = inodes s" "lg_outstanding (binit s) = lg_outstanding s"
  using more_fs [OF binit_disk(5), of s] by simp_all

lemma demo_fields [simp]:
  "disk demo_fs = demo_disk" "sb demo_fs = demo_sb" "lg_n demo_fs = 0" "lg_size demo_fs = 30" "lg_outstanding demo_fs = 1"
  "inodes demo_fs = (\<lambda>_. no_inode)(0 := demo_inode 1 T_DIR 64 [46], 1 := demo_inode 2 T_FILE 1500 [47, 40])"
  by (simp_all add: demo_fs_def demo_more log_state.extend_def fs_state.fields_def)

lemma demo_uart: "uart_dev demo_fs = uart_dev idle_uart" "panicked demo_fs = panicked idle_uart"
proof -
  have b: "uart_dev (binit s) = uart_dev s" "panicked (binit s) = panicked s" for s :: "'a disk_state_scheme"
    by (simp_all add: binit_def fold_frame binit_one_def push_front_def Let_def set_next_def set_prev_def upd_buf_def)
  show "uart_dev demo_fs = uart_dev idle_uart" "panicked demo_fs = panicked idle_uart"
    by (simp_all add: demo_fs_def b log_state.extend_def fs_state.fields_def blank_log_state_def disk_state.extend_def
        log_state.fields_def blank_disk_state_def dev_state.extend_def disk_state.fields_def)
qed

lemma demo_txn: "txn {} 20 demo_fs" "blk demo_fs = demo_disk" "responsive demo_fs" "\<not> panicked demo_fs"
proof -
  have u: "unused_bufs ((log_state.extend blank_log_state (fs_state.fields demo_sb
     ((\<lambda>_. no_inode)(0 := demo_inode 1 T_DIR 64 [46], 1 := demo_inode 2 T_FILE 1500 [47, 40]))))
       \<lparr>disk := demo_disk, lg_n := 0, lg_size := 30, lg_outstanding := 1\<rparr>)"
    by (simp add: unused_bufs_def log_state.extend_def no_buf_def)
  note B = binit_spec [OF u, folded demo_fs_def]
  show bl: "blk demo_fs = demo_disk" using B(4) by simp
  have "logged demo_fs = []" by (simp add: logged_def)
  then show "txn {} 20 demo_fs" using B bl by (simp add: txn_def NBUF_def)
  show "responsive demo_fs" using idle_uart_ready by (simp add: responsive_def demo_uart)
  show "\<not> panicked demo_fs" using idle_uart_ready by (simp add: demo_uart)
qed

lemma demo_used: "b < 1000 \<Longrightarrow> used demo_fs b \<longleftrightarrow> b < 48"
proof -
  assume b: "b < 1000"
  have e: "BBLOCK (of_nat b) demo_fs = 45" using b by (simp add: BBLOCK_nat demo_sb_def BPB_def BSIZE_def)
  have d: "b div 8 < 6 \<longleftrightarrow> b < 48" "b mod 8 < 8" "b div 8 < 1024" "b mod 8192 = b" using b by auto
  have "bit (0xFF :: byte) (b mod 8)"
  proof -
    have "(0xFF :: byte) = mask 8" by (simp add: mask_eq_exp_minus_1)
    then show ?thesis using d(2) by (simp only: bit_mask_iff) (simp add: possible_bit_def)
  qed
  then show ?thesis
    using d by (simp add: used_def demo_txn(2) e demo_disk_def demo_bitmap_def block_bit_def nth_append BPB_def BSIZE_def)
qed

theorem balloc_correct_witness:
  "\<exists>s'. balloc ROOTDEV demo_fs = Inr (48, s') \<and> txn {} 18 s' \<and> blk s' 48 = replicate BSIZE 0 \<and> used s' 48 \<and> \<not> used s' 49"
proof -
  have ap: "apart {} demo_fs (unat (sb_size (sb demo_fs)))" by (simp add: apart_def)
  have "of_nat b \<noteq> (45 :: u32)" if "b < 1000" "\<not> b < 48" for b
    using that of_nat_u32_inj [of b 45] by simp
  moreover have "BBLOCK (of_nat c) demo_fs = 45" if "c < 1000" for c
    using that by (simp add: BBLOCK_nat demo_sb_def BPB_def BSIZE_def)
  ultimately have bm: "bitmap_marked demo_fs (unat (sb_size (sb demo_fs)))"
    unfolding bitmap_marked_def by (auto simp: demo_sb_def demo_used)
  have f: "find (\<lambda>c. \<not> used demo_fs c) [0..<1000] = Some 48" by (rule find_least) (simp_all add: demo_used)
  have "unat (sb_size (sb demo_fs)) = 1000" by (simp add: demo_sb_def)
  then obtain s' where "balloc ROOTDEV demo_fs = Inr (of_nat 48, s')" "txn {} 18 s'" "blk s' (of_nat 48) = replicate BSIZE 0"
      "\<forall>c < 1000. used s' c \<longleftrightarrow> used demo_fs c \<or> c = 48"
    using balloc_correct [OF demo_txn(1) _ demo_txn(3,4) ap bm] f by auto
  then show ?thesis by (auto simp: demo_used)
qed

theorem bfree_correct_witness:
  "(\<exists>s'. bfree ROOTDEV 47 demo_fs = Inr s' \<and> txn {} 19 s' \<and> \<not> used s' 47 \<and> used s' 46) \<and>
   bfree ROOTDEV 48 demo_fs = panic ''freeing free block''"
  using bfree_correct [OF demo_txn(1), of 47] bfree_correct [OF demo_txn(1), of 48] by (auto simp: demo_used)

end
