(* ===== verification/FsInode.thy ===== *)
theory FsInode
  imports FsBlocks
begin

text \<open>
  Inodes, on the disk and in the table of \<^verbatim>\<open>kernel/fs.c\<close>.  An inode written by \<open>iupdate\<close> is the inode \<open>ilock\<close> loads,
  and the other inodes of its block are untouched; the reference counts of the table are the numbers of
  references handed out, so that no inode is in the table twice.
\<close>

section \<open>The inode on the disk\<close>

lemma length_concat_le_bytes: "length (concat (map (le_bytes n) ws)) = n * length ws"
  by (induction ws) simp_all

lemma get_bytes_concat:
  "i < length ws \<Longrightarrow> get_bytes (n * i) n (concat (map (le_bytes n) ws)) = le_bytes n (ws ! i)"
proof (induction ws arbitrary: i)
  case (Cons w ws)
  then show ?case by (cases i) (simp_all add: get_bytes_def)
qed simp

lemma get_bytes_put_bytes:
  assumes "off + length bs \<le> length d" "i + n \<le> length bs"
  shows "get_bytes (off + i) n (put_bytes off bs d) = get_bytes i n bs"
  using assms by (intro nth_equalityI) (auto simp: get_bytes_def nth_put_bytes)

lemma get16_other:
  "off + length bs \<le> length d \<Longrightarrow> k + 2 \<le> off \<or> off + length bs \<le> k \<Longrightarrow> k + 2 \<le> length d \<Longrightarrow>
    get16 k (put_bytes off bs d) = get16 k d"
  "off + length bs \<le> length d \<Longrightarrow> k + 4 \<le> off \<or> off + length bs \<le> k \<Longrightarrow> k + 4 \<le> length d \<Longrightarrow>
    get32 k (put_bytes off bs d) = get32 k d"
  by (simp_all add: get16_def get32_def get_put_other)

lemma get_put_same:
  "off + 2 \<le> length d \<Longrightarrow> get16 off (put_bytes off (le_bytes 2 w) d) = w"
  "off + 4 \<le> length d \<Longrightarrow> get32 off (put_bytes off (le_bytes 4 v) d) = v"
  using get_put(1) [of off d w] get_put(2) [of off d v] by (simp_all add: put16_def put32_def)

lemma put_dinode_get:
  assumes "off + dinode_size \<le> length d" "length (d_addrs x) = Suc NDIRECT"
  shows "get_dinode off (put_dinode off x d) = x" "length (put_dinode off x d) = length d"
proof -
  let ?bs = "concat (map (le_bytes 4) (d_addrs x))"
  have lb: "length ?bs = 244" "length (d_addrs x) = 61" using assms(2) by (simp_all add: length_concat_le_bytes NDIRECT_def)
  have a: "off + 256 \<le> length d" using assms(1) by (simp add: dinode_size_def)
  show len: "length (put_dinode off x d) = length d"
    using a lb unfolding put_dinode_def put16_def put32_def by simp
  have "get32 (off + 12 + 4 * i) (put_dinode off x d) = d_addrs x ! i" if "i < 61" for i
    using a lb that get_bytes_put_bytes [of "off + 12" ?bs _ "4 * i" 4] get_bytes_concat [of i "d_addrs x" 4]
    unfolding put_dinode_def get32_def put16_def put32_def by (simp add: le_word_le_bytes)
  then have "map (\<lambda>i. get32 (off + 12 + 4 * i) (put_dinode off x d)) [0..<61] = d_addrs x"
    using lb by (intro nth_equalityI) simp_all
  moreover have "get16 off (put_dinode off x d) = d_type x" "get16 (off + 2) (put_dinode off x d) = d_major x"
    "get16 (off + 4) (put_dinode off x d) = d_minor x" "get16 (off + 6) (put_dinode off x d) = d_nlink x"
    "get32 (off + 8) (put_dinode off x d) = d_size x"
    using a lb unfolding put_dinode_def put16_def put32_def by (simp_all add: get16_other get_put_same)
  ultimately show "get_dinode off (put_dinode off x d) = x"
    unfolding get_dinode_def NDIRECT_def by (cases x) simp
qed

lemma put_dinode_other:
  assumes "off + dinode_size \<le> length d" "length (d_addrs x) = Suc NDIRECT" "k + dinode_size \<le> length d"
    "k + dinode_size \<le> off \<or> off + dinode_size \<le> k"
  shows "get_dinode k (put_dinode off x d) = get_dinode k d"
proof -
  have lb: "length (concat (map (le_bytes 4) (d_addrs x))) = 244" using assms(2) by (simp add: length_concat_le_bytes NDIRECT_def)
  have a: "off + 256 \<le> length d" "k + 256 \<le> length d" "k + 256 \<le> off \<or> off + 256 \<le> k"
    using assms by (simp_all add: dinode_size_def)
  have len: "length (put_dinode off x d) = length d" by (rule put_dinode_get [OF assms(1,2)])
  have nth: "put_dinode off x d ! i = d ! i" if "i < length d" "i < off \<or> off + 256 \<le> i" for i
    using that(2)
  proof
    assume "i < off"
    then show ?thesis using a(1) lb that(1) unfolding put_dinode_def put16_def put32_def by (simp add: nth_put_bytes)
  next
    assume "off + 256 \<le> i"
    then show ?thesis using a(1) lb that(1) unfolding put_dinode_def put16_def put32_def by (simp add: nth_put_bytes)
  qed
  have g: "get_bytes (k + j) n (put_dinode off x d) = get_bytes (k + j) n d" if "j + n \<le> 256" for j n
    using a that len by (intro nth_equalityI) (auto simp: get_bytes_def nth)
  show ?thesis
    using g [of 0 2] g [of 2 2] unfolding get_dinode_def get16_def get32_def NDIRECT_def by (simp add: g add.assoc)
qed

section \<open>Writing and loading an inode\<close>

text \<open>The inode with number \<open>i\<close> as the file system sees it.\<close>

definition dinode_at :: "'a fs_state_scheme \<Rightarrow> u32 \<Rightarrow> dinode" where
  "dinode_at s i = get_dinode (dinode_off i) (blk s (IBLOCK i s))"

lemma dinode_off_bound: "dinode_off i + dinode_size \<le> BSIZE"
proof -
  have "unat i mod 4 \<le> 3" by simp
  then show ?thesis unfolding dinode_off_def IPB_def BSIZE_def dinode_size_def by simp
qed

lemma IBLOCK_eq: "IBLOCK i s = IBLOCK j s \<longleftrightarrow> unat i div IPB = unat j div IPB"
proof -
  have "i div 4 = j div 4 \<longleftrightarrow> unat (i div 4) = unat (j div 4)" by (rule word_unat_eq_iff)
  then show ?thesis by (simp add: IBLOCK_def IPB_def BSIZE_def dinode_size_def unat_div_distrib)
qed

lemma dinode_off_apart:
  assumes "IBLOCK i s = IBLOCK j s" "i \<noteq> j"
  shows "dinode_off i + dinode_size \<le> dinode_off j \<or> dinode_off j + dinode_size \<le> dinode_off i"
proof -
  have "unat i \<noteq> unat j" "unat i div IPB = unat j div IPB" using assms IBLOCK_eq [of i s j] by (simp_all add: word_unat_eq_iff)
  then have "unat i mod IPB \<noteq> unat j mod IPB" by (metis div_mult_mod_eq)
  then have "unat i mod IPB + 1 \<le> unat j mod IPB \<or> unat j mod IPB + 1 \<le> unat i mod IPB" by linarith
  then show ?thesis unfolding dinode_off_def dinode_size_def by (auto dest: mult_le_mono1 [where k = 256])
qed

lemma iupdate_txn:
  fixes s :: "'a fs_state_scheme" and ip :: nat
  defines "x \<equiv> inodes s ip" and "m \<equiv> IBLOCK (i_inum (inodes s ip)) s"
  assumes t: "txn H k s" "m \<notin> H" "card H \<le> 3" "m \<in> set (logged s) \<or> 0 < k" and dev: "i_dev x = ROOTDEV"
    and len: "length (i_addrs x) = Suc NDIRECT"
  obtains s' where "iupdate ip s = Inr s'" "txn H (spend m s k) s'" "tx_step s s'"
    "blk s' = (blk s)(m := put_dinode (dinode_off (i_inum x)) (disk_part x) (blk s m))"
    "\<And>j. dinode_at s' j = (if j = i_inum x then disk_part x else dinode_at s j)" "\<And>c m. holds s c m \<Longrightarrow> holds s' c m"
proof -
  let ?off = "dinode_off (i_inum x)"
  have la: "length (d_addrs (disk_part x)) = Suc NDIRECT" using len by (simp add: disk_part_def)
  have lb: "length (blk s n) = BSIZE" for n by (rule blk_length [OF t(1)])
  have of: "dinode_off i + dinode_size \<le> length (blk s n)" for i n using dinode_off_bound lb by simp
  note pg = put_dinode_get [OF of la]
  obtain bp s1 s2 s3 where C: "bread ROOTDEV m s = Inr (bp, s1)" "b_data (bufs s1 bp) = blk s m"
    "log_write bp (set_data bp (put_dinode ?off (disk_part x) (blk s m)) s1) = Inr s2" "brelse bp s2 = Inr s3"
    "txn H (spend m s k) s3" "blk s3 = (blk s)(m := put_dinode ?off (disk_part x) (blk s m))" "disk s3 = disk s"
    "set (logged s3) = insert m (set (logged s))" "tx_step s s1" "tx_step s s3" "\<And>c m. holds s c m \<Longrightarrow> holds s3 c m"
    by (rule txn_change [OF t, of "put_dinode ?off (disk_part x)"]) (use pg(2) lb in auto)
  have "dinode_at s3 j = (if j = i_inum x then disk_part x else dinode_at s j)" for j
  proof (cases "j = i_inum x")
    case True
    then show ?thesis unfolding dinode_at_def tx_step_BBLOCK [OF C(10)] C(6) by (simp add: m_def x_def [symmetric] pg(1))
  next
    case False
    show ?thesis
    proof (cases "IBLOCK j s = m")
      case True
      then have "dinode_off j + dinode_size \<le> ?off \<or> ?off + dinode_size \<le> dinode_off j"
        using dinode_off_apart [of j s "i_inum x"] False by (simp add: m_def x_def)
      then show ?thesis unfolding dinode_at_def tx_step_BBLOCK [OF C(10)] C(6)
        using True False put_dinode_other [OF of la of] by simp
    next
      case False
      then show ?thesis using \<open>j \<noteq> i_inum x\<close> unfolding dinode_at_def tx_step_BBLOCK [OF C(10)] C(6) by simp
    qed
  qed
  moreover have "iupdate ip s = Inr s3"
    using C dev unfolding iupdate_def Let_def log_brelse_def x_def [symmetric] m_def [unfolded x_def [symmetric], symmetric]
    by simp
  ultimately show thesis using that C by blast
qed

text \<open>Changes of the inode table do not disturb the blocks.\<close>

lemma inodes_views:
  "bc_ok (s\<lparr>inodes := I\<rparr>) = bc_ok s" "blk (s\<lparr>inodes := I\<rparr>) = blk s" "rc (s\<lparr>inodes := I\<rparr>) = rc s"
  "own (s\<lparr>inodes := I\<rparr>) = own s" "slot (s\<lparr>inodes := I\<rparr>) = slot s"
  by (rule view_cong; simp)+

lemma inodes_txn [simp]:
  "txn H k (s\<lparr>inodes := I\<rparr>) = txn H k s" "blk (s\<lparr>inodes := I\<rparr>) = blk s" "logged (s\<lparr>inodes := I\<rparr>) = logged s"
  "holds (s\<lparr>inodes := I\<rparr>) c m = holds s c m" "dinode_at (s\<lparr>inodes := I\<rparr>) = dinode_at s"
  "IBLOCK i (s\<lparr>inodes := I\<rparr>) = IBLOCK i s" "BBLOCK b (s\<lparr>inodes := I\<rparr>) = BBLOCK b s"
  "mypid (s\<lparr>inodes := I\<rparr>) = mypid s" "used (s\<lparr>inodes := I\<rparr>) = used s"
  by (simp_all add: txn_def holds_def inodes_views logged_def mp_def myproc_def dinode_at_def IBLOCK_def BBLOCK_def
      used_def fun_eq_iff)

lemma inodes_same [simp]: "s\<lparr>inodes := inodes s\<rparr> = s"
  by simp

text \<open>Steps that may also change the inode table.\<close>

definition fs_step :: "'a fs_state_scheme \<Rightarrow> 'a fs_state_scheme \<Rightarrow> bool" where
  "fs_step s s' \<longleftrightarrow> tx_step (s\<lparr>inodes := inodes s'\<rparr>) s'"

lemma fs_stepD:
  assumes "fs_step s s'"
  shows "curproc s' = curproc s" "sb s' = sb s" "pmem s' = pmem s" "mypid s' = mypid s" "myproc s' = myproc s"
    "responsive s' = responsive s" "panicked s' = panicked s" "fs_state.more s' = fs_state.more s"
proof -
  have t: "tx_step (s\<lparr>inodes := inodes s'\<rparr>) s'" using assms by (simp add: fs_step_def)
  note d = tx_stepD [OF t] and f = tx_step_fs [OF t]
  show "curproc s' = curproc s" "sb s' = sb s" "pmem s' = pmem s" "panicked s' = panicked s" "fs_state.more s' = fs_state.more s"
    using d f by simp_all
  show "mypid s' = mypid s" "myproc s' = myproc s" using d(10,11) by (simp_all add: mp_def myproc_def)
  show "responsive s' = responsive s" using d(14) by (simp add: responsive_def)
qed

lemma fs_step_tx: "tx_step s s' \<Longrightarrow> fs_step s s'"
  using tx_step_fs(2) [of s s'] by (simp add: fs_step_def)

lemma fs_step_inodes: "fs_step s (s\<lparr>inodes := I\<rparr>)"
  by (simp add: fs_step_def)

lemma tx_step_put: "tx_step s s' \<Longrightarrow> tx_step (s\<lparr>inodes := I\<rparr>) (s'\<lparr>inodes := I\<rparr>)"
  unfolding tx_step_def by (cases s; cases s') simp

lemma fs_step_trans: "fs_step s t \<Longrightarrow> fs_step t u \<Longrightarrow> fs_step s u"
  unfolding fs_step_def using tx_step_put [of "s\<lparr>inodes := inodes t\<rparr>" t "inodes u"] tx_step_trans by (simp add: ) blast

lemma fs_step_blocks: "fs_step s s' \<Longrightarrow> IBLOCK i s' = IBLOCK i s" "fs_step s s' \<Longrightarrow> BBLOCK b s' = BBLOCK b s"
  by (simp_all add: IBLOCK_def BBLOCK_def fs_stepD)

definition loaded :: "dinode \<Rightarrow> sleeplock \<Rightarrow> inode \<Rightarrow> inode" where
  "loaded d lk x = x\<lparr>i_lock := lk, i_type := d_type d, i_major := d_major d, i_minor := d_minor d, i_nlink := d_nlink d,
     i_size := d_size d, i_addrs := d_addrs d, i_valid := True\<rparr>"

lemma ilock_load:
  fixes s :: "'a fs_state_scheme" and ip :: nat
  defines "x \<equiv> inodes s ip" and "m \<equiv> IBLOCK (i_inum (inodes s ip)) s"
  assumes t: "txn H k s" "m \<notin> H" "card H \<le> 3"
    and x: "i_dev x = ROOTDEV" "1 \<le> i_ref x" "\<not> sl_locked (i_lock x)" "\<not> i_valid x" "d_type (dinode_at s (i_inum x)) \<noteq> 0"
  obtains s' where "ilock (Some ip) s = Inr s'" "txn H k s'" "blk s' = blk s" "fs_step s s'"
    "inodes s' = (inodes s)(ip := loaded (dinode_at s (i_inum x)) \<lparr>sl_locked = True, sl_pid = mypid s\<rparr> x)"
proof -
  let ?lk = "\<lparr>sl_locked = True, sl_pid = mypid s\<rparr>"
  let ?t = "s\<lparr>inodes := (inodes s)(ip := x\<lparr>i_lock := ?lk\<rparr>)\<rparr>"
  have tt: "txn H k ?t" using t(1) by simp
  obtain bp s1 where B: "bread ROOTDEV m ?t = Inr (bp, s1)" "txn (insert m H) k s1" "holds s1 bp m" "blk s1 = blk ?t"
      "b_data (bufs s1 bp) = blk ?t m" "logged s1 = logged ?t" "disk s1 = disk ?t" "tx_step ?t s1"
    by (rule txn_bread [OF tt t(2,3)]) blast
  note i = tx_step_fs(2) [OF B(8)]
  define d where "d = dinode_at s (i_inum x)"
  define I where "I = (inodes s)(ip := (loaded d ?lk x)\<lparr>i_valid := i_valid x\<rparr>)"
  let ?u = "s1\<lparr>inodes := I\<rparr>"
  have u: "txn (insert m H) k ?u" "holds ?u bp m" using B(2,3) by simp_all
  have cl: "m \<in> set (logged ?u) \<or> blk ?u m = disk ?u m" using B(4,6,7) txnD(10) [OF t(1,2)] by auto
  obtain s2 where R: "brelse bp ?u = Inr s2" "txn (insert m H - {m}) k s2" "blk s2 = blk ?u" "tx_step ?u s2"
    by (rule txn_brelse [OF u insertI1 cl]) blast
  have i2: "inodes s2 = I" using tx_step_fs(2) [OF R(4)] by simp
  let ?v = "s2\<lparr>inodes := (inodes s)(ip := loaded d ?lk x)\<rparr>"
  have dd: "get_dinode (dinode_off (i_inum x)) (b_data (bufs s1 bp)) = d"
    using B(5) by (simp add: d_def dinode_at_def m_def x_def)
  have run: "ilock (Some ip) s = Inr ?v"
  proof -
    have a: "acquiresleep (ChInodeLock ip) (i_lock (inodes s ip)) s = Inr ?lk" using x(3) by (simp add: acquiresleep_def x_def)
    have u1: "upd_inode ip (\<lambda>y. y\<lparr>i_lock := ?lk\<rparr>) s = ?t" by (simp add: upd_inode_def x_def)
    have f1: "inodes ?t ip = x\<lparr>i_lock := ?lk\<rparr>" "IBLOCK (i_inum x) ?t = m" by (simp_all add: m_def x_def)
    have s1: "inodes s1 ip = x\<lparr>i_lock := ?lk\<rparr>" using i by simp
    have u2: "upd_inode ip (\<lambda>y. y\<lparr>i_type := d_type d, i_major := d_major d, i_minor := d_minor d, i_nlink := d_nlink d,
        i_size := d_size d, i_addrs := d_addrs d\<rparr>) s1 = ?u"
      using i by (simp add: upd_inode_def I_def loaded_def)
    have u3: "upd_inode ip (\<lambda>y. y\<lparr>i_valid := True\<rparr>) s2 = ?v" using i2 by (simp add: upd_inode_def I_def loaded_def)
    have v: "i_type (inodes ?v ip) \<noteq> 0" using x(5) by (simp add: loaded_def d_def)
    have r: "\<not> i_ref (inodes s ip) < 1" "\<not> i_valid (x\<lparr>i_lock := ?lk\<rparr>)" using x by (simp_all add: x_def)
    have g: "i_dev (x\<lparr>i_lock := l\<rparr>) = i_dev x" "i_inum (x\<lparr>i_lock := l\<rparr>) = i_inum x" "i_valid (x\<lparr>i_lock := l\<rparr>) = i_valid x" for l
      by simp_all
    show ?thesis
      unfolding ilock_def option.case Let_def
      by (simp only: r a bnd_Inr u1 f1 if_False g x(1,4) B(1) prod.case s1 dd u2 R(1) u3 v)
  qed
  have st: "fs_step s ?v"
    using fs_step_trans [OF fs_step_trans [OF fs_step_inodes fs_step_tx [OF B(8)]]
        fs_step_trans [OF fs_step_inodes fs_step_trans [OF fs_step_tx [OF R(4)] fs_step_inodes]]] .
  show thesis by (rule that [OF run _ _ st]) (use R B t(2) in \<open>simp_all add: d_def\<close>)
qed

text \<open>C12: An inode survives on the disk.  \<open>iupdate\<close> writes the fields of the inode in the table to its place
  on the disk and leaves every other inode as it was, also those in the same block; whichever entry of
  the table the inode occupies later, \<open>ilock\<close> of that entry loads exactly the fields that were written.\<close>

theorem iupdate_ilock:
  fixes s :: "'a fs_state_scheme" and ip :: nat
  defines "x \<equiv> inodes s ip"
  assumes "txn {} k s" "0 < k" "i_dev x = ROOTDEV" "length (i_addrs x) = Suc NDIRECT" "i_type x \<noteq> 0"
  shows "\<exists>s1. iupdate ip s = Inr s1 \<and> txn {} (k - 1) s1 \<and> (\<forall>j. j \<noteq> i_inum x \<longrightarrow> dinode_at s1 j = dinode_at s j) \<and>
    (\<forall>jp y. i_dev y = ROOTDEV \<and> i_inum y = i_inum x \<and> 1 \<le> i_ref y \<and> \<not> sl_locked (i_lock y) \<and> \<not> i_valid y \<longrightarrow>
      (\<exists>s2. ilock (Some jp) (s1\<lparr>inodes := (inodes s1)(jp := y)\<rparr>) = Inr s2 \<and>
        disk_part (inodes s2 jp) = disk_part x \<and> i_valid (inodes s2 jp)))"
proof -
  have k: "IBLOCK (i_inum (inodes s ip)) s \<in> set (logged s) \<or> 0 < k" and e: "IBLOCK (i_inum (inodes s ip)) s \<notin> {}" "card {} \<le> 3"
    using assms(3) by simp_all
  obtain s1 where U: "iupdate ip s = Inr s1" "txn {} (spend (IBLOCK (i_inum x) s) s k) s1"
      "\<And>j. dinode_at s1 j = (if j = i_inum x then disk_part x else dinode_at s j)"
    using iupdate_txn [OF assms(2) e k] assms(4,5) unfolding x_def by metis
  have t1: "txn {} (k - 1) s1" by (rule txn_less [OF U(2)]) (simp add: spend_def)
  have "\<exists>s2. ilock (Some jp) (s1\<lparr>inodes := (inodes s1)(jp := y)\<rparr>) = Inr s2 \<and> disk_part (inodes s2 jp) = disk_part x \<and> i_valid (inodes s2 jp)"
    if y: "i_dev y = ROOTDEV" "i_inum y = i_inum x" "1 \<le> i_ref y" "\<not> sl_locked (i_lock y)" "\<not> i_valid y" for jp y
  proof -
    let ?t = "s1\<lparr>inodes := (inodes s1)(jp := y)\<rparr>"
    have t: "txn {} (k - 1) ?t" using t1 by simp
    have d: "dinode_at s1 (i_inum x) = disk_part x" using U(3) by simp
    obtain s2 where "ilock (Some jp) ?t = Inr s2"
        "inodes s2 = (inodes ?t)(jp := loaded (dinode_at ?t (i_inum (inodes ?t jp))) \<lparr>sl_locked = True, sl_pid = mypid ?t\<rparr> (inodes ?t jp))"
      by (rule ilock_load [OF t, of jp]) (use y d assms(6) in \<open>auto simp: disk_part_def\<close>)
    then show ?thesis using y d by (auto simp: loaded_def disk_part_def)
  qed
  then show ?thesis using U t1 by auto
qed

theorem iupdate_ilock_witness:
  "\<exists>s1 s2. iupdate 1 demo_fs = Inr s1 \<and>
     ilock (Some 7) (s1\<lparr>inodes := (inodes s1)(7 := no_inode\<lparr>i_dev := ROOTDEV, i_inum := 2, i_ref := 1\<rparr>)\<rparr>) = Inr s2 \<and>
     i_size (inodes s2 7) = 1500 \<and> i_type (inodes s2 7) = T_FILE"
proof -
  have x: "i_dev (inodes demo_fs 1) = ROOTDEV" "i_inum (inodes demo_fs 1) = 2" "length (i_addrs (inodes demo_fs 1)) = Suc NDIRECT"
    "i_type (inodes demo_fs 1) = T_FILE" "i_size (inodes demo_fs 1) = 1500"
    by (simp_all add: demo_inode_def NDIRECT_def)
  then have ty: "i_type (inodes demo_fs 1) \<noteq> 0" by (simp add: T_FILE_def)
  let ?y = "no_inode\<lparr>i_dev := ROOTDEV, i_inum := 2, i_ref := 1\<rparr>"
  have "i_dev ?y = ROOTDEV \<and> i_inum ?y = i_inum (inodes demo_fs 1) \<and> 1 \<le> i_ref ?y \<and> \<not> sl_locked (i_lock ?y) \<and> \<not> i_valid ?y"
    using x(2) by (simp add: no_inode_def initsleeplock_def)
  moreover obtain s1 where s1: "iupdate 1 demo_fs = Inr s1"
      "\<forall>jp y. i_dev y = ROOTDEV \<and> i_inum y = i_inum (inodes demo_fs 1) \<and> 1 \<le> i_ref y \<and> \<not> sl_locked (i_lock y) \<and> \<not> i_valid y \<longrightarrow>
        (\<exists>s2. ilock (Some jp) (s1\<lparr>inodes := (inodes s1)(jp := y)\<rparr>) = Inr s2 \<and>
          disk_part (inodes s2 jp) = disk_part (inodes demo_fs 1) \<and> i_valid (inodes s2 jp))"
    using iupdate_ilock [OF demo_txn(1) _ x(1,3) ty] by (metis zero_less_numeral)
  ultimately obtain s2 where "ilock (Some 7) (s1\<lparr>inodes := (inodes s1)(7 := ?y)\<rparr>) = Inr s2"
      "disk_part (inodes s2 7) = disk_part (inodes demo_fs 1)"
    by blast
  with s1(1) have "iupdate 1 demo_fs = Inr s1 \<and> ilock (Some 7) (s1\<lparr>inodes := (inodes s1)(7 := ?y)\<rparr>) = Inr s2 \<and>
      disk_part (inodes s2 7) = disk_part (inodes demo_fs 1)" by blast
  then show ?thesis using x(4,5) by (auto simp: disk_part_def)
qed

section \<open>The table of inodes\<close>

text \<open>What the block routines leave alone.\<close>

lemma more_inodes: "disk_state.more s' = disk_state.more s \<Longrightarrow> inodes s' = inodes s"
  using more_fs by blast

lemma io_inodes:
  "bread d n s = Inr (b, s') \<Longrightarrow> inodes s' = inodes s" "brelse b s = Inr s' \<Longrightarrow> inodes s' = inodes s"
  "log_write b s = Inr s' \<Longrightarrow> inodes s' = inodes s" "inodes (set_data b bs s) = inodes s" "inodes (wakeup ch s) = inodes s"
  using bread_more [of d n s b s'] brelse_more [of b s s'] more_inodes
  by (blast, blast, auto simp: log_write_def Let_def bpin_def upd_buf_def set_data_def wakeup_eq split: if_splits)

lemma log_brelse_inodes: "log_brelse b s = Inr s' \<Longrightarrow> inodes s' = inodes s"
  by (auto simp: log_brelse_def bnd_eq_Inr dest!: io_inodes(2,3))

lemma bfree_inodes: "bfree d b s = Inr s' \<Longrightarrow> inodes s' = inodes s"
  by (auto simp: bfree_def bnd_eq_Inr Let_def io_inodes dest!: io_inodes(1) log_brelse_inodes split: if_splits)

lemma iupdate_inodes: "iupdate ip s = Inr s' \<Longrightarrow> inodes s' = inodes s"
  by (auto simp: iupdate_def bnd_eq_Inr Let_def io_inodes dest!: io_inodes(1) log_brelse_inodes)

definition ident :: "'a fs_state_scheme \<Rightarrow> nat \<Rightarrow> u32 \<times> u32 \<times> int" where
  "ident s i = (i_dev (inodes s i), i_inum (inodes s i), i_ref (inodes s i))"

lemma ident_cong: "inodes s' = inodes s \<Longrightarrow> ident s' = ident s"
  by (simp add: ident_def fun_eq_iff)

lemma ident_upd:
  "(\<And>x. i_dev (f x) = i_dev x) \<Longrightarrow> (\<And>x. i_inum (f x) = i_inum x) \<Longrightarrow> (\<And>x. i_ref (f x) = i_ref x) \<Longrightarrow> ident (upd_inode ip f s) = ident s"
  by (simp add: ident_def upd_inode_def fun_eq_iff)

lemma foldM_keeps:
  assumes "\<And>x s s'. f x s = Inr s' \<Longrightarrow> g s' = g s" "foldM f xs s = Inr s'"
  shows "g s' = g s"
  using assms(2)
proof (induction xs arbitrary: s)
  case (Cons x xs)
  then obtain s1 where "f x s = Inr s1" "foldM f xs s1 = Inr s'" by (auto simp: bnd_eq_Inr)
  then show ?case using Cons.IH assms(1) by metis
qed simp

lemma itrunc_parts:
  "itrunc_direct ip i s = Inr s' \<Longrightarrow> ident s' = ident s" "itrunc_indirect ip bp j s = Inr s' \<Longrightarrow> ident s' = ident s"
  by (auto simp: itrunc_direct_def itrunc_indirect_def Let_def bnd_eq_Inr set_addr_def ident_upd
      dest!: bfree_inodes [THEN ident_cong] split: if_splits)

lemma itrunc_ident:
  assumes "itrunc ip s = Inr s'" shows "ident s' = ident s"
proof -
  obtain s1 s2 where t: "foldM (itrunc_direct ip) [0..<NDIRECT] s = Inr s1"
      "(if i_addrs (inodes s1 ip) ! NDIRECT \<noteq> 0 then
            bnd (bread (i_dev (inodes s1 ip)) (i_addrs (inodes s1 ip) ! NDIRECT) s1) (\<lambda>(bp, s).
            bnd (foldM (itrunc_indirect ip bp) [0..<NINDIRECT] s) (\<lambda>s.
            bnd (brelse bp s) (\<lambda>s.
            bnd (bfree (i_dev (inodes s ip)) (i_addrs (inodes s ip) ! NDIRECT) s) (\<lambda>s.
            Inr (set_addr ip NDIRECT 0 s)))))
          else Inr s1) = Inr s2"
      "iupdate ip (upd_inode ip (\<lambda>x. x\<lparr>i_size := 0\<rparr>) s2) = Inr s'"
    using assms unfolding itrunc_def by (auto simp: bnd_eq_Inr)
  have "ident s1 = ident s" by (rule foldM_keeps [OF itrunc_parts(1) t(1)])
  moreover have "ident s2 = ident s1"
  proof -
    have fk: "foldM (itrunc_indirect ip bp) js t = Inr t' \<Longrightarrow> ident t' = ident t" for bp js t t'
      by (rule foldM_keeps [OF itrunc_parts(2)])
    show ?thesis using t(2)
      by (auto simp: bnd_eq_Inr set_addr_def ident_upd dest!: fk io_inodes(1,2) [THEN ident_cong] bfree_inodes [THEN ident_cong] split: if_splits)
  qed
  moreover have "ident s' = ident s2"
    using iupdate_inodes [OF t(3), THEN ident_cong] by (simp add: ident_upd)
  ultimately show ?thesis by simp
qed

lemma iput_ident:
  assumes "iput ip s = Inr s'"
  shows "ident s' = (ident s)(ip := (i_dev (inodes s ip), i_inum (inodes s ip), i_ref (inodes s ip) - 1))"
proof -
  obtain s1 where s1: "ident s1 = ident s" "s' = upd_inode ip (\<lambda>x. x\<lparr>i_ref := i_ref x - 1\<rparr>) s1"
  proof (cases "i_ref (inodes s ip) = 1 \<and> i_valid (inodes s ip) \<and> i_nlink (inodes s ip) = 0")
    case True
    with assms obtain lk s2 s3 where r: "itrunc ip (upd_inode ip (\<lambda>x. x\<lparr>i_lock := lk\<rparr>) s) = Inr s2"
        "iupdate ip (upd_inode ip (\<lambda>x. x\<lparr>i_type := 0\<rparr>) s2) = Inr s3"
        "\<exists>lk. s' = upd_inode ip (\<lambda>x. x\<lparr>i_ref := i_ref x - 1\<rparr>) (upd_inode ip (\<lambda>x. x\<lparr>i_lock := lk\<rparr>)
           (wakeup (ChInodeLock ip) (upd_inode ip (\<lambda>x. x\<lparr>i_valid := False\<rparr>) s3)))"
      unfolding iput_def releasesleep_def Let_def by (auto simp: bnd_eq_Inr)
    have "ident s3 = ident s"
      using itrunc_ident [OF r(1)] iupdate_inodes [OF r(2), THEN ident_cong] by (simp add: ident_upd)
    moreover from r(3) obtain lk' where "s' = upd_inode ip (\<lambda>x. x\<lparr>i_ref := i_ref x - 1\<rparr>) (upd_inode ip (\<lambda>x. x\<lparr>i_lock := lk'\<rparr>)
           (wakeup (ChInodeLock ip) (upd_inode ip (\<lambda>x. x\<lparr>i_valid := False\<rparr>) s3)))" by blast
    ultimately show thesis by (intro that) (simp_all add: ident_upd ident_cong [OF io_inodes(5)])
  next
    case False
    have "s' = upd_inode ip (\<lambda>x. x\<lparr>i_ref := i_ref x - 1\<rparr>) s"
      using assms unfolding iput_def if_not_P [OF False] by simp
    then show thesis using that [of s] by simp
  qed
  have f: "i_dev (inodes s1 i) = i_dev (inodes s i)" "i_inum (inodes s1 i) = i_inum (inodes s i)" "i_ref (inodes s1 i) = i_ref (inodes s i)" for i
    using fun_cong [OF s1(1), of i] by (simp_all add: ident_def)
  show ?thesis unfolding s1(2) by (auto simp: ident_def upd_inode_def fun_eq_iff f)
qed

text \<open>
  The users of the table: \<open>h ip\<close> is the number of references to entry \<open>ip\<close> handed out by \<open>iget\<close> and \<open>idup\<close> and not
  yet given back to \<open>iput\<close>.  Everything else the kernel does keeps the identity and the count of the
  entries.
\<close>

inductive istep :: "'a fs_state_scheme \<times> (nat \<Rightarrow> nat) \<Rightarrow> 'a fs_state_scheme \<times> (nat \<Rightarrow> nat) \<Rightarrow> bool" where
  is_get: "iget dev inum s = Inr (ip, s') \<Longrightarrow> istep (s, h) (s', h(ip := h ip + 1))"
| is_dup: "0 < h ip \<Longrightarrow> istep (s, h) (idup ip s, h(ip := h ip + 1))"
| is_put: "0 < h ip \<Longrightarrow> iput ip s = Inr s' \<Longrightarrow> istep (s, h) (s', h(ip := h ip - 1))"
| is_other: "ident s' = ident s \<Longrightarrow> istep (s, h) (s', h)"

inductive ireach :: "'a fs_state_scheme \<Rightarrow> 'a fs_state_scheme \<times> (nat \<Rightarrow> nat) \<Rightarrow> bool" for s0 :: "'a fs_state_scheme" where
  ireach_init: "ireach s0 (s0, \<lambda>_. 0)"
| ireach_step: "ireach s0 x \<Longrightarrow> istep x y \<Longrightarrow> ireach s0 y"

definition itable_ok :: "'a fs_state_scheme \<times> (nat \<Rightarrow> nat) \<Rightarrow> bool" where
  "itable_ok x \<longleftrightarrow> (case x of (s, h) \<Rightarrow> (\<forall>i. i_ref (inodes s i) = int (h i)) \<and> (\<forall>i. 0 < h i \<longrightarrow> i < NINODE) \<and>
     (\<forall>i j. 0 < h i \<longrightarrow> 0 < h j \<longrightarrow> i_dev (inodes s i) = i_dev (inodes s j) \<longrightarrow> i_inum (inodes s i) = i_inum (inodes s j) \<longrightarrow> i = j))"

lemma identD:
  "ident s' = ident s \<Longrightarrow> i_dev (inodes s' i) = i_dev (inodes s i) \<and> i_inum (inodes s' i) = i_inum (inodes s i) \<and>
    i_ref (inodes s' i) = i_ref (inodes s i)"
  by (drule fun_cong [of _ _ i]) (simp add: ident_def)

text \<open>\<open>iget\<close> either finds the entry of the inode or takes one that nobody refers to.\<close>

lemma iget_cases:
  assumes "iget dev inum s = Inr (ip, s')"
  obtains
    (found) "ip < NINODE" "0 < i_ref (inodes s ip)" "i_dev (inodes s ip) = dev" "i_inum (inodes s ip) = inum"
      "inodes s' = (inodes s)(ip := (inodes s ip)\<lparr>i_ref := i_ref (inodes s ip) + 1\<rparr>)"
  | (fresh) "ip < NINODE" "i_ref (inodes s ip) = 0"
      "\<forall>i < NINODE. 0 < i_ref (inodes s i) \<longrightarrow> i_dev (inodes s i) \<noteq> dev \<or> i_inum (inodes s i) \<noteq> inum"
      "inodes s' = (inodes s)(ip := (inodes s ip)\<lparr>i_dev := dev, i_inum := inum, i_ref := 1, i_valid := False\<rparr>)"
proof (cases "find (\<lambda>i. i_ref (inodes s i) > 0 \<and> i_dev (inodes s i) = dev \<and> i_inum (inodes s i) = inum) [0..<NINODE]")
  case (Some i)
  then show thesis using assms found find_SomeD [OF Some] by (auto simp: iget_def upd_inode_def)
next
  case None
  then obtain i where i: "find (\<lambda>i. i_ref (inodes s i) = 0) [0..<NINODE] = Some i"
    using assms by (auto simp: iget_def split: option.splits)
  then show thesis using assms None fresh find_SomeD [OF i] by (auto simp: iget_def upd_inode_def find_None_iff)
qed

lemma itable_step:
  assumes "istep x y" "itable_ok x" shows "itable_ok y"
  using assms
proof (cases rule: istep.cases)
  case (is_get dev inum s ip s' h)
  have ok: "\<And>i. i_ref (inodes s i) = int (h i)" "\<And>i. 0 < h i \<Longrightarrow> i < NINODE"
    and u: "\<And>i j. 0 < h i \<Longrightarrow> 0 < h j \<Longrightarrow> i_dev (inodes s i) = i_dev (inodes s j) \<Longrightarrow> i_inum (inodes s i) = i_inum (inodes s j) \<Longrightarrow> i = j"
    using assms(2) is_get(1) unfolding itable_ok_def by blast+
  from is_get(3) show ?thesis
  proof (cases rule: iget_cases)
    case found
    then show ?thesis using ok u is_get(2) unfolding itable_ok_def by auto
  next
    case fresh
    then have "h ip = 0" using ok(1) [of ip] by simp
    moreover have "i_dev (inodes s i) \<noteq> dev \<or> i_inum (inodes s i) \<noteq> inum" if "0 < h i" for i
      using fresh(3) ok(1) [of i] ok(2) [OF that] that by simp
    ultimately show ?thesis using ok u fresh(1,4) is_get(2) unfolding itable_ok_def by auto
  qed
next
  case (is_dup h ip s)
  then show ?thesis using assms(2) unfolding itable_ok_def idup_def upd_inode_def by auto
next
  case (is_put h ip s s')
  have e: "i_dev (inodes s' i) = i_dev (inodes s i)" "i_inum (inodes s' i) = i_inum (inodes s i)"
    "i_ref (inodes s' i) = (if i = ip then i_ref (inodes s i) - 1 else i_ref (inodes s i))" for i
    using fun_cong [OF iput_ident [OF is_put(4)], of i] by (auto simp: ident_def split: if_splits)
  show ?thesis using assms(2) is_put(1-3) unfolding itable_ok_def by (auto simp: e of_nat_diff split: if_splits)
next
  case (is_other s' s h)
  then show ?thesis using assms(2) identD [OF is_other(3)] unfolding itable_ok_def by simp
qed

lemma itable_reach: "ireach s0 x \<Longrightarrow> \<forall>i. i_ref (inodes s0 i) = 0 \<Longrightarrow> itable_ok x"
  by (induction rule: ireach.induct) (simp add: itable_ok_def, blast intro: itable_step)

text \<open>C11: The table of inodes is well formed whatever its users do.  In every sequence of \<open>iget\<close>,
  \<open>idup\<close> and \<open>iput\<close> from an empty table, in which only references handed out are given back, the count of an
  entry is the number of its references; no inode is in two entries that are referred to; and a step
  never changes which inode a referred entry stands for.\<close>

theorem itable_references:
  assumes "ireach s0 (s, h)" "\<forall>i. i_ref (inodes s0 i) = 0"
  shows "(\<forall>i. i_ref (inodes s i) = int (h i)) \<and>
    (\<forall>i j. 0 < h i \<longrightarrow> 0 < h j \<longrightarrow> i_dev (inodes s i) = i_dev (inodes s j) \<longrightarrow> i_inum (inodes s i) = i_inum (inodes s j) \<longrightarrow> i = j) \<and>
    (\<forall>s' h' i. istep (s, h) (s', h') \<longrightarrow> 0 < h i \<longrightarrow>
      i_dev (inodes s' i) = i_dev (inodes s i) \<and> i_inum (inodes s' i) = i_inum (inodes s i))"
proof -
  have ok: "itable_ok (s, h)" by (rule itable_reach [OF assms])
  have "i_dev (inodes s' i) = i_dev (inodes s i) \<and> i_inum (inodes s' i) = i_inum (inodes s i)"
    if "istep (s, h) (s', h')" "0 < h i" for s' h' i
    using that(1)
  proof (cases rule: istep.cases)
    case (is_get dev inum ip)
    have "i_ref (inodes s i) \<noteq> 0" using ok that(2) by (simp add: itable_ok_def)
    with is_get(2) show ?thesis by (cases rule: iget_cases) auto
  next
    case (is_put ip)
    then show ?thesis using fun_cong [OF iput_ident [OF is_put(3)], of i] by (auto simp: ident_def split: if_splits)
  next
    case is_other
    then show ?thesis using identD by blast
  qed (auto simp: idup_def upd_inode_def)
  then show ?thesis using ok unfolding itable_ok_def by blast
qed

theorem itable_references_witness:
  "\<exists>s h. ireach (demo_fs\<lparr>inodes := \<lambda>_. no_inode\<rparr>) (s, h) \<and> h 0 = 2 \<and> i_ref (inodes s 0) = 2 \<and> i_inum (inodes s 0) = 5"
proof -
  let ?s0 = "demo_fs\<lparr>inodes := \<lambda>_. no_inode\<rparr>"
  let ?s1 = "upd_inode 0 (\<lambda>x. x\<lparr>i_dev := 1, i_inum := 5, i_ref := 1, i_valid := False\<rparr>) ?s0"
  have f: "find (\<lambda>i. i_ref no_inode > 0 \<and> Q i) xs = None" "find (\<lambda>i. i_ref no_inode = 0) [0..<50] = Some 0" for Q and xs :: "nat list"
    by (simp_all add: find_None_iff no_inode_def upt_conv_Cons)
  have "iget 1 5 ?s0 = Inr (0, ?s1)" using f by (simp add: iget_def NINODE_def)
  then have "ireach ?s0 (?s1, (\<lambda>_. 0)(0 := 1))"
    by (intro ireach_step [OF ireach_init]) (use is_get [of 1 5 ?s0 0 ?s1 "\<lambda>_. 0"] in simp)
  then have r: "ireach ?s0 (idup 0 ?s1, (\<lambda>_. 0)(0 := 2))"
    by (rule ireach_step) (use is_dup [of "(\<lambda>_. 0)(0 := 1)" 0 ?s1] in \<open>simp add: numeral_2_eq_2\<close>)
  have "\<forall>i. i_ref (inodes ?s0 i) = 0" by (simp add: no_inode_def)
  from itable_references [OF r this] have "i_ref (inodes (idup 0 ?s1) 0) = 2" by simp
  moreover have "i_inum (inodes (idup 0 ?s1) 0) = 5" by (simp add: idup_def upd_inode_def)
  ultimately show ?thesis using r by (intro exI [of _ "idup 0 ?s1"] exI [of _ "(\<lambda>_. 0)(0 := 2)"]) simp
qed

end
