(* ===== verification/FsFile.thy ===== *)
theory FsFile
  imports FsInode
begin

text \<open>
  The contents of a file: \<open>bmap\<close>, \<open>readi\<close> and \<open>writei\<close> of \<^verbatim>\<open>kernel/fs.c\<close> on blocks that are allocated.  A byte of
  a file is a byte of the block its inode names, directly or through the indirect block; \<open>readi\<close> returns
  these bytes and \<open>writei\<close> changes the bytes of its range and no others.
\<close>

section \<open>The blocks of a file\<close>

definition addr_of :: "'a fs_state_scheme \<Rightarrow> nat \<Rightarrow> nat \<Rightarrow> u32" where
  "addr_of s ip bn = (if bn < NDIRECT then i_addrs (inodes s ip) ! bn
     else get32 (4 * (bn - NDIRECT)) (blk s (i_addrs (inodes s ip) ! NDIRECT)))"

definition bmapped :: "'a fs_state_scheme \<Rightarrow> nat \<Rightarrow> nat \<Rightarrow> bool" where
  "bmapped s ip bn \<longleftrightarrow> bn < MAXFILE \<and> addr_of s ip bn \<noteq> 0 \<and> (NDIRECT \<le> bn \<longrightarrow> i_addrs (inodes s ip) ! NDIRECT \<noteq> 0)"

definition file_byte :: "'a fs_state_scheme \<Rightarrow> nat \<Rightarrow> nat \<Rightarrow> byte" where
  "file_byte s ip i = blk s (addr_of s ip (i div BSIZE)) ! (i mod BSIZE)"

lemma file_view_cong:
  assumes "blk s' = blk s" "inodes s' = inodes s"
  shows "addr_of s' = addr_of s" "bmapped s' = bmapped s" "file_byte s' = file_byte s"
proof -
  show a: "addr_of s' = addr_of s" by (simp add: addr_of_def fun_eq_iff assms)
  show "bmapped s' = bmapped s" "file_byte s' = file_byte s" by (simp_all add: bmapped_def file_byte_def fun_eq_iff assms a)
qed

lemma bmap_txn:
  assumes t: "txn H k s" "card H \<le> 3" and m: "bmapped s ip bn" and dev: "i_dev (inodes s ip) = ROOTDEV"
    and nH: "NDIRECT \<le> bn \<Longrightarrow> i_addrs (inodes s ip) ! NDIRECT \<notin> H"
  obtains s' where "bmap ip (of_nat bn) s = Inr (addr_of s ip bn, s')" "txn H k s'" "blk s' = blk s" "logged s' = logged s" "tx_step s s'"
proof -
  have bn: "bn < 316" using m by (simp add: bmapped_def MAXFILE_def NDIRECT_def NINDIRECT_def BSIZE_def)
  have u: "unat (of_nat bn :: u32) = bn" using bn by (simp add: unat_of_nat take_bit_nat_eq_self)
  show thesis
  proof (cases "bn < NDIRECT")
    case True
    then show thesis using that [of s] t m u by (simp add: bmap_def bmapped_def addr_of_def)
  next
    case False
    let ?a = "i_addrs (inodes s ip) ! NDIRECT"
    have a: "?a \<noteq> 0" "?a \<notin> H" using False m nH by (simp_all add: bmapped_def)
    obtain b s1 s' where L: "bread ROOTDEV ?a s = Inr (b, s1)" "b_data (bufs s1 b) = blk s ?a" "brelse b s1 = Inr s'"
        "txn H k s'" "blk s' = blk s" "disk s' = disk s" "logged s' = logged s" "tx_step s s1" "tx_step s s'"
      by (rule txn_look [OF t(1) a(2) t(2)]) blast
    have r: "bn - NDIRECT < NINDIRECT" using bn by (simp add: NDIRECT_def NINDIRECT_def BSIZE_def)
    have "get32 (4 * (bn - NDIRECT)) (blk s ?a) = addr_of s ip bn" "addr_of s ip bn \<noteq> 0"
      using False m by (simp_all add: addr_of_def bmapped_def)
    then have "bmap ip (of_nat bn) s = Inr (addr_of s ip bn, s')"
      unfolding bmap_def Let_def u using False r a(1) dev L(1-3) by simp
    then show thesis by (rule that [OF _ L(4,5,7,9)])
  qed
qed

section \<open>Reading\<close>

lemma bytes_in_block:
  assumes "m \<le> BSIZE - off mod BSIZE" "length (blk s (addr_of s ip (off div BSIZE))) = BSIZE"
  shows "get_bytes (off mod BSIZE) m (blk s (addr_of s ip (off div BSIZE))) = map (file_byte s ip) [off..<off + m]"
proof (intro nth_equalityI)
  have b: "off mod BSIZE < BSIZE" by (simp add: BSIZE_def)
  then show "length (get_bytes (off mod BSIZE) m (blk s (addr_of s ip (off div BSIZE)))) = length (map (file_byte s ip) [off..<off + m])"
    using assms by (simp add: get_bytes_def)
  fix i
  assume "i < length (get_bytes (off mod BSIZE) m (blk s (addr_of s ip (off div BSIZE))))"
  then have i: "i < m" "off mod BSIZE + i < BSIZE" using assms by (auto simp: get_bytes_def)
  have q: "(off + i) div BSIZE = off div BSIZE" "(off + i) mod BSIZE = off mod BSIZE + i"
  proof -
    have "off + i = off div BSIZE * BSIZE + (off mod BSIZE + i)" by simp
    then show "(off + i) div BSIZE = off div BSIZE" "(off + i) mod BSIZE = off mod BSIZE + i"
      using i(2) by (metis div_mult_self3 div_less add_0 less_nat_zero_code add.commute, metis mod_mult_self3 mod_less)
  qed
  show "get_bytes (off mod BSIZE) m (blk s (addr_of s ip (off div BSIZE))) ! i = map (file_byte s ip) [off..<off + m] ! i"
    using i assms q by (simp add: get_bytes_def file_byte_def)
qed

lemma readi_loop_txn:
  assumes "txn {} k s" "tot \<le> n" "i_dev (inodes s ip) = ROOTDEV"
    "\<forall>i. off \<le> i \<longrightarrow> i < off + (n - tot) \<longrightarrow> bmapped s ip (i div BSIZE)"
  shows "\<exists>s'. readi_loop ip ToLocal off tot n s = Inr (int n, map (file_byte s ip) [off..<off + (n - tot)], s') \<and>
    txn {} k s' \<and> blk s' = blk s \<and> logged s' = logged s \<and> tx_step s s'"
  using assms
proof (induction "n - tot" arbitrary: off tot s rule: less_induct)
  case less
  note t = less.prems(1)
  show ?case
  proof (cases "tot < n")
    case False
    then show ?thesis using less.prems by (subst readi_loop.simps) auto
  next
    case True
    let ?bn = "off div BSIZE"
    define m where "m = min (n - tot) (BSIZE - off mod BSIZE)"
    have m: "0 < m" "m \<le> n - tot" "m \<le> BSIZE - off mod BSIZE" using True by (simp_all add: m_def BSIZE_def)
    have mp: "bmapped s ip ?bn" using less.prems(4) True by simp
    obtain s1 where B: "bmap ip (of_nat ?bn) s = Inr (addr_of s ip ?bn, s1)" "txn {} k s1" "blk s1 = blk s" "logged s1 = logged s" "tx_step s s1"
      by (rule bmap_txn [OF t _ mp less.prems(3)]) auto
    obtain b s2 s3 where L: "bread ROOTDEV (addr_of s ip ?bn) s1 = Inr (b, s2)" "b_data (bufs s2 b) = blk s1 (addr_of s ip ?bn)"
        "brelse b s2 = Inr s3" "txn {} k s3" "blk s3 = blk s1" "logged s3 = logged s1" "tx_step s1 s3"
      by (rule txn_look [OF B(2), of "addr_of s ip ?bn"]) auto
    have i: "inodes s1 = inodes s" "inodes s3 = inodes s" using tx_step_fs(2) [OF B(5)] tx_step_fs(2) [OF L(7)] by simp_all
    have b3: "blk s3 = blk s" using L(5) B(3) by simp
    note c = file_view_cong [OF b3 i(2)]
    obtain s' where R: "readi_loop ip ToLocal (off + m) (tot + m) n s3 =
        Inr (int n, map (file_byte s3 ip) [off + m..<off + m + (n - (tot + m))], s')"
        "txn {} k s'" "blk s' = blk s3" "logged s' = logged s3" "tx_step s3 s'"
    proof -
      have p: "n - (tot + m) < n - tot" "tot + m \<le> n" "i_dev (inodes s3 ip) = ROOTDEV"
        "\<forall>i. off + m \<le> i \<longrightarrow> i < off + m + (n - (tot + m)) \<longrightarrow> bmapped s3 ip (i div BSIZE)"
        using m less.prems(3,4) True unfolding i c by auto
      show thesis using less.hyps [OF p(1) L(4) p(2-4)] that by blast
    qed
    have by1: "get_bytes (off mod BSIZE) m (blk s (addr_of s ip ?bn)) = map (file_byte s ip) [off..<off + m]"
      by (rule bytes_in_block [OF m(3) blk_length [OF t]])
    have sp: "map (file_byte s ip) [off..<off + m] @ map (file_byte s ip) [off + m..<off + m + (n - (tot + m))] =
        map (file_byte s ip) [off..<off + (n - tot)]"
    proof -
      have "off + m + (n - (tot + m)) = off + (n - tot)" using m(2) by simp
      then have "[off..<off + (n - tot)] = [off..<off + m] @ [off + m..<off + m + (n - (tot + m))]"
        using upt_add_eq_append [of off "off + m" "n - (tot + m)"] by (metis le_add1)
      then show ?thesis by (simp only: map_append)
    qed
    have "readi_loop ip ToLocal off tot n s = Inr (int n, map (file_byte s ip) [off..<off + (n - tot)], s')"
      by (subst readi_loop.simps)
        (use True B(1,3) L(1-3) i R(1) by1 sp mp less.prems(3) in \<open>simp add: Let_def c bmapped_def m_def [symmetric]\<close>)
    then show ?thesis using R B L tx_step_trans [OF tx_step_trans [OF B(5) L(7)] R(5)] by auto
  qed
qed

definition file_ok :: "'a fs_state_scheme \<Rightarrow> nat \<Rightarrow> nat \<Rightarrow> bool" where
  "file_ok s ip N \<longleftrightarrow> i_dev (inodes s ip) = ROOTDEV \<and> length (i_addrs (inodes s ip)) = Suc NDIRECT \<and>
     (\<forall>bn < N. bmapped s ip bn) \<and> inj_on (addr_of s ip) {..<N} \<and> i_addrs (inodes s ip) ! NDIRECT \<noteq> IBLOCK (i_inum (inodes s ip)) s \<and>
     (\<forall>bn < N. addr_of s ip bn \<noteq> i_addrs (inodes s ip) ! NDIRECT \<and> addr_of s ip bn \<noteq> IBLOCK (i_inum (inodes s ip)) s)"

lemma file_okD:
  assumes "file_ok s ip N"
  shows "i_dev (inodes s ip) = ROOTDEV" "length (i_addrs (inodes s ip)) = Suc NDIRECT" "bn < N \<Longrightarrow> bmapped s ip bn"
    "bn < N \<Longrightarrow> bn' < N \<Longrightarrow> addr_of s ip bn = addr_of s ip bn' \<longleftrightarrow> bn = bn'"
    "bn < N \<Longrightarrow> addr_of s ip bn \<noteq> i_addrs (inodes s ip) ! NDIRECT" "bn < N \<Longrightarrow> addr_of s ip bn \<noteq> IBLOCK (i_inum (inodes s ip)) s"
    "i_addrs (inodes s ip) ! NDIRECT \<noteq> IBLOCK (i_inum (inodes s ip)) s"
  using assms by (auto simp: file_ok_def inj_on_eq_iff)

text \<open>How much \<open>readi\<close> and \<open>writei\<close> move: everything up to the end of the file.\<close>

lemma readi_txn:
  assumes t: "txn {} k s" and f: "file_ok s ip N" and N: "unat (i_size (inodes s ip)) \<le> N * BSIZE"
    and off: "off \<le> i_size (inodes s ip)" "unat off + unat n < 2 ^ 32"
  defines "r \<equiv> min (unat n) (unat (i_size (inodes s ip)) - unat off)"
  shows "\<exists>s'. readi ip ToLocal off n s = Inr (int r, map (file_byte s ip) [unat off..<unat off + r], s') \<and>
    txn {} k s' \<and> blk s' = blk s \<and> logged s' = logged s \<and> tx_step s s'"
proof -
  let ?sz = "i_size (inodes s ip)"
  have a: "unat (off + n) = unat off + unat n" using off(2) by (simp add: unat_add_lem [symmetric])
  have nw: "\<not> off + n < off" by (simp add: word_less_nat_alt a)
  let ?n = "if off + n > ?sz then ?sz - off else n"
  have n: "unat ?n = r"
    using off(1) a by (auto simp: r_def word_less_nat_alt word_le_nat_alt unat_sub)
  have "bmapped s ip (i div BSIZE)" if "i < unat off + r" for i
  proof -
    have "i < N * BSIZE" using that N off(1) by (auto simp: r_def word_le_nat_alt)
    then show ?thesis using file_okD(3) [OF f] by (simp add: less_mult_imp_div_less)
  qed
  then obtain s' where "readi_loop ip ToLocal (unat off) 0 r s = Inr (int r, map (file_byte s ip) [unat off..<unat off + r], s')"
      "txn {} k s'" "blk s' = blk s" "logged s' = logged s" "tx_step s s'"
    using readi_loop_txn [OF t, of 0 r ip "unat off"] file_okD(1) [OF f] by auto
  moreover have "readi ip ToLocal off n s = readi_loop ip ToLocal (unat off) 0 (unat ?n) s"
  proof -
    have "\<not> (off > ?sz \<or> off + n < off)" using off(1) nw by (simp add: not_less)
    then show ?thesis unfolding readi_def Let_def by (simp only: if_False)
  qed
  ultimately show ?thesis unfolding n by auto
qed

text \<open>C14: \<open>readi\<close> returns the bytes of the file: on a file whose blocks are allocated it delivers exactly the
  bytes from the offset up to the end of the file or the number asked for, across block boundaries
  and through the indirect block, and changes nothing; an offset past the end, or a range that wraps
  around, delivers nothing.\<close>

theorem readi_correct:
  assumes "txn {} k s" "file_ok s ip N" "unat (i_size (inodes s ip)) \<le> N * BSIZE"
  shows "if off > i_size (inodes s ip) \<or> off + n < off then readi ip ToLocal off n s = Inr (0, [], s)
    else let r = min (unat n) (unat (i_size (inodes s ip)) - unat off) in
      \<exists>s'. readi ip ToLocal off n s = Inr (int r, map (file_byte s ip) [unat off..<unat off + r], s') \<and>
        txn {} k s' \<and> blk s' = blk s \<and> inodes s' = inodes s"
proof (cases "off > i_size (inodes s ip) \<or> off + n < off")
  case True
  then show ?thesis by (simp add: readi_def)
next
  case False
  then have o: "off \<le> i_size (inodes s ip)" "off \<le> off + n" by (simp_all add: not_less)
  have "unat off + unat n < 2 ^ 32" using o(2) by (simp add: no_plus_overflow_unat_size word_size)
  from readi_txn [OF assms o(1) this] False show ?thesis unfolding Let_def if_not_P [OF False] using tx_step_fs(2) by blast
qed

lemma demo_file: "addr_of demo_fs (Suc 0) 0 = 47" "addr_of demo_fs (Suc 0) (Suc 0) = 40" "IBLOCK 2 demo_fs = 32"
    "i_size (inodes demo_fs (Suc 0)) = 1500"
  by (simp_all add: addr_of_def demo_inode_def NDIRECT_def IBLOCK_def demo_sb_def IPB_def BSIZE_def dinode_size_def)

lemma demo_file_ok: "file_ok demo_fs (Suc 0) 2"
proof -
  have x: "i_dev (inodes demo_fs (Suc 0)) = ROOTDEV" "length (i_addrs (inodes demo_fs (Suc 0))) = 61"
    "i_addrs (inodes demo_fs (Suc 0)) ! 60 = 0" "i_inum (inodes demo_fs (Suc 0)) = 2"
    by (simp_all add: demo_inode_def nth_append)
  have "bmapped demo_fs (Suc 0) bn" "addr_of demo_fs (Suc 0) bn \<noteq> 0" "addr_of demo_fs (Suc 0) bn \<noteq> 32" if "bn < 2" for bn
    using less_2_cases [OF that] demo_file by (auto simp: bmapped_def NDIRECT_def MAXFILE_def)
  moreover have "inj_on (addr_of demo_fs (Suc 0)) {..<2}"
    using demo_file by (auto simp: inj_on_def dest!: less_2_cases)
  ultimately show ?thesis unfolding file_ok_def using x demo_file(3) by (simp add: NDIRECT_def)
qed

theorem readi_correct_witness:
  "\<exists>s'. readi 1 ToLocal 1022 4 demo_fs = Inr (4, [7, 7, 9, 9], s')"
proof -
  obtain s' where "readi 1 ToLocal 1022 4 demo_fs = Inr (4, map (file_byte demo_fs 1) [1022..<1026], s')"
    using readi_correct [OF demo_txn(1) demo_file_ok, of 1022 4] demo_file(4) by (auto simp: BSIZE_def Let_def)
  moreover have "map (file_byte demo_fs 1) [1022..<1026] = [7, 7, 9, 9]"
    by (simp add: upt_conv_Cons file_byte_def BSIZE_def demo_file demo_txn(2) demo_disk_def)
  ultimately show ?thesis by simp
qed

section \<open>Writing\<close>

text \<open>\<open>stores\<close>: from \<open>s\<close> to \<open>s'\<close> the bytes \<open>bs\<close> have been stored in the file at \<open>off\<close>, and nothing else has changed.\<close>

definition stores :: "nat \<Rightarrow> nat \<Rightarrow> nat \<Rightarrow> byte list \<Rightarrow> 'a fs_state_scheme \<Rightarrow> 'a fs_state_scheme \<Rightarrow> bool" where
  "stores ip N off bs s s' \<longleftrightarrow>
     (\<forall>b. b \<notin> addr_of s ip ` {..<N} \<longrightarrow> blk s' b = blk s b) \<and>
     (\<forall>i < N * BSIZE. file_byte s' ip i = (if off \<le> i \<and> i < off + length bs then bs ! (i - off) else file_byte s ip i))"

lemma addr_of_kept:
  assumes f: "file_ok s ip N" and i: "inodes s' = inodes s" and b: "\<And>b. b \<notin> addr_of s ip ` {..<N} \<Longrightarrow> blk s' b = blk s b"
  shows "addr_of s' ip = addr_of s ip"
proof -
  have "i_addrs (inodes s ip) ! NDIRECT \<notin> addr_of s ip ` {..<N}" using file_okD(5) [OF f] by force
  then show ?thesis using b by (simp add: addr_of_def fun_eq_iff i)
qed

lemma file_ok_kept:
  assumes f: "file_ok s ip N" and i: "inodes s' = inodes s" "sb s' = sb s" and b: "\<And>b. b \<notin> addr_of s ip ` {..<N} \<Longrightarrow> blk s' b = blk s b"
  shows "file_ok s' ip N"
proof -
  have a: "addr_of s' ip = addr_of s ip" by (rule addr_of_kept [OF f i(1) b])
  have ib: "IBLOCK j s' = IBLOCK j s" for j by (simp add: IBLOCK_def i)
  show ?thesis using f unfolding file_ok_def bmapped_def a ib i(1) .
qed

lemma stores_trans:
  assumes f: "file_ok s ip N" and i: "inodes t = inodes s"
    and r1: "stores ip N off bs s t" and r2: "stores ip N (off + length bs) cs t u"
  shows "stores ip N off (bs @ cs) s u"
proof -
  have a: "addr_of t ip = addr_of s ip" by (rule addr_of_kept [OF f i]) (use r1 in \<open>simp add: stores_def\<close>)
  show ?thesis
    unfolding stores_def
  proof (intro conjI allI impI)
    show "blk u b = blk s b" if "b \<notin> addr_of s ip ` {..<N}" for b using r1 r2 that unfolding stores_def a by auto
    show "file_byte u ip i = (if off \<le> i \<and> i < off + length (bs @ cs) then (bs @ cs) ! (i - off) else file_byte s ip i)"
      if "i < N * BSIZE" for i
      using r1 r2 that unfolding stores_def by (auto simp: nth_append)
  qed
qed

text \<open>One block.\<close>

lemma stores_block:
  assumes f: "file_ok s ip N" and bn: "off div BSIZE < N" and len: "off mod BSIZE + length bs \<le> BSIZE"
    and lb: "\<And>n. length (blk s n) = BSIZE" and i: "inodes s' = inodes s"
    and b: "blk s' = (blk s)(addr_of s ip (off div BSIZE) := put_bytes (off mod BSIZE) bs (blk s (addr_of s ip (off div BSIZE))))"
  shows "stores ip N off bs s s'"
proof -
  let ?a = "addr_of s ip"
  have out: "blk s' c = blk s c" if "c \<notin> ?a ` {..<N}" for c using that bn b by auto
  have a: "addr_of s' ip = ?a" by (rule addr_of_kept [OF f i out])
  have "file_byte s' ip j = (if off \<le> j \<and> j < off + length bs then bs ! (j - off) else file_byte s ip j)" if j: "j < N * BSIZE" for j
  proof (cases "j div BSIZE = off div BSIZE")
    case True
    have d: "j = off div BSIZE * BSIZE + j mod BSIZE" "off = off div BSIZE * BSIZE + off mod BSIZE"
      by (metis True div_mult_mod_eq) simp
    have e: "off \<le> j \<longleftrightarrow> off mod BSIZE \<le> j mod BSIZE" "j < off + length bs \<longleftrightarrow> j mod BSIZE < off mod BSIZE + length bs"
      "j - off = j mod BSIZE - off mod BSIZE"
      using d by linarith+
    have "j mod BSIZE < BSIZE" by (simp add: BSIZE_def)
    then show ?thesis unfolding file_byte_def a True b e using len lb by (simp add: nth_put_bytes)
  next
    case False
    have "j div BSIZE < N" using j by (simp add: less_mult_imp_div_less)
    then have "?a (j div BSIZE) \<noteq> ?a (off div BSIZE)" using file_okD(4) [OF f _ bn] False by simp
    moreover have "\<not> (off \<le> j \<and> j < off + length bs)"
    proof
      assume h: "off \<le> j \<and> j < off + length bs"
      have "off div BSIZE * BSIZE \<le> j" using h by (metis div_times_less_eq_dividend le_trans)
      moreover have "j < Suc (off div BSIZE) * BSIZE" using h len div_mult_mod_eq [of off BSIZE] unfolding mult_Suc by linarith
      ultimately have "j div BSIZE = off div BSIZE" by (simp add: div_nat_eqI mult.commute)
      then show False using False by simp
    qed
    ultimately show ?thesis unfolding file_byte_def a b by auto
  qed
  then show ?thesis unfolding stores_def using out by blast
qed

definition blocks_in :: "nat \<Rightarrow> nat \<Rightarrow> nat" where
  "blocks_in off r = (if r = 0 then 0 else (off mod BSIZE + r + (BSIZE - 1)) div BSIZE)"

lemma blocks_in_step:
  assumes "0 < r" "m = min r (BSIZE - off mod BSIZE)"
  shows "blocks_in off r = Suc (blocks_in (off + m) (r - m))"
proof (cases "r \<le> BSIZE - off mod BSIZE")
  case True
  then have "m = r" "off mod BSIZE + r \<le> BSIZE" using assms by (auto simp: BSIZE_def)
  then show ?thesis using assms(1) unfolding blocks_in_def by (simp add: BSIZE_def div_nat_eqI)
next
  case False
  have b: "off mod BSIZE < BSIZE" by (simp add: BSIZE_def)
  then have m: "off mod BSIZE + m = BSIZE" "m < r" using assms False by auto
  have "off + m = (off div BSIZE + 1) * BSIZE" using m(1) div_mult_mod_eq [of off BSIZE] unfolding add_mult_distrib by linarith
  then have "(off + m) mod BSIZE = 0" by simp
  moreover have "off mod BSIZE + r + (BSIZE - 1) = (r - m + (BSIZE - 1)) + BSIZE" using m by simp
  moreover have "(x + BSIZE) div BSIZE = Suc (x div BSIZE)" for x by (simp add: BSIZE_def)
  ultimately have "(off mod BSIZE + r + (BSIZE - 1)) div BSIZE = Suc (((off + m) mod BSIZE + (r - m) + (BSIZE - 1)) div BSIZE)"
    by (simp only: add_0)
  moreover have r: "r \<noteq> 0" "r - m \<noteq> 0" using m(2) assms(1) by simp_all
  ultimately show ?thesis unfolding blocks_in_def if_not_P [OF r(1)] if_not_P [OF r(2)] by blast
qed

lemma writei_loop_txn:
  assumes "txn {} k s" "file_ok s ip N" "n = tot + length bs" "off + length bs \<le> N * BSIZE" "blocks_in off (length bs) \<le> k"
  shows "\<exists>s'. writei_loop ip (FromLocal bs) off tot n s = Inr (n, off + length bs, s') \<and>
    txn {} (k - blocks_in off (length bs)) s' \<and> stores ip N off bs s s' \<and> tx_step s s'"
  using assms
proof (induction "length bs" arbitrary: bs off tot s k rule: less_induct)
  case less
  note t = less.prems(1) and f = less.prems(2)
  show ?case
  proof (cases "bs = []")
    case True
    then show ?thesis using less.prems by (subst writei_loop.simps) (auto simp: stores_def blocks_in_def)
  next
    case False
    let ?bn = "off div BSIZE"
    let ?a = "addr_of s ip ?bn"
    define m where "m = min (length bs) (BSIZE - off mod BSIZE)"
    have m: "0 < m" "m \<le> length bs" "off mod BSIZE + m \<le> BSIZE" "tot < n" "n - tot = length bs"
      using False less.prems(3) by (auto simp: m_def BSIZE_def)
    have bn: "?bn < N" using less.prems(4) m(1,2) by (intro less_mult_imp_div_less) linarith
    note mp = file_okD(3) [OF f bn]
    have cnt: "blocks_in off (length bs) = Suc (blocks_in (off + m) (length bs - m))"
      by (rule blocks_in_step) (use m m_def in auto)
    have lb: "length (blk s c) = BSIZE" for c by (rule blk_length [OF t])
    obtain s1 where B: "bmap ip (of_nat ?bn) s = Inr (?a, s1)" "txn {} k s1" "blk s1 = blk s" "logged s1 = logged s" "tx_step s s1"
      by (rule bmap_txn [OF t _ mp file_okD(1) [OF f]]) auto
    have k0: "?a \<in> set (logged s1) \<or> 0 < k" using cnt less.prems(5) by simp
    have len: "length (put_bytes (off mod BSIZE) (take m bs) (blk s1 ?a)) = BSIZE" using m lb B(3) by simp
    obtain b s2 s3 s4 where C: "bread ROOTDEV ?a s1 = Inr (b, s2)" "b_data (bufs s2 b) = blk s1 ?a"
      "log_write b (set_data b (put_bytes (off mod BSIZE) (take m bs) (blk s1 ?a)) s2) = Inr s3" "brelse b s3 = Inr s4"
      "txn {} (spend ?a s1 k) s4" "blk s4 = (blk s1)(?a := put_bytes (off mod BSIZE) (take m bs) (blk s1 ?a))" "tx_step s1 s4"
      by (rule txn_change [OF B(2) _ _ k0, of "put_bytes (off mod BSIZE) (take m bs)", OF _ _ len]) auto
    have t4: "txn {} (k - 1) s4" by (rule txn_less [OF C(5)]) (simp add: spend_def)
    have st4: "tx_step s s4" by (rule tx_step_trans [OF B(5) C(7)])
    note i = tx_step_fs(2) [OF B(5)] tx_step_fs [OF st4]
    have st: "stores ip N off (take m bs) s s4"
      by (rule stores_block [OF f bn _ lb i(3)]) (use m C(6) B(3) in simp_all)
    have f4: "file_ok s4 ip N" by (rule file_ok_kept [OF f i(3,2)]) (use st in \<open>simp add: stores_def\<close>)
    have "\<exists>s'. writei_loop ip (FromLocal (drop m bs)) (off + m) (tot + m) n s4 = Inr (n, off + m + length (drop m bs), s') \<and>
      txn {} (k - 1 - blocks_in (off + m) (length (drop m bs))) s' \<and> stores ip N (off + m) (drop m bs) s4 s' \<and> tx_step s4 s'"
      by (rule less.hyps [OF _ t4 f4]) (use m less.prems(3-5) cnt False in auto)
    then obtain s' where R: "writei_loop ip (FromLocal (drop m bs)) (off + m) (tot + m) n s4 = Inr (n, off + length bs, s')"
      "txn {} (k - blocks_in off (length bs)) s'" "stores ip N (off + m) (drop m bs) s4 s'" "tx_step s4 s'"
      using m(2) cnt by auto
    have a0: "?a \<noteq> 0" using mp by (simp add: bmapped_def)
    have "writei_loop ip (FromLocal bs) off tot n s = Inr (n, off + length bs, s')"
      by (subst writei_loop.simps)
        (use m(4,5) a0 B(1) C(1-4) i(1) file_okD(1) [OF f] R(1) in \<open>simp add: Let_def m_def [symmetric] log_brelse_def\<close>)
    moreover have "stores ip N off (take m bs @ drop m bs) s s'"
      by (rule stores_trans [OF f i(3) st]) (use R(3) m(2) in simp)
    ultimately show ?thesis using R(2) tx_step_trans [OF st4 R(4)] by auto
  qed
qed

lemma stores_bytes:
  assumes "stores ip N off bs s s'" "off + length bs \<le> N * BSIZE"
  shows "map (file_byte s' ip) [off..<off + length bs] = bs"
  using assms by (intro nth_equalityI) (auto simp: stores_def)

text \<open>The inode is written back without touching the contents.\<close>

lemma iupdate_file:
  assumes t: "txn {} k s" "0 < k" and f: "file_ok s ip N"
  obtains s' where "iupdate ip s = Inr s'" "txn {} (k - 1) s'" "tx_step s s'" "file_ok s' ip N" "inodes s' = inodes s"
    "\<And>i. i < N * BSIZE \<Longrightarrow> file_byte s' ip i = file_byte s ip i" "dinode_at s' (i_inum (inodes s ip)) = disk_part (inodes s ip)"
proof -
  let ?m = "IBLOCK (i_inum (inodes s ip)) s"
  have k: "?m \<in> set (logged s) \<or> 0 < k" and e: "?m \<notin> {}" "card {} \<le> 3" using t by simp_all
  obtain s' where U: "iupdate ip s = Inr s'" "txn {} (spend ?m s k) s'" "tx_step s s'"
      "blk s' = (blk s)(?m := put_dinode (dinode_off (i_inum (inodes s ip))) (disk_part (inodes s ip)) (blk s ?m))"
      "\<And>j. dinode_at s' j = (if j = i_inum (inodes s ip) then disk_part (inodes s ip) else dinode_at s j)"
    by (rule iupdate_txn [OF t(1) e k file_okD(1,2) [OF f]]) blast
  note i = tx_step_fs [OF U(3)]
  have a: "addr_of s' ip = addr_of s ip" using file_okD(7) [OF f] by (simp add: addr_of_def fun_eq_iff i U(4))
  have "file_byte s' ip j = file_byte s ip j" if "j < N * BSIZE" for j
  proof -
    have "j div BSIZE < N" using that by (simp add: less_mult_imp_div_less)
    then show ?thesis using file_okD(6) [OF f] by (simp add: file_byte_def a U(4))
  qed
  moreover have "file_ok s' ip N" using f unfolding file_ok_def bmapped_def a i(2) tx_step_BBLOCK [OF U(3)] .
  moreover have "txn {} (k - 1) s'" by (rule txn_less [OF U(2)]) (simp add: spend_def)
  ultimately show thesis using that [OF U(1) _ U(3)] U(5) i(2) by simp
qed

lemma writei_txn:
  fixes s :: "'a fs_state_scheme" and ip :: nat and off n :: u32
  defines "x \<equiv> inodes s ip" and "e \<equiv> unat off + unat n"
  assumes t: "txn {} k s" and f: "file_ok s ip N" and off: "off \<le> i_size x" "e \<le> N * BSIZE" "N \<le> MAXFILE"
    and bs: "length bs = unat n" and k: "blocks_in (unat off) (unat n) < k"
  obtains s' where "writei ip (FromLocal bs) off n s = Inr (int (unat n), s')" "txn {} (k - blocks_in (unat off) (unat n) - 1) s'"
    "inodes s' = (inodes s)(ip := x\<lparr>i_size := of_nat (max (unat (i_size x)) e)\<rparr>)" "file_ok s' ip N"
    "\<And>i. i < N * BSIZE \<Longrightarrow> file_byte s' ip i = (if unat off \<le> i \<and> i < e then bs ! (i - unat off) else file_byte s ip i)"
    "dinode_at s' (i_inum x) = disk_part (inodes s' ip)"
proof -
  have lim: "MAXFILE * BSIZE < 2 ^ 32" by (simp add: MAXFILE_def NDIRECT_def NINDIRECT_def BSIZE_def)
  have e: "e \<le> MAXFILE * BSIZE" using off(2,3) mult_le_mono1 [of N MAXFILE BSIZE] by linarith
  then have u: "unat (off + n) = e" using lim unfolding e_def by (simp add: unat_add_lem [symmetric])
  have g: "\<not> (off > i_size x \<or> off + n < off)" "\<not> MAXFILE * BSIZE < unat (off + n)"
    using off(1) u e by (simp_all add: not_less word_le_nat_alt e_def)
  obtain s1 where W: "writei_loop ip (FromLocal bs) (unat off) 0 (unat n) s = Inr (unat n, e, s1)"
      "txn {} (k - blocks_in (unat off) (unat n)) s1" "stores ip N (unat off) bs s s1" "tx_step s s1"
    using writei_loop_txn [OF t f, of "unat n" 0 bs "unat off"] off(2) bs k by (auto simp: e_def)
  note i1 = tx_step_fs [OF W(4)]
  have f1: "file_ok s1 ip N" by (rule file_ok_kept [OF f i1(2,1)]) (use W(3) in \<open>simp add: stores_def\<close>)
  define s2 where "s2 = (if e > unat (i_size x) then upd_inode ip (\<lambda>x. x\<lparr>i_size := of_nat e\<rparr>) s1 else s1)"
  have i2: "inodes s2 = (inodes s)(ip := x\<lparr>i_size := of_nat (max (unat (i_size x)) e)\<rparr>)"
    by (auto simp: s2_def upd_inode_def i1 x_def max_def)
  have e2: "s2 = s1\<lparr>inodes := inodes s2\<rparr>" by (simp add: s2_def upd_inode_def)
  have v2: "txn {} (k - blocks_in (unat off) (unat n)) s2" "blk s2 = blk s1"
    by (subst e2, use W(2) in simp)+
  have ib: "IBLOCK j s2 = IBLOCK j s1" for j by (subst e2) simp
  have xs: "i_addrs (inodes s2 ip) = i_addrs (inodes s1 ip)" "i_dev (inodes s2 ip) = i_dev (inodes s1 ip)"
    "i_inum (inodes s2 ip) = i_inum (inodes s1 ip)"
    by (simp_all add: i2 i1 x_def)
  have a2: "addr_of s2 ip = addr_of s1 ip" by (simp add: addr_of_def fun_eq_iff v2 xs)
  have f2: "file_ok s2 ip N" using f1 unfolding file_ok_def bmapped_def a2 ib xs .
  obtain s3 where U: "iupdate ip s2 = Inr s3" "txn {} (k - blocks_in (unat off) (unat n) - 1) s3" "file_ok s3 ip N" "inodes s3 = inodes s2"
      "\<And>i. i < N * BSIZE \<Longrightarrow> file_byte s3 ip i = file_byte s2 ip i" "dinode_at s3 (i_inum (inodes s2 ip)) = disk_part (inodes s2 ip)"
    by (rule iupdate_file [OF v2(1) _ f2]) (use k in auto)
  have "writei ip (FromLocal bs) off n s = Inr (int (unat n), s3)"
    unfolding writei_def x_def [symmetric] if_not_P [OF g(1)] if_not_P [OF g(2)] W(1)
    using U(1) by (simp add: Let_def i1 x_def [symmetric] s2_def [symmetric])
  moreover have "file_byte s3 ip j = (if unat off \<le> j \<and> j < e then bs ! (j - unat off) else file_byte s ip j)" if "j < N * BSIZE" for j
    using U(5) [OF that] W(3) that bs by (simp add: stores_def file_byte_def a2 v2 e_def)
  moreover have "dinode_at s3 (i_inum x) = disk_part (inodes s3 ip)" using U(4,6) i2 by simp
  ultimately show thesis using that U(2-4) i2 by simp
qed

text \<open>C9: What is written to a file is read back.  \<open>writei\<close> of a local buffer at an offset inside or at the end
  of a file, over blocks that are allocated and with room in the transaction for them and for the
  inode, returns the number of bytes; afterwards \<open>readi\<close> of the range returns exactly these bytes, every
  other byte of the blocks is as before, the size is the larger of the old one and the end of the range,
  and the inode on the disk agrees with the one in the table.\<close>

theorem writei_readi:
  fixes s :: "'a fs_state_scheme" and ip :: nat and off n :: u32
  defines "x \<equiv> inodes s ip" and "e \<equiv> unat off + unat n"
  assumes "txn {} k s" "file_ok s ip N" "off \<le> i_size x" "e \<le> N * BSIZE" "unat (i_size x) \<le> N * BSIZE" "N \<le> MAXFILE"
    "length bs = unat n" "blocks_in (unat off) (unat n) < k"
  shows "\<exists>s1 s2. writei ip (FromLocal bs) off n s = Inr (int (length bs), s1) \<and>
    readi ip ToLocal off n s1 = Inr (int (length bs), bs, s2) \<and>
    (\<forall>i < N * BSIZE. \<not> (unat off \<le> i \<and> i < e) \<longrightarrow> file_byte s1 ip i = file_byte s ip i) \<and>
    unat (i_size (inodes s1 ip)) = max (unat (i_size x)) e \<and> dinode_at s1 (i_inum x) = disk_part (inodes s1 ip) \<and>
    txn {} (k - blocks_in (unat off) (unat n) - 1) s1"
proof -
  obtain s1 where W: "writei ip (FromLocal bs) off n s = Inr (int (unat n), s1)" "txn {} (k - blocks_in (unat off) (unat n) - 1) s1"
      "inodes s1 = (inodes s)(ip := x\<lparr>i_size := of_nat (max (unat (i_size x)) e)\<rparr>)" "file_ok s1 ip N"
      "\<And>i. i < N * BSIZE \<Longrightarrow> file_byte s1 ip i = (if unat off \<le> i \<and> i < e then bs ! (i - unat off) else file_byte s ip i)"
      "dinode_at s1 (i_inum x) = disk_part (inodes s1 ip)"
    unfolding x_def e_def
    by (rule writei_txn [OF assms(3,4), of off n bs]) (use assms(5-) in \<open>simp_all add: x_def e_def\<close>)
  have "max (unat (i_size x)) e \<le> MAXFILE * BSIZE" using assms(6-8) mult_le_mono1 [of N MAXFILE BSIZE] by linarith
  then have mx: "max (unat (i_size x)) e < 2 ^ 32" by (simp add: MAXFILE_def NDIRECT_def NINDIRECT_def BSIZE_def)
  then have sz: "unat (i_size (inodes s1 ip)) = max (unat (i_size x)) e"
    unfolding W(3) by (simp add: unat_of_nat take_bit_nat_eq_self)
  have off: "off \<le> i_size (inodes s1 ip)" "unat off + unat n < 2 ^ 32"
    using mx unfolding word_le_nat_alt sz by (simp_all add: e_def)
  have N1: "unat (i_size (inodes s1 ip)) \<le> N * BSIZE" using sz assms(6,7) by simp
  have r: "min (unat n) (unat (i_size (inodes s1 ip)) - unat off) = unat n" unfolding sz by (simp add: e_def)
  obtain s2 where R: "readi ip ToLocal off n s1 = Inr (int (unat n), map (file_byte s1 ip) [unat off..<unat off + unat n], s2)"
    using readi_txn [OF W(2,4) N1 off] unfolding r by blast
  have "map (file_byte s1 ip) [unat off..<unat off + unat n] = bs"
    using W(5) assms(6,9) by (intro nth_equalityI) (simp_all add: e_def)
  then show ?thesis using W R sz assms(9) by (intro exI [of _ s1] exI [of _ s2]) auto
qed

theorem writei_readi_witness:
  "\<exists>s1 s2. writei 1 (FromLocal [1, 2, 3, 4]) 1022 4 demo_fs = Inr (4, s1) \<and> readi 1 ToLocal 1022 4 s1 = Inr (4, [1, 2, 3, 4], s2)"
proof -
  have b: "blocks_in (unat (1022 :: u32)) (unat (4 :: u32)) < 20" by (simp add: blocks_in_def BSIZE_def)
  show ?thesis
    using writei_readi [OF demo_txn(1) demo_file_ok _ _ _ _ _ b, of "[1, 2, 3, 4]"] demo_file(4)
    by (auto simp: BSIZE_def MAXFILE_def NDIRECT_def)
qed

end
