(* ===== verification/FsDir.thy ===== *)
theory FsDir
  imports FsFile FsPath
begin

text \<open>
  Directories and paths, the last part of \<^verbatim>\<open>kernel/fs.c\<close>: \<open>dirlookup\<close> is the search for the first entry in use with
  the name, and \<open>skipelem\<close> takes a path apart at its slashes.
\<close>

section \<open>Names\<close>

definition cname :: "byte list \<Rightarrow> byte list" where
  "cname p = takeWhile (\<lambda>c. c \<noteq> 0) (take DIRSIZ p)"

lemma name_strncmp_eq:
  "name_strncmp p q n = 0 \<longleftrightarrow> takeWhile (\<lambda>c. c \<noteq> 0) (take n p) = takeWhile (\<lambda>c. c \<noteq> 0) (take n q)"
proof (induction n arbitrary: p q)
  case (Suc n)
  then show ?case by (cases p; cases q) (auto simp: uint_0_iff word_uint_eq_iff [symmetric])
qed simp

lemma namecmp_eq: "namecmp p q = 0 \<longleftrightarrow> cname p = cname q"
  by (simp add: namecmp_def cname_def name_strncmp_eq)

section \<open>Looking up a name\<close>

definition dirent_at :: "'a fs_state_scheme \<Rightarrow> nat \<Rightarrow> nat \<Rightarrow> dirent" where
  "dirent_at s dp j = get_dirent (map (file_byte s dp) [dirent_size * j..<dirent_size * j + dirent_size])"

definition entry_matches :: "'a fs_state_scheme \<Rightarrow> nat \<Rightarrow> byte list \<Rightarrow> nat \<Rightarrow> bool" where
  "entry_matches s dp name j \<longleftrightarrow> de_inum (dirent_at s dp j) \<noteq> 0 \<and> cname name = cname (de_name (dirent_at s dp j))"

definition lookup_spec ::
    "nat \<Rightarrow> nat \<Rightarrow> nat option \<Rightarrow> 'a fs_state_scheme \<Rightarrow> ((nat \<times> u32) option \<times> 'a fs_state_scheme) res \<Rightarrow> bool" where
  "lookup_spec k dp r s x \<longleftrightarrow> (\<exists>s'. txn {} k s' \<and> blk s' = blk s \<and> tx_step s s' \<and>
     x = (case r of None \<Rightarrow> Inr (None, s')
          | Some j \<Rightarrow> bnd (iget ROOTDEV (ucast (de_inum (dirent_at s dp j))) s') (\<lambda>(ip, t).
              Inr (Some (ip, of_nat (dirent_size * j)), t))))"

lemma file_ok_size: "file_ok s ip N \<Longrightarrow> N \<le> MAXFILE"
proof (cases N)
  case (Suc n)
  moreover assume "file_ok s ip N"
  ultimately show ?thesis using file_okD(3) [of s ip N n] by (simp add: bmapped_def)
qed simp

lemma read_dirent:
  assumes t: "txn {} k s" and f: "file_ok s dp N" "unat (i_size (inodes s dp)) \<le> N * BSIZE"
    and j: "dirent_size * j + dirent_size \<le> unat (i_size (inodes s dp))"
  obtains s' where "readi dp ToLocal (of_nat (dirent_size * j)) (of_nat dirent_size) s =
      Inr (int dirent_size, map (file_byte s dp) [dirent_size * j..<dirent_size * j + dirent_size], s')"
    "txn {} k s'" "blk s' = blk s" "tx_step s s'" "file_ok s' dp N"
proof -
  let ?off = "of_nat (dirent_size * j) :: u32" and ?n = "of_nat dirent_size :: u32"
  have "N * BSIZE \<le> MAXFILE * BSIZE" using file_ok_size [OF f(1)] by simp
  then have lim: "dirent_size * j + dirent_size < 2 ^ 32"
    using f(2) j by (simp add: MAXFILE_def NDIRECT_def NINDIRECT_def BSIZE_def)
  then have u: "unat ?off = dirent_size * j" "unat ?n = dirent_size"
    by (simp_all only: unat_of_nat len_bit0 len_num1) (simp_all add: take_bit_nat_eq_self)
  have o: "?off \<le> i_size (inodes s dp)" "unat ?off + unat ?n < 2 ^ 32" using j lim u by (simp_all add: word_le_nat_alt)
  have m: "min dirent_size (unat (i_size (inodes s dp)) - dirent_size * j) = dirent_size" using j by simp
  obtain s' where R: "readi dp ToLocal ?off ?n s =
      Inr (int dirent_size, map (file_byte s dp) [dirent_size * j..<dirent_size * j + dirent_size], s')"
      "txn {} k s'" "blk s' = blk s" "tx_step s s'"
    using readi_txn [OF t f o] unfolding u m by blast
  have "file_ok s' dp N" by (rule file_ok_kept [OF f(1)]) (use R(3) tx_step_fs [OF R(4)] in simp_all)
  then show thesis using that R by blast
qed

lemma lookup_view:
  assumes "blk s' = blk s" "tx_step s s'"
  shows "dirent_at s' dp = dirent_at s dp" "entry_matches s' dp name = entry_matches s dp name"
proof -
  show d: "dirent_at s' dp = dirent_at s dp"
    by (rule ext) (simp only: dirent_at_def file_view_cong(3) [OF assms(1) tx_step_fs(2) [OF assms(2)]])
  show "entry_matches s' dp name = entry_matches s dp name" by (simp add: entry_matches_def d fun_eq_iff)
qed

lemma dirlookup_loop_spec:
  assumes "txn {} k s" "file_ok s dp N" "unat (i_size (inodes s dp)) \<le> N * BSIZE" "unat (i_size (inodes s dp)) = dirent_size * M"
  shows "lookup_spec k dp (find (entry_matches s dp name) [j..<M]) s (dirlookup_loop dp name (dirent_size * j) (dirent_size * M) s)"
  using assms
proof (induction "M - j" arbitrary: j s rule: less_induct)
  case less
  note t = less.prems(1) and f = less.prems(2)
  show ?case
  proof (cases "j < M")
    case False
    then show ?thesis using t by (subst dirlookup_loop.simps) (auto simp: lookup_spec_def dirent_size_def)
  next
    case True
    have jl: "dirent_size * j + dirent_size \<le> unat (i_size (inodes s dp))" "dirent_size * j < dirent_size * M"
      using True less.prems(4) mult_le_mono2 [of "Suc j" M dirent_size] by (simp_all add: dirent_size_def)
    obtain s1 where R: "readi dp ToLocal (of_nat (dirent_size * j)) (of_nat dirent_size) s =
        Inr (int dirent_size, map (file_byte s dp) [dirent_size * j..<dirent_size * j + dirent_size], s1)"
        "txn {} k s1" "blk s1 = blk s" "tx_step s s1" "file_ok s1 dp N"
      by (rule read_dirent [OF t f less.prems(3) jl(1)]) blast
    note i = tx_step_fs(2) [OF R(4)] and v = lookup_view [OF R(3,4)]
    have up: "[j..<M] = j # [Suc j..<M]" using True by (simp add: upt_conv_Cons)
    have g: "get_dirent (map (file_byte s dp) [dirent_size * j..<dirent_size * j + dirent_size]) = dirent_at s dp j"
      by (simp add: dirent_at_def)
    show ?thesis
    proof (cases "entry_matches s dp name j")
      case True
      then have c: "de_inum (dirent_at s dp j) \<noteq> 0 \<and> namecmp name (de_name (dirent_at s dp j)) = 0"
        by (simp add: entry_matches_def namecmp_eq)
      have "dirlookup_loop dp name (dirent_size * j) (dirent_size * M) s =
          bnd (iget ROOTDEV (ucast (de_inum (dirent_at s dp j))) s1) (\<lambda>(ip, t). Inr (Some (ip, of_nat (dirent_size * j)), t))"
        by (subst dirlookup_loop.simps) (simp only: jl(2) R(1) if_True bnd_Inr prod.case simp_thms if_False g Let_def c i file_okD(1) [OF f])
      then show ?thesis using R True up unfolding lookup_spec_def by auto
    next
      case False
      then have c: "(de_inum (dirent_at s dp j) \<noteq> 0 \<and> namecmp name (de_name (dirent_at s dp j)) = 0) = False"
        by (simp add: entry_matches_def namecmp_eq)
      have "dirlookup_loop dp name (dirent_size * j) (dirent_size * M) s = dirlookup_loop dp name (dirent_size * Suc j) (dirent_size * M) s1"
      proof -
        have e: "dirent_size * Suc j = dirent_size * j + dirent_size" by simp
        show ?thesis unfolding e
          by (subst dirlookup_loop.simps) (simp only: jl(2) R(1) if_True bnd_Inr prod.case simp_thms if_False g Let_def c)
      qed
      moreover have "lookup_spec k dp (find (entry_matches s1 dp name) [Suc j..<M]) s1
          (dirlookup_loop dp name (dirent_size * Suc j) (dirent_size * M) s1)"
        by (rule less.hyps [OF _ R(2,5)]) (use True less.prems(3,4) i in auto)
      ultimately show ?thesis
        using False up R(3) tx_step_trans [OF R(4)] unfolding lookup_spec_def v by fastforce
    qed
  qed
qed

text \<open>C13: \<open>dirlookup\<close> on a directory is the search of its entries: it finds the first entry that is in use and
  whose name agrees with the one asked for in the first \<open>DIRSIZ\<close> bytes, returns the inode it names,
  with a reference, and the offset of the entry; without such an entry it returns nothing.  No block
  changes.  On anything but a directory it panics.\<close>

theorem dirlookup_correct:
  fixes s :: "'a fs_state_scheme"
  assumes "txn {} k s" "file_ok s dp N" "unat (i_size (inodes s dp)) \<le> N * BSIZE" "unat (i_size (inodes s dp)) = dirent_size * M"
  shows "if i_type (inodes s dp) \<noteq> T_DIR then dirlookup dp name s = panic ''dirlookup not DIR''
    else \<exists>s'. txn {} k s' \<and> blk s' = blk s \<and> inodes s' = inodes s \<and>
      dirlookup dp name s = (case find (entry_matches s dp name) [0..<M] of
          None \<Rightarrow> Inr (None, s')
        | Some j \<Rightarrow> bnd (iget ROOTDEV (ucast (de_inum (dirent_at s dp j))) s') (\<lambda>(ip, t).
            Inr (Some (ip, of_nat (dirent_size * j)), t)))"
proof -
  obtain s' where "txn {} k s'" "blk s' = blk s" "tx_step s s'" "dirlookup_loop dp name 0 (dirent_size * M) s =
      (case find (entry_matches s dp name) [0..<M] of None \<Rightarrow> Inr (None, s')
        | Some j \<Rightarrow> bnd (iget ROOTDEV (ucast (de_inum (dirent_at s dp j))) s') (\<lambda>(ip, t).
            Inr (Some (ip, of_nat (dirent_size * j)), t)))"
    using dirlookup_loop_spec [OF assms, of name 0] unfolding lookup_spec_def by auto
  then show ?thesis using tx_step_fs(2) unfolding dirlookup_def assms(4) by auto
qed

text \<open>The root directory of the small file system: the name \<^verbatim>\<open>ab\<close> is the entry after an unused one.\<close>

lemma demo_root: "addr_of demo_fs 0 0 = 46" "IBLOCK 1 demo_fs = 32" "i_size (inodes demo_fs 0) = 64" "i_type (inodes demo_fs 0) = T_DIR"
    "file_ok demo_fs 0 1"
proof -
  show a: "addr_of demo_fs 0 0 = 46" "IBLOCK 1 demo_fs = 32" "i_size (inodes demo_fs 0) = 64" "i_type (inodes demo_fs 0) = T_DIR"
    by (simp_all add: addr_of_def demo_inode_def NDIRECT_def IBLOCK_def demo_sb_def IPB_def BSIZE_def dinode_size_def)
  have x: "i_dev (inodes demo_fs 0) = ROOTDEV" "length (i_addrs (inodes demo_fs 0)) = 61"
    "i_addrs (inodes demo_fs 0) ! 60 = 0" "i_inum (inodes demo_fs 0) = 1"
    by (simp_all add: demo_inode_def nth_append)
  have "bmapped demo_fs 0 0" using a by (simp add: bmapped_def NDIRECT_def MAXFILE_def)
  then show "file_ok demo_fs 0 1" unfolding file_ok_def using x a by (simp add: NDIRECT_def inj_on_def)
qed

lemma demo_dirent: "j < 4 \<Longrightarrow> dirent_at demo_fs 0 j = get_dirent (take 16 (drop (16 * j) demo_dir))"
proof -
  assume j: "j < 4"
  have "map (file_byte demo_fs 0) [16 * j..<16 * j + 16] = take 16 (drop (16 * j) demo_dir)"
    using j by (intro nth_equalityI)
      (auto simp: file_byte_def BSIZE_def demo_root(1) demo_txn(2) demo_disk_def demo_dir_def)
  then show ?thesis by (simp only: dirent_at_def dirent_size_def)
qed

theorem dirlookup_correct_witness:
  "\<exists>s'. dirlookup 0 [0x61, 0x62] demo_fs = Inr (Some (1, 48), s')"
proof -
  have r: "replicate 13 (0 :: byte) = [0,0,0,0,0,0,0,0,0,0,0,0,0]" "replicate 12 (0 :: byte) = [0,0,0,0,0,0,0,0,0,0,0,0]"
    "replicate 14 (0 :: byte) = [0,0,0,0,0,0,0,0,0,0,0,0,0,0]"
    by (simp_all add: numeral_eq_Suc)
  have d: "dirent_at demo_fs 0 0 = \<lparr>de_inum = 1, de_name = 0x2E # replicate 13 0\<rparr>"
    "dirent_at demo_fs 0 1 = \<lparr>de_inum = 1, de_name = 0x2E # 0x2E # replicate 12 0\<rparr>"
    "dirent_at demo_fs 0 2 = \<lparr>de_inum = 0, de_name = replicate 14 0\<rparr>"
    "dirent_at demo_fs 0 3 = \<lparr>de_inum = 2, de_name = 0x61 # 0x62 # replicate 12 0\<rparr>"
    by (simp_all add: demo_dirent demo_dir_def r get_dirent_def get16_def get_bytes_def DIRSIZ_def)
  note d1 = d(2) [unfolded One_nat_def]
  have m: "entry_matches demo_fs 0 [0x61, 0x62] 3" "\<not> entry_matches demo_fs 0 [0x61, 0x62] 0"
    "\<not> entry_matches demo_fs 0 [0x61, 0x62] 1" "\<not> entry_matches demo_fs 0 [0x61, 0x62] 2"
    by (simp_all add: entry_matches_def d d1 cname_def DIRSIZ_def r)
  have "find (entry_matches demo_fs 0 [0x61, 0x62]) [0..<4] = Some 3"
  proof (rule find_least)
    show "\<forall>c < 3. \<not> entry_matches demo_fs 0 [0x61, 0x62] c"
    proof (intro allI impI)
      fix c :: nat
      assume "c < 3"
      then consider "c = 0" | "c = 1" | "c = 2" by linarith
      then show "\<not> entry_matches demo_fs 0 [0x61, 0x62] c" using m by cases simp_all
    qed
  qed (use m in simp_all)
  moreover have "iget ROOTDEV 2 s' = Inr (1, upd_inode 1 (\<lambda>x. x\<lparr>i_ref := i_ref x + 1\<rparr>) s')"
    if i: "inodes s' = inodes demo_fs" for s' :: fs_state
  proof -
    have "find (\<lambda>i. i_ref (inodes s' i) > 0 \<and> i_dev (inodes s' i) = ROOTDEV \<and> i_inum (inodes s' i) = 2) [0..<NINODE] = Some 1"
      by (rule find_least) (simp_all add: i demo_inode_def NINODE_def)
    then show ?thesis by (simp add: iget_def)
  qed
  moreover obtain s' where "inodes s' = inodes demo_fs" "dirlookup 0 [0x61, 0x62] demo_fs = (case find (entry_matches demo_fs 0 [0x61, 0x62]) [0..<4] of
      None \<Rightarrow> Inr (None, s') | Some j \<Rightarrow> bnd (iget ROOTDEV (ucast (de_inum (dirent_at demo_fs 0 j))) s') (\<lambda>(ip, t).
            Inr (Some (ip, of_nat (dirent_size * j)), t)))"
    using dirlookup_correct [OF demo_txn(1) demo_root(5), of 4 "[0x61, 0x62]"] demo_root(3,4)
    by (auto simp: BSIZE_def dirent_size_def)
  ultimately show ?thesis by (simp add: d dirent_size_def)
qed

section \<open>Paths\<close>

text \<open>The reference: cut at the slashes, drop the empty pieces, shorten to \<open>DIRSIZ\<close> bytes.\<close>

fun pieces :: "byte list \<Rightarrow> byte list list" where
  "pieces [] = [[]]"
| "pieces (c # cs) = (if c = slash then [] # pieces cs else (c # hd (pieces cs)) # tl (pieces cs))"

definition path_elems :: "byte list \<Rightarrow> byte list list" where
  "path_elems path = map (take DIRSIZ) (filter (\<lambda>p. p \<noteq> []) (pieces path))"

lemma pieces_Cons: "pieces cs = hd (pieces cs) # tl (pieces cs)"
  by (cases cs) simp_all

lemma path_elems_slashes: "path_elems (dropWhile (\<lambda>c. c = slash) path) = path_elems path"
  by (induction path) (simp_all add: path_elems_def)

lemma pieces_append: "slash \<notin> set p \<Longrightarrow> pieces (p @ cs) = (p @ hd (pieces cs)) # tl (pieces cs)"
  by (induction p) (use pieces_Cons in auto)

lemma pieces_word:
  assumes "slash \<notin> set p" "p \<noteq> []" "cs = [] \<or> hd cs = slash"
  shows "path_elems (p @ cs) = take DIRSIZ p # path_elems (dropWhile (\<lambda>c. c = slash) cs)"
proof (cases cs)
  case Nil
  then show ?thesis using pieces_append [OF assms(1), of "[]"] assms(2) by (simp add: path_elems_def)
next
  case (Cons c ds)
  then have "path_elems (p @ cs) = take DIRSIZ p # path_elems ds"
    using assms pieces_append [OF assms(1), of cs] by (simp add: path_elems_def)
  moreover have "path_elems ds = path_elems (dropWhile (\<lambda>c. c = slash) cs)"
    using Cons assms(3) path_elems_slashes [of ds] by simp
  ultimately show ?thesis by simp
qed

text \<open>C15: \<open>skipelem\<close> takes the path apart at its slashes.  For a path without zero bytes, whatever
  slashes it has in front, behind or in a row, the names \<open>skipelem\<close> delivers one after the other are the
  non-empty pieces between the slashes, cut to \<open>DIRSIZ\<close> bytes; it delivers none exactly when there is no
  such piece left.\<close>

theorem skipelem_splits:
  assumes "0 \<notin> set path"
  shows "path_elems path = (case skipelem path of None \<Rightarrow> [] | Some (rest, name) \<Rightarrow> name # path_elems rest) \<and>
    (case skipelem path of None \<Rightarrow> True | Some (rest, name) \<Rightarrow> 0 \<notin> set rest)"
proof -
  define q where "q = dropWhile (\<lambda>c. c = slash) path"
  have z: "0 \<notin> set q" using assms set_dropWhileD unfolding q_def by metis
  have e: "path_elems path = path_elems q" by (simp add: q_def path_elems_slashes)
  show ?thesis
  proof (cases q)
    case Nil
    then have "skipelem path = None" unfolding skipelem_def Let_def q_def [symmetric] by simp
    then show ?thesis using e Nil by (simp add: path_elems_def)
  next
    case (Cons c cs)
    have "q \<noteq> []" using Cons by simp
    then have "hd q \<noteq> slash" unfolding q_def by (rule hd_dropWhile)
    then have c: "c \<noteq> slash" "c \<noteq> 0" using Cons z by auto
    let ?P = "\<lambda>c. c \<noteq> slash \<and> c \<noteq> 0"
    define p where "p = takeWhile ?P q"
    define r where "r = dropWhile ?P q"
    have q: "q = p @ r" by (simp add: p_def r_def)
    have p: "slash \<notin> set p" "p \<noteq> []" using Cons c by (auto simp: p_def dest: set_takeWhileD)
    have zr: "0 \<notin> set r" using z q by simp
    have r: "r = [] \<or> hd r = slash" using hd_dropWhile [of ?P q] zr r_def by (metis hd_in_set)
    have "skipelem path = Some (dropWhile (\<lambda>c. c = slash) r, take DIRSIZ p)"
      unfolding skipelem_def Let_def q_def [symmetric] p_def [symmetric] r_def [symmetric] using Cons c(2) by simp
    moreover have "0 \<notin> set (dropWhile (\<lambda>c. c = slash) r)" using zr set_dropWhileD by metis
    ultimately show ?thesis using e pieces_word [OF p r] q by simp
  qed
qed

theorem skipelem_splits_witness:
  "path_elems (bytes_of ''//a/bb//'') = [bytes_of ''a'', bytes_of ''bb''] \<and>
   skipelem (bytes_of ''//a/bb//'') = Some (bytes_of ''bb//'', bytes_of ''a'')"
proof -
  have k: "skipelem (bytes_of ''//a/bb//'') = Some (bytes_of ''bb//'', bytes_of ''a'')"
    by (simp add: skipelem_def bytes_of_def slash_def DIRSIZ_def)
  have "path_elems (bytes_of ''bb//'') = [bytes_of ''bb'']"
    by (simp add: path_elems_def bytes_of_def slash_def DIRSIZ_def)
  then show ?thesis using skipelem_splits [of "bytes_of ''//a/bb//''"] k by (simp add: bytes_of_def)
qed

end
