(* ===== verification/Spec2Isabelle.thy ===== *)
theory Spec2Isabelle
  imports Sched Boot FsDir
begin

text \<open>
  A verification development for the kernel of zeptOS, a Unix-like kernel for 64-bit RISC-V machines
  descended from xv6.  Paths are relative to \<^verbatim>\<open>src/\<close>.

  \<^bold>\<open>The program.\<close>  The first hart reads the device tree (\<^verbatim>\<open>kernel/dtb.c\<close>), initialises every part and starts the
  other harts (\<^verbatim>\<open>kernel/main.c\<close>).  From then on a hart enters the kernel through a system call, a timer or device interrupt or a
  fault (\<^verbatim>\<open>kernel/trap.c\<close>); system calls (\<^verbatim>\<open>kernel/syscall.c\<close>, \<^verbatim>\<open>sysproc.c\<close>, \<^verbatim>\<open>sysfile.c\<close>) fetch their
  arguments from the trap frame and the user's memory (\<^verbatim>\<open>vm.c\<close>) and act on processes (\<^verbatim>\<open>proc.c\<close>, \<^verbatim>\<open>exec.c\<close>)
  or open files (\<^verbatim>\<open>file.c\<close>, \<^verbatim>\<open>pipe.c\<close>, \<^verbatim>\<open>console.c\<close>, \<^verbatim>\<open>fs.c\<close>).  The file system changes the disk in
  transactions of the log (\<^verbatim>\<open>log.c\<close>), which reads and writes blocks through the buffer cache (\<^verbatim>\<open>bio.c\<close>)
  and the virtio driver (\<^verbatim>\<open>virtio_disk.c\<close>).  Pages for page tables, user memory, stacks and pipes come from
  \<^verbatim>\<open>kalloc.c\<close>; \<^verbatim>\<open>spinlock.c\<close> and \<^verbatim>\<open>sleeplock.c\<close> keep the harts and the processes apart; text leaves
  through \<^verbatim>\<open>printf.c\<close> and \<^verbatim>\<open>uart.c\<close>; the firmware is called through \<^verbatim>\<open>sbi.c\<close>.

  \<^bold>\<open>The state.\<close>  One record is extended layer by layer, in the order of the code: \<open>kmem_state\<close> (physical
  memory as a function from 64-bit addresses to bytes, the free list and the bounds of RAM), \<open>vm_state\<close>,
  \<open>proc_state\<close> (the process table, the hart), \<open>dev_state\<close> (the UART and the console), \<open>disk_state\<close> (buffers,
  virtio queue, disk), \<open>log_state\<close>, \<open>fs_state\<close> (superblock, inode table), \<open>file_state\<close> (open files, pipes),
  \<open>hart_state\<close> (the firmware), \<open>trap_state\<close> (control registers, interrupt controller) and \<open>boot_state\<close> (what booting
  finds out).  Every operation is
  polymorphic in the layers above its own.

  \<^bold>\<open>Outcomes.\<close>  An operation returns \<open>Inr\<close> of its result and the new state or \<open>Inl\<close> of a stop: \<open>Panic\<close> with
  the message of the source, \<open>Sleep\<close> with the channel the process waits on, \<open>Diverge\<close> for a loop the
  source never leaves, \<open>Undefined\<close> where C gives the program no meaning (a store outside of a local
  array, a read through a null pointer).  Loops that make progress before they sleep return the progress with the stop.  Integers are
  words of the width the source declares; wrap-around is that of the words.

  \<^bold>\<open>Environments.\<close>  The UART, the virtio device, the interrupt controller and the firmware are
  parameters: functions of the history of the accesses made so far to the next answer.  What a theorem
  needs of a device is a named hypothesis (\<open>responsive\<close> for a UART that becomes idle, a disk that serves the
  chain posted to it), met by a concrete device in the witness.

  \<^bold>\<open>Concurrency.\<close>  A section under one spin lock is one function.  Where the interleaving is the point the
  same code is also a step relation: \<open>lstep\<close> (\<open>acquire\<close> and \<open>release\<close> on any number of harts), \<open>cstep\<close>
  (the scheduler on any number of harts), \<open>sstep\<close>
  (\<open>acquiresleep\<close>, \<open>releasesleep\<close>, \<open>sleep\<close> and \<open>wakeup\<close> of any number of processes, \<open>wakeup\<close> slot by slot) and the
  sequences of \<open>begin_op\<close>, \<open>log_write\<close> and \<open>end_op\<close> of concurrent calls.

  \<^bold>\<open>The theories.\<close>
  \<^item> \<open>ZPrelude\<close>: machine types, outcomes, facts on words and lists (\<^verbatim>\<open>kernel/types.h\<close>).
  \<^item> \<open>KString\<close> (\<^verbatim>\<open>string.c\<close>): \<open>memset\<close>, \<open>memmove\<close>, the string routines; \<open>memmove\<close> is right for overlapping ranges.
  \<^item> \<open>Riscv\<close> (\<^verbatim>\<open>riscv.h\<close>, \<^verbatim>\<open>memlayout.h\<close>): page rounding, page-table entries, the address map.
  \<^item> \<open>Kalloc\<close> (\<^verbatim>\<open>kalloc.c\<close>): the free list in the free pages, with its representation predicate.
  \<^item> \<open>Vm\<close>, \<open>VmTree\<close>, \<open>VmUser\<close>, \<open>VmCopy\<close>, \<open>VmFrame\<close> (\<^verbatim>\<open>vm.c\<close>): the operations; the three-level tree in memory; mapping,
    growing and shrinking address spaces without losing a page; copies between kernel and user, with the bound
    of string copies; frame lemmas.
  \<^item> \<open>Proc\<close>, \<open>ProcLife\<close> (\<^verbatim>\<open>proc.c\<close>, \<^verbatim>\<open>proc.h\<close>): the process table, \<open>allocproc\<close> and its pids, \<open>sleep\<close>, \<open>wakeup\<close>,
    \<open>kill\<close>; \<open>userinit\<close>, \<open>fork\<close>, \<open>exit\<close>, \<open>wait\<close>, \<open>yield\<close>.
  \<^item> \<open>Spinlock\<close>, \<open>Sleeplock\<close> (\<^verbatim>\<open>spinlock.c\<close>, \<^verbatim>\<open>sleeplock.c\<close>): exclusion in every interleaving, nesting of the
    interrupt switch, no lost wakeup.
  \<^item> \<open>Sched\<close> (\<^verbatim>\<open>proc.c\<close>): \<open>scheduler\<close> and \<open>sched\<close>; on any number of CPUs no process runs on two.
  \<^item> \<open>Ring\<close>: the locale of ring buffers with free-running counters, interpreted for the UART, the console
    and the pipe.
  \<^item> \<open>Uart\<close>, \<open>Printf\<close>, \<open>Console\<close> (\<^verbatim>\<open>uart.c\<close>, \<^verbatim>\<open>printf.c\<close>, \<^verbatim>\<open>console.c\<close>): output in order, numerals, line editing.
  \<^item> \<open>Buf\<close>, \<open>Virtio\<close>, \<open>Bio\<close> (\<^verbatim>\<open>buf.h\<close>, \<^verbatim>\<open>virtio_disk.c\<close>, \<^verbatim>\<open>bio.c\<close>): the block layer; the driver refines the block
    transfer \<open>Bio\<close> is written over; the cache shows the contents of the disk.
  \<^item> \<open>Layout\<close>, \<open>Log\<close>, \<open>LogOps\<close> (\<^verbatim>\<open>log.c\<close>): transactions; recovery after a crash at any disk write; space in the log.
  \<^item> \<open>Fs\<close>, \<open>FsPath\<close> (\<^verbatim>\<open>fs.c\<close>, \<^verbatim>\<open>fs.h\<close>): the operations on blocks, inodes, directories and paths.
  \<^item> \<open>Txn\<close>, \<open>FsBlocks\<close>, \<open>FsInode\<close>, \<open>FsFile\<close>, \<open>FsDir\<close>: the same operations inside a transaction.  \<open>Txn\<close> states what a running
    transaction owns (buffers held, room left in the log) and how the block operations spend it; over it stand
    the bitmap (\<open>balloc\<close>, \<open>bfree\<close>), inodes on disk and in the table (\<open>iupdate\<close>, \<open>ilock\<close>, references), file contents (\<open>readi\<close>,
    \<open>writei\<close>) and directories (\<open>dirlookup\<close>, \<open>skipelem\<close>).
  \<^item> \<open>Pipe\<close>, \<open>File\<close> (\<^verbatim>\<open>pipe.c\<close>, \<^verbatim>\<open>file.c\<close>): pipes as queues of bytes; open files.
  \<^item> \<open>Sbi\<close>, \<open>Exec\<close>, \<open>SysArgs\<close>, \<open>SysFile\<close>, \<open>Trap\<close> (\<^verbatim>\<open>sbi.c\<close>, \<^verbatim>\<open>shutdown.c\<close>, \<^verbatim>\<open>exec.c\<close>, \<^verbatim>\<open>syscall.c\<close>, \<^verbatim>\<open>sysproc.c\<close>,
    \<^verbatim>\<open>sysfile.c\<close>, \<^verbatim>\<open>trap.c\<close>, \<^verbatim>\<open>plic.c\<close>): firmware calls, loading of programs, system calls, traps.
  \<^item> \<open>Dtb\<close>, \<open>Boot\<close> (\<^verbatim>\<open>dtb.c\<close>, \<^verbatim>\<open>dtb.h\<close>, \<^verbatim>\<open>main.c\<close>): walks over the flattened device tree, which end on a well-formed tree and
    visit its nodes and properties in order; the scan for devices; the start of the harts.

  \<^bold>\<open>Bounds and fuel.\<close>  Loops over an array or a list of known length recurse on the number of
  iterations left, with the length of the source (\<open>NPROC\<close>, \<open>NBUF\<close>, \<open>NFILE\<close>, \<dots>).  Loops that follow pointers
  or poll a device are partial functions with value \<open>None\<close> when they do not end, mapped to \<open>Diverge\<close> where they
  meet code that returns an outcome; the walks over the device tree and booting keep \<open>None\<close>.  That they end is
  proved where it holds: the polling of the UART, and the walks over a well-formed tree.

  \<^bold>\<open>Not modelled.\<close>  The assembly files (\<^verbatim>\<open>entry.S\<close>, \<^verbatim>\<open>swtch.S\<close>, \<^verbatim>\<open>kernelvec.S\<close>, \<^verbatim>\<open>trampoline.S\<close>) and \<^verbatim>\<open>start.c\<close>; the
  registers a context switch saves in that assembly (\<open>kmain\<close>, \<open>yield\<close>, \<open>exit\<close> and a call that sleeps return the state in
  which the scheduler is entered); \<^verbatim>\<open>ramdisk.c\<close>, which is not built; user programs, host tools and benchmarks, which run above the
  kernel or on another machine; the vendored firmware, which is an environment.
\<close>

end
